(* ===== verification/Prelude.thy ===== *)
theory Prelude
  imports Main "HOL-Library.Word"
begin

text \<open>
  Shared vocabulary of the development: the machine-integer layer of the Rust standard
  library that the crate uses (\<^verbatim>\<open>usize\<close>, shifts, \<^verbatim>\<open>next_power_of_two\<close>,
  \<^verbatim>\<open>trailing_zeros\<close>, \<^verbatim>\<open>checked_add\<close>, \<^verbatim>\<open>div_ceil\<close> and their kin), the outcome type
  that makes every panic a value, and generic lemmas on words, lists and powers of two.

  The target is a 64-bit machine: \<^verbatim>\<open>usize\<close> has 64 bits. Words that are read and written
  bit by bit (bitmap words, the order summary, cursors, counters) are \<open>64 word\<close>, so that
  their arithmetic wraps as the atomics do. Sizes, indices and orders are \<open>nat\<close>, with
  the overflow of the source written out where a caller can provoke it.
\<close>

unbundle bit_operations_syntax

type_synonym usize = "64 word"
type_synonym u8 = "8 word"
type_synonym bytes = "u8 list"

named_theorems bit_facts \<open>how single bits of words change\<close>
named_theorems outcome_simps \<open>operations that return, as rewrite rules\<close>

subsection \<open>Panics and build profiles\<close>

text \<open>
  \<^verbatim>\<open>debug_assert!\<close> and arithmetic overflow checks are active in the debug profile and
  compiled out in the release profile, so the operations that contain them take the profile
  as an argument.
\<close>

datatype profile = Debug | Release

text \<open>The result of a call: it returns, it panics with a message, or it never returns.\<close>

datatype 'a outcome = Ret 'a | Panic string | Diverge

fun obind :: "'a outcome \<Rightarrow> ('a \<Rightarrow> 'b outcome) \<Rightarrow> 'b outcome" where
  "obind (Ret x) f = f x"
| "obind (Panic m) f = Panic m"
| "obind Diverge f = Diverge"

lemma obind_cong [fundef_cong]:
  "m = m' \<Longrightarrow> (\<And>x. m' = Ret x \<Longrightarrow> f x = g x) \<Longrightarrow> obind m f = obind m' g"
  by (cases m') auto

lemma obind_eq_Ret: "obind m f = Ret y \<longleftrightarrow> (\<exists>x. m = Ret x \<and> f x = Ret y)"
  by (cases m) auto

subsection \<open>Powers of two\<close>

text \<open>The least power of two that is not below \<open>n\<close>.\<close>

fun pow2_ceil :: "nat \<Rightarrow> nat" where
  "pow2_ceil n = (if n \<le> 1 then 1 else 2 * pow2_ceil ((n + 1) div 2))"

declare pow2_ceil.simps [simp del]

lemma pow2_ceil_ge: "n \<le> pow2_ceil n"
proof (induction n rule: pow2_ceil.induct)
  case (1 n)
  show ?case
  proof (cases "n \<le> 1")
    case False
    with 1 have "(n + 1) div 2 \<le> pow2_ceil ((n + 1) div 2)" by simp
    with False show ?thesis by (subst pow2_ceil.simps) simp
  qed (subst pow2_ceil.simps, simp)
qed

lemma pow2_ceil_is_pow2: "\<exists>k. pow2_ceil n = 2 ^ k"
proof (induction n rule: pow2_ceil.induct)
  case (1 n)
  show ?case
  proof (cases "n \<le> 1")
    case True
    then show ?thesis by (subst pow2_ceil.simps) (auto intro: exI [of _ 0])
  next
    case False
    with 1 obtain k where "pow2_ceil ((n + 1) div 2) = 2 ^ k" by auto
    with False show ?thesis by (subst pow2_ceil.simps) (auto intro: exI [of _ "Suc k"])
  qed
qed

lemma pow2_ceil_least: "n \<le> 2 ^ k \<Longrightarrow> pow2_ceil n \<le> 2 ^ k"
proof (induction n arbitrary: k rule: pow2_ceil.induct)
  case (1 n)
  show ?case
  proof (cases "n \<le> 1")
    case True
    then show ?thesis by (subst pow2_ceil.simps) simp
  next
    case False
    with "1.prems" obtain j where k: "k = Suc j" by (cases k) auto
    with "1.prems" have "(n + 1) div 2 \<le> 2 ^ j" by auto
    with "1.IH" False have "pow2_ceil ((n + 1) div 2) \<le> 2 ^ j" by simp
    with False k show ?thesis by (subst pow2_ceil.simps) simp
  qed
qed

lemma pow2_ceil_pow2 [simp]: "pow2_ceil (2 ^ k) = 2 ^ k"
  using pow2_ceil_ge [of "2 ^ k"] pow2_ceil_least [of "2 ^ k" k] by simp

lemma pow2_ceil_pos [simp]: "0 < pow2_ceil n"
  using pow2_ceil_is_pow2 [of n] by auto

lemma pow2_ceil_mono: "m \<le> n \<Longrightarrow> pow2_ceil m \<le> pow2_ceil n"
  using pow2_ceil_is_pow2 [of n] pow2_ceil_ge [of n] pow2_ceil_least [of m]
  by (metis order_trans)

lemma pow2_ceil_less_double: "0 < n \<Longrightarrow> pow2_ceil n < 2 * n"
proof -
  assume n: "0 < n"
  obtain k where k: "pow2_ceil n = 2 ^ k" using pow2_ceil_is_pow2 by blast
  show ?thesis
  proof (cases k)
    case (Suc j)
    have "\<not> n \<le> 2 ^ j" using pow2_ceil_least [of n j] k Suc by auto
    then show ?thesis using k Suc by simp
  qed (use n k in simp)
qed

lemma pow2_dvd_pow2: "(2::nat) ^ a \<le> 2 ^ b \<Longrightarrow> (2::nat) ^ a dvd 2 ^ b"
  by (simp add: le_imp_power_dvd)

fun count_ones :: "nat \<Rightarrow> nat" where
  "count_ones n = (if n = 0 then 0 else n mod 2 + count_ones (n div 2))"

declare count_ones.simps [simp del]

lemma count_ones_0 [simp]: "count_ones 0 = 0"
  by (simp add: count_ones.simps)

lemma count_ones_eq_0: "count_ones n = 0 \<longleftrightarrow> n = 0"
proof (induction n rule: count_ones.induct)
  case (1 n)
  show ?case
  proof (cases "n = 0")
    case False
    with 1 show ?thesis by (subst count_ones.simps) (simp, presburger)
  qed simp
qed

lemma count_ones_double [simp]: "count_ones (2 * n) = count_ones n"
  by (cases "n = 0") (simp_all add: count_ones.simps [of "2 * n"])

lemma count_ones_pow2: "count_ones (2 ^ k) = 1"
proof (induction k)
  case 0
  show ?case by (simp add: count_ones.simps [of "Suc 0"])
qed simp

definition is_power_of_two :: "nat \<Rightarrow> bool" where
  "is_power_of_two n \<longleftrightarrow> count_ones n = 1"

lemma is_power_of_two_iff: "is_power_of_two n \<longleftrightarrow> (\<exists>k. n = 2 ^ k)"
proof
  assume "is_power_of_two n"
  then have "count_ones n = 1" by (simp add: is_power_of_two_def)
  then show "\<exists>k. n = 2 ^ k"
  proof (induction n rule: count_ones.induct)
    case (1 n)
    from "1.prems" have nz: "n \<noteq> 0" by (metis count_ones_0 zero_neq_one)
    show ?case
    proof (cases "odd n")
      case True
      with "1.prems" nz have "count_ones (n div 2) = 0"
        by (subst (asm) count_ones.simps) (simp add: odd_iff_mod_2_eq_one)
      then have "n div 2 = 0" by (simp only: count_ones_eq_0)
      with True have "n = 2 ^ 0" by (auto elim!: oddE)
      then show ?thesis by blast
    next
      case False
      with "1.prems" nz have "count_ones (n div 2) = 1"
        by (subst (asm) count_ones.simps) (simp add: even_iff_mod_2_eq_zero)
      with "1.IH" nz obtain k where "n div 2 = 2 ^ k" by auto
      with False have "n = 2 ^ Suc k" by (auto elim!: evenE)
      then show ?thesis by blast
    qed
  qed
qed (auto simp: is_power_of_two_def count_ones_pow2)

lemma is_power_of_two_pow2 [simp]: "is_power_of_two (2 ^ k)"
  by (auto simp: is_power_of_two_iff)

lemma is_power_of_two_pos: "is_power_of_two n \<Longrightarrow> 0 < n"
  by (auto simp: is_power_of_two_iff)


subsection \<open>Counting zeros\<close>

text \<open>\<^verbatim>\<open>usize::trailing_zeros\<close> and \<^verbatim>\<open>usize::leading_zeros\<close>; both are 64 at zero.\<close>

fun trailing_zeros :: "nat \<Rightarrow> nat" where
  "trailing_zeros n = (if n = 0 then 64 else if odd n then 0 else Suc (trailing_zeros (n div 2)))"

declare trailing_zeros.simps [simp del]

lemma trailing_zeros_0 [simp]: "trailing_zeros 0 = 64"
  by (simp add: trailing_zeros.simps)

lemma bit_trailing_zeros: "n \<noteq> 0 \<Longrightarrow> bit n (trailing_zeros n)"
proof (induction n rule: trailing_zeros.induct)
  case (1 n)
  show ?case
  proof (cases "odd n")
    case True
    with "1.prems" show ?thesis by (subst trailing_zeros.simps) (simp add: bit_0)
  next
    case False
    with "1.prems" have "n div 2 \<noteq> 0" by auto
    with 1 False show ?thesis by (subst trailing_zeros.simps) (simp add: bit_Suc)
  qed
qed

lemma not_bit_below_trailing_zeros: "n \<noteq> 0 \<Longrightarrow> k < trailing_zeros n \<Longrightarrow> \<not> bit n k"
proof (induction n arbitrary: k rule: trailing_zeros.induct)
  case (1 n)
  show ?case
  proof (cases "odd n")
    case True
    with "1.prems" show ?thesis by (subst (asm) trailing_zeros.simps) simp
  next
    case False
    with "1.prems" have nz: "n div 2 \<noteq> 0" by auto
    from False "1.prems" have "k < Suc (trailing_zeros (n div 2))"
      by (subst (asm) trailing_zeros.simps) simp
    with 1 False nz show ?thesis by (cases k) (auto simp: bit_0 bit_Suc)
  qed
qed

lemma trailing_zeros_pow2 [simp]: "trailing_zeros (2 ^ k) = k"
proof (induction k)
  case 0
  show ?case by (simp add: trailing_zeros.simps [of "Suc 0"])
next
  case (Suc k)
  then show ?case by (subst trailing_zeros.simps) simp
qed

fun bit_len :: "nat \<Rightarrow> nat" where
  "bit_len n = (if n = 0 then 0 else Suc (bit_len (n div 2)))"

declare bit_len.simps [simp del]

definition leading_zeros :: "nat \<Rightarrow> nat" where
  "leading_zeros n = 64 - bit_len n"

lemma bit_len_bounds: "n \<noteq> 0 \<Longrightarrow> 2 ^ (bit_len n - 1) \<le> n \<and> n < 2 ^ bit_len n"
proof (induction n rule: bit_len.induct)
  case (1 n)
  show ?case
  proof (cases "n = 1")
    case True
    then show ?thesis by (simp add: bit_len.simps [of "Suc 0"] bit_len.simps [of 0])
  next
    case False
    with "1.prems" have nz: "n div 2 \<noteq> 0" by auto
    with 1 have IH: "2 ^ (bit_len (n div 2) - 1) \<le> n div 2" "n div 2 < 2 ^ bit_len (n div 2)"
      by auto
    from nz have "bit_len (n div 2) \<noteq> 0" by (subst bit_len.simps) simp
    then obtain j where j: "bit_len (n div 2) = Suc j" by (cases "bit_len (n div 2)") auto
    with IH "1.prems" show ?thesis by (subst (1 2) bit_len.simps) (auto simp: j)
  qed
qed

lemma bit_len_le: "n < 2 ^ k \<Longrightarrow> bit_len n \<le> k"
proof (cases "n = 0")
  case False
  assume "n < 2 ^ k"
  with False bit_len_bounds [of n] have "(2::nat) ^ (bit_len n - 1) < 2 ^ k" by linarith
  then have "bit_len n - 1 < k" by simp
  then show ?thesis by simp
qed (simp add: bit_len.simps)

subsection \<open>Checked and overflowing \<open>usize\<close> arithmetic\<close>

definition checked_add :: "nat \<Rightarrow> nat \<Rightarrow> nat option" where
  "checked_add a b = (if a + b < 2 ^ 64 then Some (a + b) else None)"

definition checked_mul :: "nat \<Rightarrow> nat \<Rightarrow> nat option" where
  "checked_mul a b = (if a * b < 2 ^ 64 then Some (a * b) else None)"

definition checked_next_power_of_two :: "nat \<Rightarrow> nat option" where
  "checked_next_power_of_two n = (if pow2_ceil n < 2 ^ 64 then Some (pow2_ceil n) else None)"

text \<open>
  \<^verbatim>\<open>usize::next_power_of_two\<close>: on overflow the debug profile panics and the release
  profile wraps to zero.
\<close>

definition next_power_of_two :: "profile \<Rightarrow> nat \<Rightarrow> nat outcome" where
  "next_power_of_two p n =
     (case checked_next_power_of_two n of
        Some q \<Rightarrow> Ret q
      | None \<Rightarrow> (if p = Debug then Panic ''attempt to add with overflow'' else Ret 0))"

text \<open>
  The shift \<^verbatim>\<open>a << n\<close> on \<^verbatim>\<open>usize\<close>: a shift amount of 64 or more panics in the debug
  profile and is taken modulo 64 in the release profile; bits shifted out are lost in both.
\<close>

definition shl :: "profile \<Rightarrow> nat \<Rightarrow> nat \<Rightarrow> nat outcome" where
  "shl p a n =
     (if n < 64 then Ret ((a * 2 ^ n) mod 2 ^ 64)
      else if p = Debug then Panic ''attempt to shift left with overflow''
      else Ret ((a * 2 ^ (n mod 64)) mod 2 ^ 64))"

text \<open>The arithmetic operators: on overflow the debug profile panics, the release profile wraps.\<close>

definition overflowing :: "profile \<Rightarrow> string \<Rightarrow> int \<Rightarrow> nat outcome" where
  "overflowing p what r =
     (if 0 \<le> r \<and> r < 2 ^ 64 then Ret (nat r)
      else case p of Debug \<Rightarrow> Panic (''attempt to '' @ what @ '' with overflow'') | Release \<Rightarrow> Ret (nat (r mod 2 ^ 64)))"

definition usize_add :: "profile \<Rightarrow> nat \<Rightarrow> nat \<Rightarrow> nat outcome" where
  "usize_add p x y = overflowing p ''add'' (int x + int y)"

definition usize_sub :: "profile \<Rightarrow> nat \<Rightarrow> nat \<Rightarrow> nat outcome" where
  "usize_sub p x y = overflowing p ''subtract'' (int x - int y)"

definition usize_mul :: "profile \<Rightarrow> nat \<Rightarrow> nat \<Rightarrow> nat outcome" where
  "usize_mul p x y = overflowing p ''multiply'' (int x * int y)"

definition usize_max :: nat where
  "usize_max = 2 ^ 64 - 1"

lemma usize_add_Ret [outcome_simps]: "x + y < 2 ^ 64 \<Longrightarrow> usize_add p x y = Ret (x + y)"
  by (simp add: usize_add_def overflowing_def)

lemma usize_sub_Ret [outcome_simps]: "y \<le> x \<Longrightarrow> x < 2 ^ 64 \<Longrightarrow> usize_sub p x y = Ret (x - y)"
  by (simp add: usize_sub_def overflowing_def nat_diff_distrib)

lemma usize_mul_Ret [outcome_simps]: "x * y < 2 ^ 64 \<Longrightarrow> usize_mul p x y = Ret (x * y)"
proof -
  assume "x * y < 2 ^ 64"
  then have "int x * int y < 2 ^ 64" by (simp flip: of_nat_mult)
  then show ?thesis by (simp add: usize_mul_def overflowing_def nat_mult_distrib)
qed

definition div_ceil :: "nat \<Rightarrow> nat \<Rightarrow> nat" where
  "div_ceil a b = a div b + (if 0 < a mod b then 1 else 0)"

text \<open>\<^verbatim>\<open>isize::MAX\<close> and the validity condition of \<^verbatim>\<open>Layout::from_size_align\<close>.\<close>

definition isize_max :: nat where
  "isize_max = 2 ^ 63 - 1"

definition layout_from_size_align :: "nat \<Rightarrow> nat \<Rightarrow> (nat \<times> nat) option" where
  "layout_from_size_align sz align =
     (if is_power_of_two align \<and> sz + (align - 1) \<le> isize_max then Some (sz, align) else None)"

lemma pow2_ceil_lt_iff: "pow2_ceil n < 2 ^ 64 \<longleftrightarrow> n \<le> 2 ^ 63"
proof
  assume a: "pow2_ceil n < 2 ^ 64"
  obtain k where k: "pow2_ceil n = 2 ^ k" using pow2_ceil_is_pow2 by blast
  with a have "(2::nat) ^ k < 2 ^ 64" by simp
  then have "k < 64" by (rule power_less_imp_less_exp [rotated]) simp
  then have "(2::nat) ^ k \<le> 2 ^ 63" by (intro power_increasing) auto
  with k pow2_ceil_ge [of n] show "n \<le> 2 ^ 63" by linarith
next
  assume "n \<le> 2 ^ 63"
  then have "pow2_ceil n \<le> 2 ^ 63" by (rule pow2_ceil_least)
  then show "pow2_ceil n < 2 ^ 64" by simp
qed

lemma next_power_of_two_Ret [outcome_simps]:
  "n \<le> 2 ^ 63 \<Longrightarrow> next_power_of_two p n = Ret (pow2_ceil n)"
  using pow2_ceil_lt_iff [of n] by (simp add: next_power_of_two_def checked_next_power_of_two_def)

lemma shl_small [outcome_simps]: "n < 64 \<Longrightarrow> a * 2 ^ n < 2 ^ 64 \<Longrightarrow> shl p a n = Ret (a * 2 ^ n)"
  by (simp add: shl_def)

lemma div_ceil_le_mult: "0 < b \<Longrightarrow> a \<le> div_ceil a b * b"
proof -
  assume b: "0 < b"
  have a: "a = a div b * b + a mod b" by simp
  have lt: "a mod b < b" using b by simp
  show ?thesis
  proof (cases "a mod b = 0")
    case False
    then have "div_ceil a b * b = a div b * b + b" by (simp add: div_ceil_def)
    with a lt show ?thesis by linarith
  qed (auto simp: div_ceil_def)
qed

lemma div_ceil_less: "0 < b \<Longrightarrow> i < div_ceil a b \<longleftrightarrow> i * b < a"
proof
  assume b: "0 < b" and i: "i < div_ceil a b"
  have a: "a = a div b * b + a mod b" by simp
  show "i * b < a"
  proof (cases "a mod b = 0")
    case True
    with i have "i < a div b" by (simp add: div_ceil_def)
    with b have "i * b < a div b * b" by simp
    with a True show ?thesis by linarith
  next
    case False
    with i have "i \<le> a div b" by (simp add: div_ceil_def)
    then have "i * b \<le> a div b * b" by simp
    with a False show ?thesis by linarith
  qed
next
  assume b: "0 < b" and "i * b < a"
  moreover from b have "a \<le> div_ceil a b * b" by (rule div_ceil_le_mult)
  ultimately have "i * b < div_ceil a b * b" by linarith
  with b show "i < div_ceil a b" by simp
qed

subsection \<open>Single bits of words\<close>

lemma word64_bit_bound: "bit (w :: usize) k \<Longrightarrow> k < 64"
  by (drule bit_imp_le_length) simp

text \<open>The one-bit mask \<^verbatim>\<open>(1 as Word) << n\<close>.\<close>

definition bit_at :: "nat \<Rightarrow> usize" where
  "bit_at n = push_bit n 1"

lemma bit_bit_at [bit_facts]: "bit (bit_at n) k \<longleftrightarrow> k = n \<and> n < 64"
  by (auto simp: bit_at_def bit_simps)

lemma bit_clear_mask [bit_facts]: "bit (w AND NOT (bit_at n)) k \<longleftrightarrow> bit w k \<and> k \<noteq> n"
  by (auto simp: bit_simps bit_bit_at dest: word64_bit_bound)

lemma bit_set_mask [bit_facts]: "bit (w OR bit_at n) k \<longleftrightarrow> bit w k \<or> (k = n \<and> n < 64)"
  by (auto simp: bit_simps bit_bit_at)

lemma and_mask_eq_0 [bit_facts]: "w AND bit_at n = 0 \<longleftrightarrow> \<not> bit w n"
proof -
  have "w AND bit_at n = 0 \<longleftrightarrow> (\<forall>k. \<not> bit (w AND bit_at n) k)"
    by (metis bit_0_eq bit_word_eqI bot_apply bot_bool_def)
  also have "\<dots> \<longleftrightarrow> \<not> bit w n" by (auto simp: bit_simps bit_bit_at dest: word64_bit_bound)
  finally show ?thesis .
qed

lemma bit_low_mask [bit_facts]: "n < 64 \<Longrightarrow> bit (bit_at n - 1) k \<longleftrightarrow> k < n"
proof -
  assume n: "n < 64"
  have "bit_at n - 1 = mask n"
    by (simp add: mask_eq_exp_minus_1 bit_at_def)
  then show ?thesis using n by (auto simp: bit_mask_iff)
qed

lemma bit_max_word [bit_facts]: "bit (- 1 :: usize) k \<longleftrightarrow> k < 64"
  by (auto simp: bit_simps)

lemma usize_eq_0_iff: "(w :: usize) = 0 \<longleftrightarrow> (\<forall>k<64. \<not> bit w k)"
  by (auto simp: bit_eq_iff dest: word64_bit_bound)

lemma and_eq_right_iff: "(w :: usize) AND m = m \<longleftrightarrow> (\<forall>k<64. bit m k \<longrightarrow> bit w k)"
  by (auto simp: bit_eq_iff bit_simps dest: word64_bit_bound)

lemma bit_unat_usize: "bit (unat (w :: usize)) k \<longleftrightarrow> bit w k"
  by (simp add: bit_unsigned_iff)

lemma trailing_zeros_word:
  assumes "(w :: usize) \<noteq> 0"
  shows "bit w (trailing_zeros (unat w))" "trailing_zeros (unat w) < 64"
    "\<And>k. k < trailing_zeros (unat w) \<Longrightarrow> \<not> bit w k"
proof -
  from assms have nz: "unat w \<noteq> 0" by (simp add: unat_eq_0)
  show b: "bit w (trailing_zeros (unat w))" using bit_trailing_zeros [OF nz] by (simp add: bit_unat_usize)
  then show "trailing_zeros (unat w) < 64" by (rule word64_bit_bound)
  show "\<not> bit w k" if "k < trailing_zeros (unat w)" for k
    using not_bit_below_trailing_zeros [OF nz that] by (simp add: bit_unat_usize)
qed

text \<open>\<^verbatim>\<open>x & (n - 1)\<close> with \<open>n\<close> a power of two is reduction modulo \<open>n\<close>.\<close>

lemma and_pow2_minus_1: "(x :: nat) AND (2 ^ k - 1) = x mod 2 ^ k"
  by (simp add: take_bit_eq_mod [symmetric] take_bit_eq_mask mask_eq_exp_minus_1)

text \<open>\<^verbatim>\<open>count_ones\<close> of a word is the number of its set bits.\<close>

lemma card_bits_nat: "count_ones n = card {k. bit n k} \<and> finite {k. bit n k}"
proof (induction n rule: count_ones.induct)
  case (1 n)
  show ?case
  proof (cases "n = 0")
    case False
    with 1 have IH: "count_ones (n div 2) = card {k. bit (n div 2) k}" "finite {k. bit (n div 2) k}"
      by auto
    have eq: "{k. bit n k} = (if odd n then {0} else {}) \<union> Suc ` {k. bit (n div 2) k}" (is "_ = ?A \<union> _")
    proof (intro set_eqI iffI)
      fix x assume "x \<in> {k. bit n k}"
      then show "x \<in> ?A \<union> Suc ` {k. bit (n div 2) k}"
        by (cases x) (auto simp: bit_0 bit_Suc)
    qed (auto simp: bit_0 bit_Suc split: if_splits)
    have "card (Suc ` {k. bit (n div 2) k}) = card {k. bit (n div 2) k}"
      by (simp add: card_image)
    moreover have "card (?A \<union> Suc ` {k. bit (n div 2) k}) = card ?A + card (Suc ` {k. bit (n div 2) k})"
      using IH by (intro card_Un_disjoint) auto
    ultimately have "card {k. bit n k} = n mod 2 + count_ones (n div 2)"
      using IH by (cases "odd n") (simp_all add: eq odd_iff_mod_2_eq_one)
    then show ?thesis using False IH by (subst count_ones.simps) (simp add: eq)
  qed simp
qed

lemma count_ones_word: "count_ones (unat (w :: usize)) = card {k. k < 64 \<and> bit w k}"
proof -
  have "{k. bit (unat w) k} = {k. k < 64 \<and> bit w k}"
    by (auto simp: bit_unat_usize dest: word64_bit_bound)
  then show ?thesis using card_bits_nat [of "unat w"] by simp
qed

end
