(* ===== verification/Bitmap.thy ===== *)
theory Bitmap
  imports Prelude
begin

text \<open>
  The lock-free bitmap of \<^verbatim>\<open>src/src/bitmap.rs\<close>, executed one call at a time: the record
  \<open>AtomicBitmap\<close>, every operation of its \<^verbatim>\<open>impl\<close> block, the well-formedness invariant, and
  the abstraction \<open>free_set\<close> (the slots whose bit is set). Each operation is shown to
  act on \<open>free_set\<close> as the corresponding set operation; the locale \<open>slot_pool\<close> states that
  contract for the arenas that are built on the bitmap. Interleavings of the atomic
  accesses are the subject of the theory \<open>Bitmap_Concurrent\<close>.
\<close>

subsection \<open>State and operations\<close>

definition BITS_PER_WORD :: nat where
  "BITS_PER_WORD = 64"

record AtomicBitmap =
  bm_words :: "usize list"
  bm_cursor :: usize
  bm_scan_words :: nat
  bm_word_mask :: nat
  bm_slot_count :: nat

text \<open>An indexed read of the word slice (bounds-checked by Rust) and a store to it.\<close>

definition word_at :: "AtomicBitmap \<Rightarrow> nat \<Rightarrow> usize outcome" where
  "word_at b i =
     (if i < length (bm_words b) then Ret (bm_words b ! i) else Panic ''index out of bounds'')"

definition store_word :: "AtomicBitmap \<Rightarrow> nat \<Rightarrow> usize \<Rightarrow> AtomicBitmap" where
  "store_word b i w = b\<lparr>bm_words := (bm_words b)[i := w]\<rparr>"

definition initial_word :: "nat \<Rightarrow> bool \<Rightarrow> nat \<Rightarrow> usize" where
  "initial_word slot_count initially_free w =
     (let start_bit = w * BITS_PER_WORD in
      if slot_count \<le> start_bit then 0
      else
        let valid_bits = min (slot_count - start_bit) BITS_PER_WORD;
            free_mask = (if valid_bits = BITS_PER_WORD then - 1 else bit_at (valid_bits mod 64) - 1)
        in if initially_free then free_mask else 0)"

definition with_allocation_state :: "nat \<Rightarrow> bool \<Rightarrow> AtomicBitmap" where
  "with_allocation_state slot_count initially_free =
     (let actual_words = div_ceil slot_count BITS_PER_WORD;
          scan_words = pow2_ceil (max actual_words 1)
      in \<lparr>bm_words = map (initial_word slot_count initially_free) [0..<scan_words],
          bm_cursor = 0,
          bm_scan_words = scan_words,
          bm_word_mask = scan_words - 1,
          bm_slot_count = slot_count\<rparr>)"

definition new_bitmap :: "nat \<Rightarrow> AtomicBitmap" where
  "new_bitmap slot_count = with_allocation_state slot_count True"

definition new_empty :: "nat \<Rightarrow> AtomicBitmap" where
  "new_empty slot_count = with_allocation_state slot_count False"

text \<open>
  The claim loop on one word. Executed without interference the first \<^verbatim>\<open>fetch_and\<close> always
  finds the bit it looked for, which is what the termination proof uses.
\<close>

function try_claim_word :: "usize \<Rightarrow> nat \<Rightarrow> nat option \<times> usize" where
  "try_claim_word word base =
     (let bits = word in
      if bits = 0 then (None, word)
      else
        let bit_idx = trailing_zeros (unat bits);
            m = bit_at bit_idx;
            prev = word;
            word' = word AND NOT m
        in if prev AND m \<noteq> 0 then (Some (base + bit_idx), word')
           else try_claim_word word' base)"
  by pat_completeness auto
termination
  by (relation "measure (\<lambda>(w, _). unat w)") (auto simp: and_mask_eq_0 trailing_zeros_word)

fun scan_words_from :: "AtomicBitmap \<Rightarrow> nat \<Rightarrow> nat list \<Rightarrow> (nat option \<times> AtomicBitmap) outcome" where
  "scan_words_from b start [] = Ret (None, b)"
| "scan_words_from b start (i # is) =
     (let word_idx = (start + i) AND bm_word_mask b;
          base = word_idx * BITS_PER_WORD
      in obind (word_at b word_idx) (\<lambda>w.
           case try_claim_word w base of
             (Some slot, w') \<Rightarrow> Ret (Some slot, store_word b word_idx w')
           | (None, w') \<Rightarrow> scan_words_from (store_word b word_idx w') start is))"

definition try_alloc :: "AtomicBitmap \<Rightarrow> (nat option \<times> AtomicBitmap) outcome" where
  "try_alloc b =
     (if bm_slot_count b = 0 then Ret (None, b)
      else
        let start = unat (bm_cursor b) AND bm_word_mask b;
            b' = b\<lparr>bm_cursor := bm_cursor b + 1\<rparr>
        in scan_words_from b' start [0..<bm_scan_words b])"

definition free :: "profile \<Rightarrow> AtomicBitmap \<Rightarrow> nat \<Rightarrow> AtomicBitmap outcome" where
  "free p b slot =
     (if p = Debug \<and> \<not> slot < bm_slot_count b then Panic ''slot index out of bounds''
      else
        let word_idx = slot div BITS_PER_WORD;
            m = bit_at (slot mod BITS_PER_WORD)
        in obind (word_at b word_idx) (\<lambda>prev.
             let b' = store_word b word_idx (prev OR m) in
             if p = Debug \<and> prev AND m \<noteq> 0 then Panic ''double free'' else Ret b'))"

definition try_claim_exact :: "profile \<Rightarrow> AtomicBitmap \<Rightarrow> nat \<Rightarrow> (bool \<times> AtomicBitmap) outcome" where
  "try_claim_exact p b slot =
     (if p = Debug \<and> \<not> slot < bm_slot_count b then Panic ''slot index out of bounds''
      else
        let word_idx = slot div BITS_PER_WORD;
            m = bit_at (slot mod BITS_PER_WORD)
        in obind (word_at b word_idx) (\<lambda>prev.
             Ret (prev AND m \<noteq> 0, store_word b word_idx (prev AND NOT m))))"

fun any_free_from :: "AtomicBitmap \<Rightarrow> nat list \<Rightarrow> bool outcome" where
  "any_free_from b [] = Ret False"
| "any_free_from b (i # is) =
     obind (word_at b i) (\<lambda>w. if w \<noteq> 0 then Ret True else any_free_from b is)"

definition any_free :: "AtomicBitmap \<Rightarrow> bool outcome" where
  "any_free b = any_free_from b [0..<div_ceil (bm_slot_count b) BITS_PER_WORD]"

definition is_free :: "profile \<Rightarrow> AtomicBitmap \<Rightarrow> nat \<Rightarrow> bool outcome" where
  "is_free p b slot =
     (if p = Debug \<and> \<not> slot < bm_slot_count b then Panic ''slot index out of bounds''
      else obind (word_at b (slot div BITS_PER_WORD)) (\<lambda>w.
             Ret (w AND bit_at (slot mod BITS_PER_WORD) \<noteq> 0)))"

fun free_count_from :: "AtomicBitmap \<Rightarrow> nat \<Rightarrow> nat list \<Rightarrow> nat outcome" where
  "free_count_from b acc [] = Ret acc"
| "free_count_from b acc (i # is) =
     obind (word_at b i) (\<lambda>w. free_count_from b (acc + count_ones (unat w)) is)"

definition free_count :: "AtomicBitmap \<Rightarrow> nat outcome" where
  "free_count b = free_count_from b 0 [0..<div_ceil (bm_slot_count b) BITS_PER_WORD]"

definition range_mask :: "profile \<Rightarrow> nat \<Rightarrow> nat \<Rightarrow> usize outcome" where
  "range_mask p start_bit end_bit =
     (if p = Debug \<and> \<not> start_bit \<le> end_bit then Panic ''start_bit <= end_bit''
      else if p = Debug \<and> \<not> end_bit \<le> BITS_PER_WORD then Panic ''end_bit <= BITS_PER_WORD''
      else
        let full = (if BITS_PER_WORD \<le> end_bit then - 1 else bit_at (end_bit mod 64) - 1)
        in Ret (full AND NOT (bit_at (start_bit mod 64) - 1)))"

text \<open>The middle words of a range: all of them full, and setting all of them.\<close>

fun all_full :: "AtomicBitmap \<Rightarrow> nat list \<Rightarrow> bool outcome" where
  "all_full b [] = Ret True"
| "all_full b (w # ws) = obind (word_at b w) (\<lambda>v. if v \<noteq> - 1 then Ret False else all_full b ws)"

fun fill_words :: "AtomicBitmap \<Rightarrow> nat list \<Rightarrow> AtomicBitmap outcome" where
  "fill_words b [] = Ret b"
| "fill_words b (w # ws) =
     obind (word_at b w) (\<lambda>v. fill_words (store_word b w (v OR - 1)) ws)"

definition last_range_mask :: "nat \<Rightarrow> usize" where
  "last_range_mask last_bit =
     (if BITS_PER_WORD \<le> last_bit then - 1 else bit_at (last_bit mod 64) - 1)"

definition all_set_in_range :: "profile \<Rightarrow> AtomicBitmap \<Rightarrow> nat \<Rightarrow> nat \<Rightarrow> bool outcome" where
  "all_set_in_range p b start end =
     (if p = Debug \<and> \<not> end \<le> bm_slot_count b then Panic ''end <= self.slot_count''
      else if p = Debug \<and> \<not> start \<le> end then Panic ''start <= end''
      else if start = end then Ret True
      else
        let first_word = start div BITS_PER_WORD;
            last_word = (end - 1) div BITS_PER_WORD
        in if first_word = last_word then
             obind (range_mask p (start mod BITS_PER_WORD) (end - first_word * BITS_PER_WORD)) (\<lambda>m.
             obind (word_at b first_word) (\<lambda>w. Ret (w AND m = m)))
           else
             let first_mask = NOT (bit_at (start mod BITS_PER_WORD) - 1)
             in obind (word_at b first_word) (\<lambda>w.
                if w AND first_mask \<noteq> first_mask then Ret False
                else obind (all_full b [first_word + 1..<last_word]) (\<lambda>ok.
                if \<not> ok then Ret False
                else
                  let last_mask = last_range_mask (end - last_word * BITS_PER_WORD)
                  in obind (word_at b last_word) (\<lambda>v. Ret (v AND last_mask = last_mask)))))"

definition set_range :: "profile \<Rightarrow> AtomicBitmap \<Rightarrow> nat \<Rightarrow> nat \<Rightarrow> AtomicBitmap outcome" where
  "set_range p b start end =
     (if p = Debug \<and> \<not> end \<le> bm_slot_count b then Panic ''end <= self.slot_count''
      else if p = Debug \<and> \<not> start \<le> end then Panic ''start <= end''
      else if start = end then Ret b
      else
        let first_word = start div BITS_PER_WORD;
            last_word = (end - 1) div BITS_PER_WORD
        in if first_word = last_word then
             obind (range_mask p (start mod BITS_PER_WORD) (end - first_word * BITS_PER_WORD)) (\<lambda>m.
             obind (word_at b first_word) (\<lambda>w. Ret (store_word b first_word (w OR m))))
           else
             let first_mask = NOT (bit_at (start mod BITS_PER_WORD) - 1)
             in obind (word_at b first_word) (\<lambda>w.
                obind (fill_words (store_word b first_word (w OR first_mask)) [first_word + 1..<last_word]) (\<lambda>b'.
                  let last_mask = last_range_mask (end - last_word * BITS_PER_WORD)
                  in obind (word_at b' last_word) (\<lambda>v. Ret (store_word b' last_word (v OR last_mask))))))"


declare try_claim_word.simps [simp del]

subsection \<open>Invariant and abstraction\<close>

definition bm_bit :: "AtomicBitmap \<Rightarrow> nat \<Rightarrow> bool" where
  "bm_bit b s \<longleftrightarrow> bit (bm_words b ! (s div 64)) (s mod 64)"

definition free_set :: "AtomicBitmap \<Rightarrow> nat set" where
  "free_set b = {s. s < bm_slot_count b \<and> bm_bit b s}"

definition bm_inv :: "AtomicBitmap \<Rightarrow> bool" where
  "bm_inv b \<longleftrightarrow>
     bm_scan_words b = pow2_ceil (max (div_ceil (bm_slot_count b) 64) 1) \<and>
     length (bm_words b) = bm_scan_words b \<and>
     bm_word_mask b = bm_scan_words b - 1 \<and>
     (\<forall>s < 64 * bm_scan_words b. bm_bit b s \<longrightarrow> s < bm_slot_count b)"

lemma finite_free_set [simp]: "finite (free_set b)"
  by (rule finite_subset [of _ "{..<bm_slot_count b}"]) (auto simp: free_set_def)

lemma free_set_bound: "s \<in> free_set b \<Longrightarrow> s < bm_slot_count b"
  by (simp add: free_set_def)

lemma bm_inv_lengthD: "bm_inv b \<Longrightarrow> length (bm_words b) = bm_scan_words b"
  by (simp add: bm_inv_def)

lemma bm_inv_validD:
  "bm_inv b \<Longrightarrow> i < bm_scan_words b \<Longrightarrow> bit (bm_words b ! i) k \<Longrightarrow> i * 64 + k < bm_slot_count b"
proof -
  assume b: "bm_inv b" and i: "i < bm_scan_words b" and k: "bit (bm_words b ! i) k"
  from k have "k < 64" by (rule word64_bit_bound)
  then have "(i * 64 + k) div 64 = i" "(i * 64 + k) mod 64 = k" by simp_all
  moreover from i \<open>k < 64\<close> have "i * 64 + k < 64 * bm_scan_words b" by linarith
  ultimately show ?thesis using b k by (auto simp: bm_inv_def bm_bit_def)
qed

lemma actual_words_le_scan: "div_ceil n 64 \<le> pow2_ceil (max (div_ceil n 64) 1)"
  by (rule order_trans [OF _ pow2_ceil_ge]) simp

lemma slot_word_less [simp]: "bm_inv b \<Longrightarrow> s < bm_slot_count b \<Longrightarrow> s div 64 < bm_scan_words b"
proof -
  assume b: "bm_inv b" and s: "s < bm_slot_count b"
  have "s div 64 * 64 \<le> s" by (rule div_times_less_eq_dividend)
  with s have "s div 64 * 64 < bm_slot_count b" by linarith
  then have "s div 64 < div_ceil (bm_slot_count b) 64" by (subst div_ceil_less) auto
  with b actual_words_le_scan [of "bm_slot_count b"] show ?thesis by (simp add: bm_inv_def)
qed

lemma word_at_Ret [outcome_simps]:
  "bm_inv b \<Longrightarrow> i < bm_scan_words b \<Longrightarrow> word_at b i = Ret (bm_words b ! i)"
  by (simp add: word_at_def bm_inv_def)

lemma store_word_simps [simp]:
  "bm_slot_count (store_word b i w) = bm_slot_count b"
  "bm_scan_words (store_word b i w) = bm_scan_words b"
  "bm_word_mask (store_word b i w) = bm_word_mask b"
  "bm_cursor (store_word b i w) = bm_cursor b"
  "bm_words (store_word b i w) = (bm_words b)[i := w]"
  by (simp_all add: store_word_def)

lemma store_word_same [simp]: "store_word b i (bm_words b ! i) = b"
  by (simp add: store_word_def)

lemma bm_bit_store:
  "i < length (bm_words b) \<Longrightarrow>
     bm_bit (store_word b i w) s \<longleftrightarrow> (if s div 64 = i then bit w (s mod 64) else bm_bit b s)"
  by (auto simp: bm_bit_def)

lemma bm_inv_store:
  assumes "bm_inv b" "i < bm_scan_words b" "\<And>k. bit w k \<Longrightarrow> i * 64 + k < bm_slot_count b"
  shows "bm_inv (store_word b i w)"
proof -
  have "s < bm_slot_count b" if "s div 64 = i" "bit w (s mod 64)" for s
    using assms(3) [OF that(2)] that(1) by (metis div_mult_mod_eq)
  with assms(1,2) show ?thesis by (auto simp: bm_inv_def bm_bit_store split: if_splits)
qed

lemma bm_inv_clear: "bm_inv b \<Longrightarrow> i < bm_scan_words b \<Longrightarrow> bm_inv (store_word b i (bm_words b ! i AND NOT m))"
  by (rule bm_inv_store) (auto simp: bit_simps intro: bm_inv_validD)

lemma bm_inv_set:
  "bm_inv b \<Longrightarrow> i < bm_scan_words b \<Longrightarrow> (\<And>k. bit m k \<Longrightarrow> i * 64 + k < bm_slot_count b) \<Longrightarrow>
     bm_inv (store_word b i (bm_words b ! i OR m))"
  by (rule bm_inv_store) (auto simp: bit_simps intro: bm_inv_validD)

lemma free_set_clear:
  assumes "bm_inv b" "i < bm_scan_words b" "k < 64"
  shows "free_set (store_word b i (bm_words b ! i AND NOT (bit_at k))) = free_set b - {i * 64 + k}"
proof (rule set_eqI)
  fix s
  from assms have i: "i < length (bm_words b)" by (simp add: bm_inv_def)
  have "s = i * 64 + k \<longleftrightarrow> s div 64 = i \<and> s mod 64 = k"
    using assms(3) by auto
  then show "s \<in> free_set (store_word b i (bm_words b ! i AND NOT (bit_at k))) \<longleftrightarrow>
      s \<in> free_set b - {i * 64 + k}"
    by (auto simp: free_set_def bm_bit_def nth_list_update [OF i] bit_facts)
qed

lemma free_set_set:
  assumes "bm_inv b" "i < bm_scan_words b"
  shows "free_set (store_word b i (bm_words b ! i OR m)) =
    free_set b \<union> {s. s < bm_slot_count b \<and> s div 64 = i \<and> bit m (s mod 64)}"
proof -
  from assms have i: "i < length (bm_words b)" by (simp add: bm_inv_def)
  show ?thesis by (auto simp: free_set_def bm_bit_def nth_list_update [OF i] bit_simps split: if_splits)
qed

lemma free_set_empty_iff:
  assumes "bm_inv b"
  shows "free_set b = {} \<longleftrightarrow> (\<forall>i < bm_scan_words b. bm_words b ! i = 0)"
proof
  assume e: "free_set b = {}"
  show "\<forall>i < bm_scan_words b. bm_words b ! i = 0"
  proof (intro allI impI)
    fix i assume i: "i < bm_scan_words b"
    have "\<not> bit (bm_words b ! i) k" for k
    proof
      assume k: "bit (bm_words b ! i) k"
      then have "k < 64" by (rule word64_bit_bound)
      then have "bm_bit b (i * 64 + k)" using k by (simp add: bm_bit_def)
      then have "i * 64 + k \<in> free_set b" using bm_inv_validD [OF assms i k] by (simp add: free_set_def)
      with e show False by simp
    qed
    then show "bm_words b ! i = 0" by (simp add: usize_eq_0_iff)
  qed
next
  assume "\<forall>i < bm_scan_words b. bm_words b ! i = 0"
  then show "free_set b = {}" using slot_word_less [OF assms] by (fastforce simp: free_set_def bm_bit_def)
qed


subsection \<open>Construction\<close>

lemma bit_initial_word:
  assumes "k < 64"
  shows "bit (initial_word n fr w) k \<longleftrightarrow> fr \<and> w * 64 + k < n"
proof -
  consider "n \<le> w * 64" | "w * 64 + 64 \<le> n" | "w * 64 < n" "n < w * 64 + 64" by linarith
  then show ?thesis
  proof cases
    case 3
    then have "n - w * 64 < 64" by linarith
    with 3 assms show ?thesis
      by (auto simp: initial_word_def BITS_PER_WORD_def Let_def min_def bit_facts)
  qed (use assms in \<open>auto simp: initial_word_def BITS_PER_WORD_def Let_def min_def bit_facts\<close>)
qed

lemma with_allocation_state_simps [simp]:
  "bm_slot_count (with_allocation_state n fr) = n"
  "bm_scan_words (with_allocation_state n fr) = pow2_ceil (max (div_ceil n 64) 1)"
  by (simp_all add: with_allocation_state_def BITS_PER_WORD_def Let_def)

lemma bm_bit_initial:
  "s div 64 < pow2_ceil (max (div_ceil n 64) 1) \<Longrightarrow> bm_bit (with_allocation_state n fr) s \<longleftrightarrow> fr \<and> s < n"
  by (simp add: bm_bit_def with_allocation_state_def BITS_PER_WORD_def Let_def bit_initial_word)

lemma bm_inv_initial [simp]: "bm_inv (with_allocation_state n fr)"
proof -
  have "s < n" if "s < 64 * pow2_ceil (max (div_ceil n 64) 1)" "bm_bit (with_allocation_state n fr) s" for s
  proof -
    from that(1) have "s div 64 < pow2_ceil (max (div_ceil n 64) 1)" by (auto simp: less_mult_imp_div_less mult.commute)
    with that(2) show ?thesis by (simp add: bm_bit_initial)
  qed
  then show ?thesis
    by (auto simp: bm_inv_def) (simp_all add: with_allocation_state_def BITS_PER_WORD_def Let_def)
qed

lemma free_set_initial: "free_set (with_allocation_state n fr) = (if fr then {..<n} else {})"
proof -
  have "bm_bit (with_allocation_state n fr) s \<longleftrightarrow> fr" if "s < n" for s
    using slot_word_less [OF bm_inv_initial [of n fr], of s] that by (simp add: bm_bit_initial)
  then show ?thesis by (auto simp: free_set_def)
qed

lemma new_bitmap_facts [simp]:
  "bm_inv (new_bitmap n)" "free_set (new_bitmap n) = {..<n}" "bm_slot_count (new_bitmap n) = n"
  by (simp_all add: new_bitmap_def free_set_initial)

lemma new_empty_facts [simp]:
  "bm_inv (new_empty n)" "free_set (new_empty n) = {}" "bm_slot_count (new_empty n) = n"
  by (simp_all add: new_empty_def free_set_initial)

subsection \<open>Allocation\<close>

lemma try_claim_word_eq:
  "try_claim_word w base =
     (if w = 0 then (None, w)
      else (Some (base + trailing_zeros (unat w)), w AND NOT (bit_at (trailing_zeros (unat w)))))"
  by (subst try_claim_word.simps) (simp add: Let_def and_mask_eq_0 trailing_zeros_word)

lemma and_word_mask: "bm_inv b \<Longrightarrow> x AND bm_word_mask b = x mod bm_scan_words b"
proof -
  assume b: "bm_inv b"
  then obtain k where k: "bm_scan_words b = 2 ^ k"
    unfolding bm_inv_def using pow2_ceil_is_pow2 [of "max (div_ceil (bm_slot_count b) 64) 1"] by metis
  from b have "bm_word_mask b = bm_scan_words b - 1" by (simp add: bm_inv_def)
  then show ?thesis unfolding k using and_pow2_minus_1 [of x k] by simp
qed

lemma scan_words_pos: "bm_inv b \<Longrightarrow> 0 < bm_scan_words b"
  by (simp add: bm_inv_def)

lemma word_idx_less: "bm_inv b \<Longrightarrow> x AND bm_word_mask b < bm_scan_words b"
  by (simp add: and_word_mask scan_words_pos)

lemma word_idx_covers:
  assumes "bm_inv b" "j < bm_scan_words b"
  shows "\<exists>i < bm_scan_words b. (start + i) AND bm_word_mask b = j"
proof -
  define n where "n = bm_scan_words b"
  define i where "i = (j + (n - start mod n)) mod n"
  have n: "0 < n" "j < n" using assms by (simp_all add: n_def scan_words_pos)
  have "(start + i) mod n = (start + (j + (n - start mod n))) mod n"
    unfolding i_def by (rule mod_add_right_eq)
  also have "\<dots> = (start mod n + (j + (n - start mod n))) mod n"
    by (rule mod_add_left_eq [symmetric])
  also have "start mod n + (j + (n - start mod n)) = j + n"
    using mod_less_divisor [OF n(1), of start] by linarith
  finally have "(start + i) mod n = j" using n by simp
  moreover have "i < n" using n by (simp add: i_def)
  ultimately show ?thesis using assms by (auto simp: and_word_mask n_def)
qed

text \<open>
  A scan either finds every visited word empty and changes nothing, or claims the lowest
  set bit of the first non-empty word it visits.
\<close>

lemma scan_words_from_cases:
  assumes "bm_inv b"
  shows "(scan_words_from b start is = Ret (None, b) \<and>
            (\<forall>i \<in> set is. bm_words b ! ((start + i) AND bm_word_mask b) = 0)) \<or>
         (\<exists>j k. j < bm_scan_words b \<and> bit (bm_words b ! j) k \<and>
            scan_words_from b start is =
              Ret (Some (j * 64 + k), store_word b j (bm_words b ! j AND NOT (bit_at k))))"
proof (induction "is")
  case (Cons i "is")
  let ?j = "(start + i) AND bm_word_mask b"
  have j: "?j < bm_scan_words b" using assms by (rule word_idx_less)
  show ?case
  proof (cases "bm_words b ! ?j = 0")
    case True
    then have "scan_words_from b start (i # is) = scan_words_from b start is"
      using True assms j store_word_same [of b ?j]
      by (simp add: Let_def outcome_simps try_claim_word_eq del: store_word_same)
    with Cons True show ?thesis by auto
  next
    case False
    then show ?thesis using assms j trailing_zeros_word(1) [OF False]
      by (auto simp: Let_def outcome_simps try_claim_word_eq BITS_PER_WORD_def)
  qed
qed simp

lemma bump_cursor_simps [simp]:
  "bm_inv (b\<lparr>bm_cursor := c\<rparr>) = bm_inv b" "free_set (b\<lparr>bm_cursor := c\<rparr>) = free_set b"
  by (simp_all add: bm_inv_def free_set_def bm_bit_def)

lemma try_alloc_cases:
  assumes "bm_inv b"
  obtains (full) b' where "free_set b = {}" "try_alloc b = Ret (None, b')"
      "bm_inv b'" "free_set b' = {}" "bm_slot_count b' = bm_slot_count b"
  | (claimed) s b' where "s \<in> free_set b" "try_alloc b = Ret (Some s, b')"
      "bm_inv b'" "free_set b' = free_set b - {s}" "bm_slot_count b' = bm_slot_count b"
proof (cases "bm_slot_count b = 0")
  case True
  then have "free_set b = {}" by (auto simp: free_set_def)
  with True assms full show ?thesis by (auto simp: try_alloc_def)
next
  case False
  define b1 where "b1 = b\<lparr>bm_cursor := bm_cursor b + 1\<rparr>"
  define start where "start = unat (bm_cursor b) AND bm_word_mask b"
  have alloc: "try_alloc b = scan_words_from b1 start [0..<bm_scan_words b]"
    using False by (simp add: try_alloc_def b1_def start_def Let_def)
  have b1: "bm_inv b1" "free_set b1 = free_set b" "bm_slot_count b1 = bm_slot_count b"
    "bm_scan_words b1 = bm_scan_words b" using assms by (simp_all add: b1_def)
  from scan_words_from_cases [OF b1(1), of start "[0..<bm_scan_words b]"]
  show ?thesis
  proof (elim disjE conjE exE)
    assume none: "scan_words_from b1 start [0..<bm_scan_words b] = Ret (None, b1)"
      and zero: "\<forall>i \<in> set [0..<bm_scan_words b]. bm_words b1 ! ((start + i) AND bm_word_mask b1) = 0"
    have "bm_words b1 ! j = 0" if "j < bm_scan_words b1" for j
      using word_idx_covers [OF b1(1) that, of start] zero b1(4) by auto
    then have "free_set b = {}" using free_set_empty_iff [OF b1(1)] b1(2) by simp
    then show ?thesis using full none alloc b1 by simp
  next
    fix j k assume j: "j < bm_scan_words b1" and k: "bit (bm_words b1 ! j) k"
      and some: "scan_words_from b1 start [0..<bm_scan_words b] =
        Ret (Some (j * 64 + k), store_word b1 j (bm_words b1 ! j AND NOT (bit_at k)))"
    have k64: "k < 64" using k by (rule word64_bit_bound)
    have "j * 64 + k \<in> free_set b1"
      using k k64 bm_inv_validD [OF b1(1) j k] by (simp add: free_set_def bm_bit_def)
    then show ?thesis
      using claimed [of "j * 64 + k"] some alloc b1 bm_inv_clear [OF b1(1) j] free_set_clear [OF b1(1) j k64]
      by auto
  qed
qed


subsection \<open>Freeing and claiming a given slot\<close>

definition set_slot :: "AtomicBitmap \<Rightarrow> nat \<Rightarrow> AtomicBitmap" where
  "set_slot b s = store_word b (s div 64) (bm_words b ! (s div 64) OR bit_at (s mod 64))"

definition clear_slot :: "AtomicBitmap \<Rightarrow> nat \<Rightarrow> AtomicBitmap" where
  "clear_slot b s = store_word b (s div 64) (bm_words b ! (s div 64) AND NOT (bit_at (s mod 64)))"

lemma set_slot_facts [simp]:
  assumes "bm_inv b" "s < bm_slot_count b"
  shows "bm_inv (set_slot b s)" "free_set (set_slot b s) = insert s (free_set b)"
    "bm_slot_count (set_slot b s) = bm_slot_count b"
proof -
  have w: "s div 64 < bm_scan_words b" using assms by simp
  show "bm_inv (set_slot b s)" unfolding set_slot_def
    using assms by (intro bm_inv_set w) (auto simp: bit_facts)
  have "{x. x < bm_slot_count b \<and> x div 64 = s div 64 \<and> bit (bit_at (s mod 64)) (x mod 64)} = {s}"
    using assms(2) by (auto simp: bit_facts) (metis div_mult_mod_eq)
  then show "free_set (set_slot b s) = insert s (free_set b)"
    unfolding set_slot_def using free_set_set [OF assms(1) w] by auto
qed (simp add: set_slot_def)

lemma clear_slot_facts [simp]:
  assumes "bm_inv b" "s < bm_slot_count b"
  shows "bm_inv (clear_slot b s)" "free_set (clear_slot b s) = free_set b - {s}"
    "bm_slot_count (clear_slot b s) = bm_slot_count b"
proof -
  have w: "s div 64 < bm_scan_words b" using assms by simp
  show "bm_inv (clear_slot b s)" unfolding clear_slot_def by (intro bm_inv_clear assms(1) w)
  show "free_set (clear_slot b s) = free_set b - {s}"
    unfolding clear_slot_def using free_set_clear [OF assms(1) w, of "s mod 64"] by simp
qed (simp add: clear_slot_def)

lemma slot_bit_iff:
  "s < bm_slot_count b \<Longrightarrow> bit (bm_words b ! (s div 64)) (s mod 64) \<longleftrightarrow> s \<in> free_set b"
  by (simp add: free_set_def bm_bit_def)

lemma free_Ret [outcome_simps]:
  "bm_inv b \<Longrightarrow> s < bm_slot_count b \<Longrightarrow> s \<notin> free_set b \<Longrightarrow> free p b s = Ret (set_slot b s)"
  by (simp add: free_def set_slot_def outcome_simps BITS_PER_WORD_def Let_def bit_facts slot_bit_iff)

lemma free_Debug_Panic:
  "bm_inv b \<Longrightarrow> s \<in> free_set b \<Longrightarrow> free Debug b s = Panic ''double free''"
  using free_set_bound [of s b]
  by (simp add: free_def outcome_simps BITS_PER_WORD_def Let_def bit_facts slot_bit_iff)

lemma try_claim_exact_Ret [outcome_simps]:
  "bm_inv b \<Longrightarrow> s < bm_slot_count b \<Longrightarrow> try_claim_exact p b s = Ret (s \<in> free_set b, clear_slot b s)"
  by (simp add: try_claim_exact_def clear_slot_def outcome_simps BITS_PER_WORD_def Let_def
      bit_facts slot_bit_iff)

lemma is_free_Ret [outcome_simps]:
  "bm_inv b \<Longrightarrow> s < bm_slot_count b \<Longrightarrow> is_free p b s = Ret (s \<in> free_set b)"
  by (simp add: is_free_def outcome_simps BITS_PER_WORD_def Let_def bit_facts slot_bit_iff)

subsection \<open>Queries over the whole bitmap\<close>

lemma padding_words_zero:
  assumes "bm_inv b" "div_ceil (bm_slot_count b) 64 \<le> i" "i < bm_scan_words b"
  shows "bm_words b ! i = 0"
proof -
  from assms(2) have "bm_slot_count b \<le> i * 64" using div_ceil_less [of 64 i "bm_slot_count b"] by linarith
  then show ?thesis using bm_inv_validD [OF assms(1,3)] by (fastforce simp: usize_eq_0_iff)
qed

lemma any_free_from_eq:
  "bm_inv b \<Longrightarrow> \<forall>i \<in> set is. i < bm_scan_words b \<Longrightarrow>
     any_free_from b is = Ret (\<exists>i \<in> set is. bm_words b ! i \<noteq> 0)"
  by (induction "is") (auto simp: outcome_simps)

lemma any_free_Ret [outcome_simps]: "bm_inv b \<Longrightarrow> any_free b = Ret (free_set b \<noteq> {})"
proof -
  assume b: "bm_inv b"
  let ?n = "div_ceil (bm_slot_count b) 64"
  have n: "?n \<le> bm_scan_words b" using b actual_words_le_scan by (simp add: bm_inv_def)
  then have "any_free b = Ret (\<exists>i < ?n. bm_words b ! i \<noteq> 0)"
    using b by (auto simp: any_free_def BITS_PER_WORD_def any_free_from_eq)
  moreover have "(\<exists>i < ?n. bm_words b ! i \<noteq> 0) \<longleftrightarrow> free_set b \<noteq> {}"
    using free_set_empty_iff [OF b] padding_words_zero [OF b] n by (metis linorder_not_less order_less_le_trans)
  ultimately show ?thesis by simp
qed

lemma free_count_from_eq:
  "bm_inv b \<Longrightarrow> \<forall>i \<in> set is. i < bm_scan_words b \<Longrightarrow>
     free_count_from b acc is = Ret (acc + sum_list (map (\<lambda>i. count_ones (unat (bm_words b ! i))) is))"
  by (induction "is" arbitrary: acc) (auto simp: outcome_simps)

lemma card_free_set:
  assumes "bm_inv b"
  shows "card (free_set b) = (\<Sum>i < div_ceil (bm_slot_count b) 64. count_ones (unat (bm_words b ! i)))"
proof -
  let ?n = "div_ceil (bm_slot_count b) 64"
  let ?K = "\<lambda>i. {k. k < 64 \<and> bit (bm_words b ! i) k}"
  have n: "?n \<le> bm_scan_words b" using assms actual_words_le_scan by (simp add: bm_inv_def)
  have "free_set b = (\<Union>i < ?n. (\<lambda>k. i * 64 + k) ` ?K i)"
  proof (intro set_eqI iffI)
    fix s assume s: "s \<in> free_set b"
    then have "s div 64 < ?n" using div_ceil_less [of 64 "s div 64" "bm_slot_count b"]
      by (auto simp: free_set_def intro: le_less_trans [OF div_times_less_eq_dividend])
    moreover have "s = s div 64 * 64 + s mod 64" by simp
    ultimately show "s \<in> (\<Union>i < ?n. (\<lambda>k. i * 64 + k) ` ?K i)"
      using s by (fastforce simp: free_set_def bm_bit_def)
  next
    fix s assume "s \<in> (\<Union>i < ?n. (\<lambda>k. i * 64 + k) ` ?K i)"
    then obtain i k where "i < ?n" "k < 64" "bit (bm_words b ! i) k" "s = i * 64 + k" by auto
    then show "s \<in> free_set b"
      using bm_inv_validD [OF assms, of i k] n by (simp add: free_set_def bm_bit_def)
  qed
  then have "card (free_set b) = (\<Sum>i < ?n. card ((\<lambda>k. i * 64 + k) ` ?K i))"
    by (simp only:) (rule card_UN_disjoint, auto)
  also have "\<dots> = (\<Sum>i < ?n. count_ones (unat (bm_words b ! i)))"
    by (rule sum.cong) (auto simp: count_ones_word card_image inj_on_def)
  finally show ?thesis .
qed

lemma free_count_Ret [outcome_simps]: "bm_inv b \<Longrightarrow> free_count b = Ret (card (free_set b))"
proof -
  assume b: "bm_inv b"
  then have "\<forall>i \<in> set [0..<div_ceil (bm_slot_count b) 64]. i < bm_scan_words b"
    using actual_words_le_scan [of "bm_slot_count b"] by (auto simp: bm_inv_def)
  then show ?thesis
    using b by (simp add: free_count_def BITS_PER_WORD_def free_count_from_eq card_free_set
        interv_sum_list_conv_sum_set_nat atLeast0LessThan)
qed


subsection \<open>Ranges of slots\<close>

text \<open>The slots of \<open>{start..<end}\<close> that lie in word \<open>i\<close>, as bits of that word.\<close>

definition in_word_range :: "nat \<Rightarrow> nat \<Rightarrow> nat \<Rightarrow> nat \<Rightarrow> bool" where
  "in_word_range start end i k \<longleftrightarrow> k < 64 \<and> start \<le> i * 64 + k \<and> i * 64 + k < end"

lemma in_word_range_div_mod: "in_word_range start end (s div 64) (s mod 64) \<longleftrightarrow> start \<le> s \<and> s < end"
  by (simp add: in_word_range_def)

lemma range_words:
  "in_word_range start end i k \<Longrightarrow> start div 64 \<le> i \<and> i \<le> (end - 1) div 64"
  unfolding in_word_range_def by (intro conjI; linarith)

lemma range_mask_Ret:
  assumes "start < end" "start div 64 = (end - 1) div 64"
  shows "\<exists>m. range_mask p (start mod 64) (end - start div 64 * 64) = Ret m \<and>
    (\<forall>k. bit m k \<longleftrightarrow> in_word_range start end (start div 64) k)"
proof -
  define i where "i = start div 64"
  define a where "a = start mod 64"
  define e where "e = end - i * 64"
  have st: "start = i * 64 + a" "a < 64" by (simp_all add: i_def a_def)
  have e: "a < e" "e \<le> 64" "end = i * 64 + e" using assms st unfolding e_def i_def by linarith+
  have "bit ((if 64 \<le> e then - 1 else bit_at (e mod 64) - 1) AND NOT (bit_at a - 1)) k \<longleftrightarrow> a \<le> k \<and> k < e" for k
    using e st by (cases "64 \<le> e") (auto simp: bit_simps bit_facts)
  moreover have "in_word_range start end i k \<longleftrightarrow> a \<le> k \<and> k < e" for k
    using e st by (auto simp: in_word_range_def)
  ultimately show ?thesis
    using e st by (auto simp: range_mask_def BITS_PER_WORD_def Let_def simp flip: i_def a_def e_def)
qed

lemma first_mask_bits:
  assumes "start < end" "start div 64 < (end - 1) div 64"
  shows "bit (NOT (bit_at (start mod 64) - 1)) k \<longleftrightarrow> in_word_range start end (start div 64) k"
proof -
  have "start div 64 * 64 + k < end" if "k < 64" using assms that by linarith
  moreover have "start \<le> start div 64 * 64 + k \<longleftrightarrow> start mod 64 \<le> k"
    by (metis add_le_cancel_left div_mult_mod_eq)
  ultimately show ?thesis by (auto simp: in_word_range_def bit_simps bit_facts dest: word64_bit_bound)
qed

lemma last_mask_bits:
  assumes "start < end" "start div 64 < (end - 1) div 64"
  shows "bit (last_range_mask (end - (end - 1) div 64 * 64)) k \<longleftrightarrow> in_word_range start end ((end - 1) div 64) k"
proof -
  define l where "l = (end - 1) div 64"
  define e where "e = end - l * 64"
  have e: "end = l * 64 + e" "e \<le> 64" using assms unfolding e_def l_def by linarith+
  have "start \<le> l * 64 + k" using assms unfolding l_def by linarith
  then have "in_word_range start end l k \<longleftrightarrow> k < e" using e by (auto simp: in_word_range_def)
  moreover have "bit (last_range_mask e) k \<longleftrightarrow> k < e"
    using e by (auto simp: last_range_mask_def BITS_PER_WORD_def bit_facts)
  ultimately show ?thesis by (simp del: One_nat_def flip: e_def l_def)
qed

lemma middle_word_range:
  "start div 64 < i \<Longrightarrow> i < (end - 1) div 64 \<Longrightarrow> in_word_range start end i k \<longleftrightarrow> k < 64"
  unfolding in_word_range_def by auto

lemma all_full_eq:
  "bm_inv b \<Longrightarrow> \<forall>i \<in> set ws. i < bm_scan_words b \<Longrightarrow>
     all_full b ws = Ret (\<forall>i \<in> set ws. bm_words b ! i = - 1)"
  by (induction ws) (auto simp: outcome_simps)

lemma subset_free_set_words:
  assumes "bm_inv b" "end \<le> bm_slot_count b"
  shows "{start..<end} \<subseteq> free_set b \<longleftrightarrow>
    (\<forall>i \<in> {start div 64..(end - 1) div 64}. \<forall>k. in_word_range start end i k \<longrightarrow> bit (bm_words b ! i) k)"
    (is "_ \<longleftrightarrow> ?R")
proof
  assume sub: "{start..<end} \<subseteq> free_set b"
  show ?R
  proof (intro ballI allI impI)
    fix i k assume "in_word_range start end i k"
    then have k: "k < 64" "i * 64 + k \<in> {start..<end}" by (auto simp: in_word_range_def)
    with sub have "bm_bit b (i * 64 + k)" by (auto simp: free_set_def)
    then show "bit (bm_words b ! i) k" using k by (simp add: bm_bit_def)
  qed
next
  assume R: ?R
  show "{start..<end} \<subseteq> free_set b"
  proof
    fix s assume s: "s \<in> {start..<end}"
    then have iw: "in_word_range start end (s div 64) (s mod 64)" by (simp add: in_word_range_div_mod)
    with R range_words [OF iw] have "bit (bm_words b ! (s div 64)) (s mod 64)" by auto
    with s assms(2) show "s \<in> free_set b" by (simp add: free_set_def bm_bit_def)
  qed
qed

lemma word_full_iff: "(w :: usize) = - 1 \<longleftrightarrow> (\<forall>k<64. bit w k)"
  by (auto simp: bit_eq_iff bit_facts)

lemma last_word_less:
  "bm_inv b \<Longrightarrow> start < end \<Longrightarrow> end \<le> bm_slot_count b \<Longrightarrow> (end - 1) div 64 < bm_scan_words b"
  by (rule slot_word_less) auto

lemma all_set_in_range_Ret [outcome_simps]:
  assumes "bm_inv b" "start \<le> end" "end \<le> bm_slot_count b"
  shows "all_set_in_range p b start end = Ret ({start..<end} \<subseteq> free_set b)"
proof (cases "start = end")
  case True
  with assms show ?thesis by (simp add: all_set_in_range_def)
next
  case False
  with assms have lt: "start < end" by simp
  define f l where "f = start div 64" and "l = (end - 1) div 64"
  have l: "l < bm_scan_words b" using last_word_less [OF assms(1) lt assms(3)] by (simp add: l_def)
  have fl: "f \<le> l" using lt unfolding f_def l_def by (intro div_le_mono) linarith
  note sub = subset_free_set_words [OF assms(1,3), of start, folded f_def l_def]
  show ?thesis
  proof (cases "f = l")
    case True
    then obtain m where m: "range_mask p (start mod 64) (end - f * 64) = Ret m"
      "\<And>k. bit m k \<longleftrightarrow> in_word_range start end f k"
      using range_mask_Ret [OF lt] unfolding f_def l_def by blast
    have "(bm_words b ! f AND m = m) \<longleftrightarrow> {start..<end} \<subseteq> free_set b"
      using sub True m(2) by (auto simp: and_eq_right_iff in_word_range_def)
    with m(1) True assms lt l show ?thesis
      by (simp add: all_set_in_range_def BITS_PER_WORD_def Let_def outcome_simps
          del: One_nat_def flip: f_def l_def)
  next
    case ne: False
    with fl have fl: "f < l" by simp
    let ?fm = "NOT (bit_at (start mod 64) - 1)" and ?lm = "last_range_mask (end - l * 64)"
    have fm: "(bm_words b ! f AND ?fm = ?fm) \<longleftrightarrow> (\<forall>k. in_word_range start end f k \<longrightarrow> bit (bm_words b ! f) k)"
      using first_mask_bits [OF lt, of] fl unfolding f_def l_def
      by (auto simp: and_eq_right_iff in_word_range_def)
    have lm: "(bm_words b ! l AND ?lm = ?lm) \<longleftrightarrow> (\<forall>k. in_word_range start end l k \<longrightarrow> bit (bm_words b ! l) k)"
      using last_mask_bits [OF lt, of] fl unfolding f_def l_def
      by (auto simp: and_eq_right_iff in_word_range_def)
    have mid: "all_full b [f + 1..<l] =
      Ret (\<forall>i \<in> {f + 1..<l}. \<forall>k. in_word_range start end i k \<longrightarrow> bit (bm_words b ! i) k)"
      using assms(1) l middle_word_range [of start _ "end"]
      by (subst all_full_eq) (auto simp: f_def l_def word_full_iff in_word_range_def)
    have "{f..l} = insert f (insert l {f + 1..<l})" using fl by auto
    with sub have "{start..<end} \<subseteq> free_set b \<longleftrightarrow>
        (bm_words b ! f AND ?fm = ?fm) \<and> (bm_words b ! l AND ?lm = ?lm) \<and>
        (\<forall>i \<in> {f + 1..<l}. \<forall>k. in_word_range start end i k \<longrightarrow> bit (bm_words b ! i) k)"
      unfolding fm lm by auto
    then show ?thesis
      using mid fl l assms lt
      by (auto simp: all_set_in_range_def BITS_PER_WORD_def Let_def outcome_simps
          simp del: One_nat_def simp flip: f_def l_def)
  qed
qed


lemma fill_words_Ret:
  assumes "bm_inv b" "\<forall>i \<in> set ws. i * 64 + 64 \<le> bm_slot_count b"
  shows "\<exists>b'. fill_words b ws = Ret b' \<and> bm_inv b' \<and> bm_slot_count b' = bm_slot_count b \<and>
    free_set b' = free_set b \<union> {s. s div 64 \<in> set ws}"
  using assms
proof (induction ws arbitrary: b)
  case (Cons i ws)
  let ?b = "store_word b i (bm_words b ! i OR - 1)"
  from Cons.prems have i: "i * 64 + 64 \<le> bm_slot_count b" by simp
  then have "i < bm_scan_words b" using slot_word_less [OF Cons.prems(1), of "i * 64"] by simp
  note step = bm_inv_set [OF Cons.prems(1) this, of "- 1"] free_set_set [OF Cons.prems(1) this, of "- 1"]
  have inv: "bm_inv ?b" using i by (intro step(1)) (auto dest: word64_bit_bound)
  have "{s. s < bm_slot_count b \<and> s div 64 = i \<and> bit (- 1 :: usize) (s mod 64)} = {s. s div 64 = i}"
    using i by (auto simp: bit_facts)
  with step(2) have "free_set ?b = free_set b \<union> {s. s div 64 = i}" by simp
  moreover obtain b' where "fill_words ?b ws = Ret b'" "bm_inv b'" "bm_slot_count b' = bm_slot_count ?b"
    "free_set b' = free_set ?b \<union> {s. s div 64 \<in> set ws}"
    using Cons.IH [OF inv] Cons.prems(2) by auto
  ultimately show ?case
    using Cons.prems(1) \<open>i < bm_scan_words b\<close> by (auto simp: outcome_simps)
qed auto

lemma set_range_Ret:
  assumes "bm_inv b" "start \<le> end" "end \<le> bm_slot_count b"
  shows "\<exists>b'. set_range p b start end = Ret b' \<and> bm_inv b' \<and> bm_slot_count b' = bm_slot_count b \<and>
    free_set b' = free_set b \<union> {start..<end}"
proof (cases "start = end")
  case True
  with assms show ?thesis by (auto simp: set_range_def)
next
  case False
  with assms have lt: "start < end" by simp
  define f l where "f = start div 64" and "l = (end - 1) div 64"
  have l: "l < bm_scan_words b" using last_word_less [OF assms(1) lt assms(3)] by (simp add: l_def)
  have fl: "f \<le> l" using lt unfolding f_def l_def by (intro div_le_mono) linarith
  have in_range: "i * 64 + k < bm_slot_count b" if "in_word_range start end i k" for i k
    using that assms(3) by (simp add: in_word_range_def)
  have word_part: "{s. s < bm_slot_count b \<and> s div 64 = i \<and> in_word_range start end i (s mod 64)} =
      {s \<in> {start..<end}. s div 64 = i}" for i
    using assms(3) by (auto simp: in_word_range_div_mod)
  show ?thesis
  proof (cases "f = l")
    case True
    then obtain m where m: "range_mask p (start mod 64) (end - f * 64) = Ret m"
      "\<And>k. bit m k \<longleftrightarrow> in_word_range start end f k"
      using range_mask_Ret [OF lt] unfolding f_def l_def by blast
    let ?b = "store_word b l (bm_words b ! l OR m)"
    have "bm_inv ?b" using m(2) True in_range by (intro bm_inv_set assms(1) l) auto
    moreover have "\<forall>s \<in> {start..<end}. s div 64 = l"
    proof
      fix s assume "s \<in> {start..<end}"
      then have "f \<le> s div 64 \<and> s div 64 \<le> l" unfolding f_def l_def by (auto intro!: div_le_mono)
      with True show "s div 64 = l" by simp
    qed
    then have "{s \<in> {start..<end}. s div 64 = l} = {start..<end}" by blast
    then have "free_set ?b = free_set b \<union> {start..<end}"
      using free_set_set [OF assms(1) l, of m] m(2) True word_part [of l] by simp
    ultimately show ?thesis using m(1) True assms lt l
      by (simp add: set_range_def BITS_PER_WORD_def Let_def outcome_simps del: One_nat_def flip: f_def l_def)
  next
    case ne: False
    with fl have fl: "f < l" by simp
    let ?fm = "NOT (bit_at (start mod 64) - 1)" and ?lm = "last_range_mask (end - l * 64)"
    let ?b1 = "store_word b f (bm_words b ! f OR ?fm)"
    have fm: "bit ?fm k \<longleftrightarrow> in_word_range start end f k" for k
      using first_mask_bits [OF lt] fl unfolding f_def l_def by blast
    have lm: "bit ?lm k \<longleftrightarrow> in_word_range start end l k" for k
      using last_mask_bits [OF lt] fl unfolding f_def l_def by blast
    have f: "f < bm_scan_words b" using fl l by simp
    have b1: "bm_inv ?b1" using fm in_range by (intro bm_inv_set assms(1) f) auto
    have fs1: "free_set ?b1 = free_set b \<union> {s \<in> {start..<end}. s div 64 = f}"
      using free_set_set [OF assms(1) f, of ?fm] word_part [of f] by (simp only: fm)
    have "l * 64 < end" unfolding l_def using lt by linarith
    then have "\<forall>i \<in> set [f + 1..<l]. i * 64 + 64 \<le> bm_slot_count ?b1" using assms(3) by auto
    from fill_words_Ret [OF b1 this] obtain b2 where b2: "fill_words ?b1 [f + 1..<l] = Ret b2" "bm_inv b2"
      "bm_slot_count b2 = bm_slot_count b" "free_set b2 = free_set ?b1 \<union> {s. s div 64 \<in> {f + 1..<l}}"
      by auto
    have l2: "l < bm_scan_words b2" using l b2(2,3) assms(1) by (simp add: bm_inv_def)
    let ?b3 = "store_word b2 l (bm_words b2 ! l OR ?lm)"
    have b3: "bm_inv ?b3" using lm in_range b2(3) by (intro bm_inv_set b2(2) l2) auto
    have "free_set ?b3 = free_set b2 \<union> {s \<in> {start..<end}. s div 64 = l}"
      using free_set_set [OF b2(2) l2, of ?lm] word_part [of l] b2(3) by (simp only: lm)
    moreover have "{s. s div 64 \<in> {f + 1..<l}} \<subseteq> {start..<end}"
      unfolding f_def l_def by auto
    moreover have "s div 64 \<in> insert f (insert l {f + 1..<l})" if "s \<in> {start..<end}" for s
    proof -
      have "f \<le> s div 64 \<and> s div 64 \<le> l" unfolding f_def l_def using that by (auto intro!: div_le_mono)
      then show ?thesis by auto
    qed
    ultimately have "free_set ?b3 = free_set b \<union> {start..<end}"
      unfolding b2(4) fs1 by blast
    then show ?thesis using b2 b3 l2 f fl assms lt
      by (simp add: set_range_def BITS_PER_WORD_def Let_def outcome_simps del: One_nat_def flip: f_def l_def)
  qed
qed


subsection \<open>The contract of a slot pool\<close>

text \<open>
  What the arenas rely on: allocation hands out some available slot and only fails when
  there is none, a slot that is not available can be released, and a given slot can be
  claimed exactly when it is available. Nothing else changes, and none of the calls panics.
\<close>

locale slot_pool =
  fixes alloc :: "'b \<Rightarrow> (nat option \<times> 'b) outcome"
    and release :: "profile \<Rightarrow> 'b \<Rightarrow> nat \<Rightarrow> 'b outcome"
    and claim :: "profile \<Rightarrow> 'b \<Rightarrow> nat \<Rightarrow> (bool \<times> 'b) outcome"
    and inv :: "'b \<Rightarrow> bool"
    and avail :: "'b \<Rightarrow> nat set"
    and cap :: "'b \<Rightarrow> nat"
  assumes avail_bound: "inv b \<Longrightarrow> avail b \<subseteq> {..<cap b}"
    and alloc_none: "inv b \<Longrightarrow> avail b = {} \<Longrightarrow>
      \<exists>b'. alloc b = Ret (None, b') \<and> inv b' \<and> avail b' = {} \<and> cap b' = cap b"
    and alloc_some: "inv b \<Longrightarrow> avail b \<noteq> {} \<Longrightarrow>
      \<exists>s b'. alloc b = Ret (Some s, b') \<and> s \<in> avail b \<and> inv b' \<and> avail b' = avail b - {s} \<and> cap b' = cap b"
    and release_ok: "inv b \<Longrightarrow> s < cap b \<Longrightarrow> s \<notin> avail b \<Longrightarrow>
      \<exists>b'. release p b s = Ret b' \<and> inv b' \<and> avail b' = insert s (avail b) \<and> cap b' = cap b"
    and claim_ok: "inv b \<Longrightarrow> s < cap b \<Longrightarrow>
      \<exists>b'. claim p b s = Ret (s \<in> avail b, b') \<and> inv b' \<and> avail b' = avail b - {s} \<and> cap b' = cap b"

text \<open>Allocating \<open>n\<close> times, and releasing a list of slots.\<close>

fun drain :: "('b \<Rightarrow> (nat option \<times> 'b) outcome) \<Rightarrow> nat \<Rightarrow> 'b \<Rightarrow> (nat list \<times> 'b) outcome" where
  "drain alloc 0 b = Ret ([], b)"
| "drain alloc (Suc n) b =
     obind (alloc b) (\<lambda>(r, b').
       case r of
         None \<Rightarrow> Ret ([], b')
       | Some s \<Rightarrow> obind (drain alloc n b') (\<lambda>(ss, b''). Ret (s # ss, b'')))"

fun release_all :: "('b \<Rightarrow> nat \<Rightarrow> 'b outcome) \<Rightarrow> nat list \<Rightarrow> 'b \<Rightarrow> 'b outcome" where
  "release_all rel [] b = Ret b"
| "release_all rel (s # ss) b = obind (rel b s) (\<lambda>b'. release_all rel ss b')"

context slot_pool
begin

lemma finite_avail: "inv b \<Longrightarrow> finite (avail b)"
  using avail_bound finite_subset by blast

lemma alloc_cases:
  assumes "inv b"
  obtains (full) b' where "avail b = {}" "alloc b = Ret (None, b')" "inv b'" "avail b' = {}" "cap b' = cap b"
  | (claimed) s b' where "s \<in> avail b" "s < cap b" "alloc b = Ret (Some s, b')" "inv b'"
      "avail b' = avail b - {s}" "cap b' = cap b"
  using alloc_none [OF assms] alloc_some [OF assms] avail_bound [OF assms] by (cases "avail b = {}") blast+

lemma drain_exact:
  assumes "inv b" "n = card (avail b)"
  shows "\<exists>ss b'. drain alloc n b = Ret (ss, b') \<and> distinct ss \<and> set ss = avail b \<and>
    inv b' \<and> avail b' = {} \<and> cap b' = cap b"
  using assms
proof (induction n arbitrary: b)
  case 0
  then show ?case using finite_avail by auto
next
  case (Suc n)
  then have "avail b \<noteq> {}" by auto
  with alloc_some [OF Suc.prems(1)] obtain s b1 where b1: "alloc b = Ret (Some s, b1)" "s \<in> avail b"
    "inv b1" "avail b1 = avail b - {s}" "cap b1 = cap b" by blast
  then have "n = card (avail b1)" using Suc.prems finite_avail by simp
  with Suc.IH [OF b1(3)] obtain ss b' where "drain alloc n b1 = Ret (ss, b')" "distinct ss"
    "set ss = avail b1" "inv b'" "avail b' = {}" "cap b' = cap b1" by blast
  with b1 show ?case by auto
qed

lemma release_all_avail:
  assumes "inv b" "distinct ss" "set ss \<inter> avail b = {}" "set ss \<subseteq> {..<cap b}"
  shows "\<exists>b'. release_all (release p) ss b = Ret b' \<and> inv b' \<and> avail b' = avail b \<union> set ss \<and> cap b' = cap b"
  using assms
proof (induction ss arbitrary: b)
  case (Cons s ss)
  then obtain b1 where b1: "release p b s = Ret b1" "inv b1" "avail b1 = insert s (avail b)" "cap b1 = cap b"
    using release_ok [of b s p] by auto
  with Cons.prems have "distinct ss" "set ss \<inter> avail b1 = {}" "set ss \<subseteq> {..<cap b1}" by auto
  with Cons.IH [OF b1(2)] b1 show ?case by auto
qed auto

lemma drain_release_drain:
  assumes "inv b"
  shows "\<exists>ss b1 b2. drain alloc (card (avail b)) b = Ret (ss, b1) \<and> avail b1 = {} \<and>
    release_all (release p) ss b1 = Ret b2 \<and> inv b2 \<and> avail b2 = avail b \<and> cap b2 = cap b"
proof -
  from drain_exact [OF assms refl] obtain ss b1 where d: "drain alloc (card (avail b)) b = Ret (ss, b1)"
    "distinct ss" "set ss = avail b" "inv b1" "avail b1 = {}" "cap b1 = cap b" by blast
  with avail_bound [OF assms] have "set ss \<subseteq> {..<cap b1}" by simp
  with release_all_avail [OF d(4,2), of p] d show ?thesis by auto
qed

end

interpretation bm: slot_pool try_alloc free try_claim_exact bm_inv free_set bm_slot_count
proof unfold_locales
  fix b assume b: "bm_inv b"
  show "free_set b \<subseteq> {..<bm_slot_count b}" by (auto simp: free_set_def)
  show "\<exists>b'. try_alloc b = Ret (None, b') \<and> bm_inv b' \<and> free_set b' = {} \<and> bm_slot_count b' = bm_slot_count b"
    if "free_set b = {}" using b by (rule try_alloc_cases) (use that in auto)
  show "\<exists>s b'. try_alloc b = Ret (Some s, b') \<and> s \<in> free_set b \<and> bm_inv b' \<and>
      free_set b' = free_set b - {s} \<and> bm_slot_count b' = bm_slot_count b"
    if "free_set b \<noteq> {}" using b by (rule try_alloc_cases) (use that in auto)
qed (auto simp: outcome_simps)

subsection \<open>Properties\<close>

text \<open>
  C33. Allocation from a well-formed bitmap never panics. It returns \<open>None\<close> exactly when no
  slot is free; otherwise it returns a slot that was free, clears that slot and leaves
  every other slot as it was.
\<close>

theorem try_alloc_correct:
  assumes "bm_inv b"
  shows "\<exists>r b'. try_alloc b = Ret (r, b') \<and> bm_inv b' \<and> bm_slot_count b' = bm_slot_count b \<and>
    (case r of None \<Rightarrow> free_set b = {} \<and> free_set b' = {}
     | Some s \<Rightarrow> s \<in> free_set b \<and> free_set b' = free_set b - {s})"
  using assms by (rule try_alloc_cases) auto

theorem try_alloc_correct_witness:
  "\<exists>r b'. try_alloc (new_bitmap 65) = Ret (r, b') \<and> bm_inv b' \<and>
     bm_slot_count b' = bm_slot_count (new_bitmap 65) \<and>
     (case r of None \<Rightarrow> free_set (new_bitmap 65) = {} \<and> free_set b' = {}
      | Some s \<Rightarrow> s \<in> free_set (new_bitmap 65) \<and> free_set b' = free_set (new_bitmap 65) - {s})"
  by (rule try_alloc_correct) simp

text \<open>
  C34. A fresh bitmap with \<open>n\<close> slots hands out every slot exactly once in \<open>n\<close> allocations,
  the next allocation fails, and releasing all slots makes every slot available again, in
  the debug profile too, whose assertions therefore hold.
\<close>

theorem alloc_all_slots_once:
  "\<exists>ss b1 b2 b3. drain try_alloc n (new_bitmap n) = Ret (ss, b1) \<and> distinct ss \<and> set ss = {..<n} \<and>
     try_alloc b1 = Ret (None, b2) \<and>
     release_all (free p) ss b2 = Ret b3 \<and> free_set b3 = {..<n} \<and> free_count b3 = Ret n"
proof -
  obtain ss b1 where d: "drain try_alloc n (new_bitmap n) = Ret (ss, b1)" "distinct ss" "set ss = {..<n}"
    "bm_inv b1" "free_set b1 = {}" "bm_slot_count b1 = n"
    using bm.drain_exact [of "new_bitmap n" n] by auto
  obtain b2 where b2: "try_alloc b1 = Ret (None, b2)" "bm_inv b2" "free_set b2 = {}" "bm_slot_count b2 = n"
    using bm.alloc_none [OF d(4,5)] d(6) by auto
  obtain b3 where "release_all (free p) ss b2 = Ret b3" "bm_inv b3" "free_set b3 = {..<n}"
    using bm.release_all_avail [OF b2(2) d(2), of p] b2 d(3) by auto
  with d b2 show ?thesis by (auto simp: outcome_simps)
qed

text \<open>
  C36. Setting a range of slots adds exactly the slots of the range, whatever the words it
  spans, and the range test afterwards answers for any other range as set inclusion does.
\<close>

theorem set_range_then_all_set:
  assumes "bm_inv b" "s \<le> e" "e \<le> bm_slot_count b"
  shows "\<exists>b'. set_range p b s e = Ret b' \<and> bm_inv b' \<and> free_set b' = free_set b \<union> {s..<e} \<and>
    (\<forall>x y. x \<le> y \<and> y \<le> bm_slot_count b \<longrightarrow>
       all_set_in_range p b' x y = Ret ({x..<y} \<subseteq> free_set b \<union> {s..<e}))"
proof -
  from set_range_Ret [OF assms] obtain b' where "set_range p b s e = Ret b'" "bm_inv b'"
    "bm_slot_count b' = bm_slot_count b" "free_set b' = free_set b \<union> {s..<e}" by blast
  then show ?thesis by (auto simp: outcome_simps)
qed

theorem set_range_then_all_set_witness:
  "\<exists>b'. set_range Debug (new_empty 128) 60 68 = Ret b' \<and> bm_inv b' \<and>
     free_set b' = free_set (new_empty 128) \<union> {60..<68} \<and>
     (\<forall>x y. x \<le> y \<and> y \<le> bm_slot_count (new_empty 128) \<longrightarrow>
        all_set_in_range Debug b' x y = Ret ({x..<y} \<subseteq> free_set (new_empty 128) \<union> {60..<68}))"
  by (rule set_range_then_all_set) simp_all

text \<open>
  Releasing a slot that is already free is caught in the debug profile, and an index
  past the last slot as well; a slot in use is released without a panic and becomes free.
\<close>

theorem free_detects_misuse:
  assumes "bm_inv b"
  shows "(\<not> s < bm_slot_count b \<longrightarrow> free Debug b s = Panic ''slot index out of bounds'') \<and>
    (s \<in> free_set b \<longrightarrow> free Debug b s = Panic ''double free'') \<and>
    (s < bm_slot_count b \<and> s \<notin> free_set b \<longrightarrow>
       (\<exists>b'. free p b s = Ret b' \<and> bm_inv b' \<and> free_set b' = insert s (free_set b)))"
  using assms free_Debug_Panic [OF assms] by (auto simp: outcome_simps) (simp add: free_def)

theorem free_detects_misuse_witness:
  "free Debug (new_bitmap 4) 4 = Panic ''slot index out of bounds'' \<and>
   free Debug (new_bitmap 4) 3 = Panic ''double free'' \<and>
   (\<exists>b'. free Debug (new_empty 4) 3 = Ret b' \<and> free_set b' = {3})"
  using free_detects_misuse [of "new_bitmap 4" 4] free_detects_misuse [of "new_bitmap 4" 3]
    free_detects_misuse [of "new_empty 4" 3 Debug] by auto

end
