(* ===== verification/Bitmap_Concurrent.thy ===== *)
theory Bitmap_Concurrent
  imports Bitmap
begin

text \<open>
  The bitmap of \<^verbatim>\<open>src/src/bitmap.rs\<close> under interleaving: any number of threads run \<^verbatim>\<open>try_alloc\<close>, one atomic access
  at a time, between exact claims and releases, which are one access each. The scanning load is relaxed, so it may
  return any value; when it is required to return the current word the relation is called fresh.
\<close>

subsection \<open>Threads in \<open>try_alloc\<close>\<close>

text \<open>Before the cursor is advanced, before the load of word \<open>i\<close> of the scan, before the \<^verbatim>\<open>fetch_and\<close> that is to clear the
  bit found in it, and after the return.\<close>

datatype claimer = Enter | Scan nat nat | Claim nat nat nat | Returned "nat option"

text \<open>One access, where \<open>bits\<close> is what the load returns.\<close>

fun claim_step :: "usize \<Rightarrow> claimer \<Rightarrow> AtomicBitmap \<Rightarrow> (claimer \<times> AtomicBitmap) outcome" where
  "claim_step bits Enter b =
     Ret (if bm_slot_count b = 0 then (Returned None, b)
          else (Scan (unat (bm_cursor b) AND bm_word_mask b) 0, b\<lparr>bm_cursor := bm_cursor b + 1\<rparr>))"
| "claim_step bits (Scan start i) b =
     (if i < bm_scan_words b then
        let word_idx = (start + i) AND bm_word_mask b
        in obind (word_at b word_idx) (\<lambda>_.
             Ret (if bits = 0 then Scan start (i + 1) else Claim start i (trailing_zeros (unat bits)), b))
      else Ret (Returned None, b))"
| "claim_step bits (Claim start i bit_idx) b =
     (let word_idx = (start + i) AND bm_word_mask b;
          base = word_idx * BITS_PER_WORD;
          m = bit_at bit_idx
      in obind (word_at b word_idx) (\<lambda>prev.
           Ret (if prev AND m \<noteq> 0 then Returned (Some (base + bit_idx)) else Scan start i,
                store_word b word_idx (prev AND NOT m))))"
| "claim_step bits (Returned r) b = Ret (Returned r, b)"

fun returned :: "claimer \<Rightarrow> bool" where
  "returned (Returned r) = True" | "returned _ = False"

text \<open>The load returns the word that is there.\<close>

fun current :: "usize \<Rightarrow> claimer \<Rightarrow> AtomicBitmap \<Rightarrow> bool" where
  "current bits (Scan start i) b \<longleftrightarrow> bits = bm_words b ! ((start + i) AND bm_word_mask b)"
| "current bits _ b \<longleftrightarrow> True"

datatype pool_event = Took nat | Gave nat | Entered nat | Missed nat | Other

fun claim_event :: "nat \<Rightarrow> claimer \<Rightarrow> claimer \<Rightarrow> pool_event" where
  "claim_event t _ (Returned (Some s)) = Took s"
| "claim_event t (Claim _ _ _) (Scan _ _) = Missed t"
| "claim_event t Enter _ = Entered t"
| "claim_event t _ _ = Other"

record pool =
  po_bitmap :: AtomicBitmap
  po_threads :: "claimer list"
  po_held :: "nat set"

definition start_pool :: "nat \<Rightarrow> pool" where
  "start_pool n = \<lparr>po_bitmap = new_bitmap n, po_threads = [], po_held = {}\<rparr>"

fun held_after :: "pool_event \<Rightarrow> nat set \<Rightarrow> nat set" where
  "held_after (Took s) H = insert s H" | "held_after (Gave s) H = H - {s}" | "held_after _ H = H"

inductive pool_step :: "bool \<Rightarrow> profile \<Rightarrow> pool \<Rightarrow> pool_event \<Rightarrow> pool \<Rightarrow> bool" for fresh p where
  advance: "t < length ts \<Longrightarrow> \<not> returned (ts ! t) \<Longrightarrow> fresh \<longrightarrow> current bits (ts ! t) b \<Longrightarrow>
    claim_step bits (ts ! t) b = Ret (c, b') \<Longrightarrow> e = claim_event t (ts ! t) c \<Longrightarrow>
    pool_step fresh p \<lparr>po_bitmap = b, po_threads = ts, po_held = H\<rparr> e
      \<lparr>po_bitmap = b', po_threads = ts[t := c], po_held = held_after e H\<rparr>"
| again: "t < length ts \<Longrightarrow> returned (ts ! t) \<Longrightarrow>
    pool_step fresh p \<lparr>po_bitmap = b, po_threads = ts, po_held = H\<rparr> Other
      \<lparr>po_bitmap = b, po_threads = ts[t := Enter], po_held = H\<rparr>"
| spawn: "pool_step fresh p \<lparr>po_bitmap = b, po_threads = ts, po_held = H\<rparr> Other
      \<lparr>po_bitmap = b, po_threads = ts @ [Enter], po_held = H\<rparr>"
| exact: "s < bm_slot_count b \<Longrightarrow> try_claim_exact p b s = Ret (ok, b') \<Longrightarrow> e = (if ok then Took s else Other) \<Longrightarrow>
    pool_step fresh p \<lparr>po_bitmap = b, po_threads = ts, po_held = H\<rparr> e
      \<lparr>po_bitmap = b', po_threads = ts, po_held = held_after e H\<rparr>"
| give: "s \<in> H \<Longrightarrow> free p b s = Ret b' \<Longrightarrow>
    pool_step fresh p \<lparr>po_bitmap = b, po_threads = ts, po_held = H\<rparr> (Gave s)
      \<lparr>po_bitmap = b', po_threads = ts, po_held = H - {s}\<rparr>"

inductive pool_run :: "bool \<Rightarrow> profile \<Rightarrow> pool \<Rightarrow> pool_event list \<Rightarrow> pool \<Rightarrow> bool" for fresh p where
  none: "pool_run fresh p s [] s"
| next_step: "pool_run fresh p s es s' \<Longrightarrow> pool_step fresh p s' e s'' \<Longrightarrow> pool_run fresh p s (es @ [e]) s''"

text \<open>The specification: a slot is taken from the free ones and given back when it is not free.\<close>

fun pool_spec :: "nat set \<Rightarrow> pool_event \<Rightarrow> nat set option" where
  "pool_spec F (Took s) = (if s \<in> F then Some (F - {s}) else None)"
| "pool_spec F (Gave s) = (if s \<in> F then None else Some (insert s F))"
| "pool_spec F _ = Some F"

fun pool_history :: "nat set \<Rightarrow> pool_event list \<Rightarrow> nat set option" where
  "pool_history F [] = Some F"
| "pool_history F (e # es) = Option.bind (pool_spec F e) (\<lambda>F'. pool_history F' es)"

lemma pool_history_snoc: "pool_history F (es @ [e]) = Option.bind (pool_history F es) (\<lambda>F'. pool_spec F' e)"
proof (induction es arbitrary: F)
  case Nil
  then show ?case by (cases "pool_spec F e") simp_all
next
  case (Cons a es)
  then show ?case by (cases "pool_spec F a") simp_all
qed

subsection \<open>Correctness under interleaving\<close>

fun claimer_ok :: "claimer \<Rightarrow> bool" where
  "claimer_ok (Claim start i bit_idx) \<longleftrightarrow> bit_idx < 64" | "claimer_ok _ \<longleftrightarrow> True"

definition pool_ok :: "nat \<Rightarrow> pool \<Rightarrow> bool" where
  "pool_ok n s \<longleftrightarrow> bm_inv (po_bitmap s) \<and> bm_slot_count (po_bitmap s) = n \<and> po_held s \<subseteq> {..<n} \<and>
     free_set (po_bitmap s) = {..<n} - po_held s \<and> (\<forall>c \<in> set (po_threads s). claimer_ok c)"

lemma claim_step_cases:
  assumes b: "bm_inv b" and c: "claimer_ok c" "\<not> returned c"
  obtains (quiet) c' b' where "claim_step bits c b = Ret (c', b')" "claimer_ok c'" "bm_inv b'"
      "bm_slot_count b' = bm_slot_count b" "free_set b' = free_set b" "\<forall>s. claim_event t c c' \<noteq> Took s \<and> claim_event t c c' \<noteq> Gave s"
  | (taken) s b' where "claim_step bits c b = Ret (Returned (Some s), b')" "bm_inv b'"
      "bm_slot_count b' = bm_slot_count b" "s \<in> free_set b" "free_set b' = free_set b - {s}"
proof (cases c)
  case Enter
  show ?thesis
  proof (cases "bm_slot_count b = 0")
    case True
    then show ?thesis using Enter b by (intro quiet [of "Returned None" b]) simp_all
  next
    case False
    then show ?thesis using Enter b
      by (intro quiet [of "Scan (unat (bm_cursor b) AND bm_word_mask b) 0" "b\<lparr>bm_cursor := bm_cursor b + 1\<rparr>"]) simp_all
  qed
next
  case (Scan start i)
  have tz: "trailing_zeros (unat bits) < 64" if "bits \<noteq> 0"
    using trailing_zeros_word [OF that] word64_bit_bound by blast
  show ?thesis
  proof (cases "i < bm_scan_words b")
    case True
    then show ?thesis using Scan tz
      by (intro quiet [of "if bits = 0 then Scan start (i + 1) else Claim start i (trailing_zeros (unat bits))" b])
        (auto simp: outcome_simps b word_idx_less Let_def)
  next
    case False
    then show ?thesis using Scan by (intro quiet [of "Returned None" b]) (auto simp: b)
  qed
next
  case (Claim start i k)
  let ?j = "(start + i) AND bm_word_mask b"
  let ?b = "store_word b ?j (bm_words b ! ?j AND NOT (bit_at k))"
  have j: "?j < bm_scan_words b" by (rule word_idx_less [OF b])
  have k: "k < 64" using c Claim by simp
  have inv: "bm_inv ?b" by (rule bm_inv_clear [OF b j])
  have fs: "free_set ?b = free_set b - {?j * 64 + k}" by (rule free_set_clear [OF b j k])
  have st: "claim_step bits c b =
      Ret (if bit (bm_words b ! ?j) k then Returned (Some (?j * 64 + k)) else Scan start i, ?b)"
    using k by (simp add: Claim outcome_simps b j Let_def BITS_PER_WORD_def and_mask_eq_0)
  have free_iff: "?j * 64 + k \<in> free_set b \<longleftrightarrow> bit (bm_words b ! ?j) k"
    using bm_inv_validD [OF b j] k by (auto simp: free_set_def bm_bit_def)
  show ?thesis
  proof (cases "bit (bm_words b ! ?j) k")
    case True
    then show ?thesis using st inv fs free_iff by (intro taken [of "?j * 64 + k" ?b]) simp_all
  next
    case False
    then show ?thesis using st inv fs free_iff Claim by (intro quiet [of "Scan start i" ?b]) auto
  qed
next
  case (Returned r)
  then show ?thesis using c by simp
qed

lemma pool_okD:
  assumes "pool_ok n \<lparr>po_bitmap = b, po_threads = ts, po_held = H\<rparr>"
  shows "bm_inv b" "bm_slot_count b = n" "H \<subseteq> {..<n}" "free_set b = {..<n} - H" "\<And>c. c \<in> set ts \<Longrightarrow> claimer_ok c"
  using assms by (simp_all add: pool_ok_def)

lemma pool_okI:
  assumes "bm_inv b" "bm_slot_count b = n" "H \<subseteq> {..<n}" "free_set b = {..<n} - H" "\<And>c. c \<in> set ts \<Longrightarrow> claimer_ok c"
  shows "pool_ok n \<lparr>po_bitmap = b, po_threads = ts, po_held = H\<rparr>"
  using assms by (simp add: pool_ok_def)

lemma claimers_ok_update:
  assumes "pool_ok n \<lparr>po_bitmap = b, po_threads = ts, po_held = H\<rparr>" "claimer_ok c'" "c \<in> set (ts[t := c'])"
  shows "claimer_ok c"
  using set_update_subset_insert [of ts t c'] pool_okD(5) [OF assms(1)] assms(2,3) by blast

text \<open>The same for each event: the effect on the free slots, and on the slots held.\<close>

lemma take_ok:
  assumes ok: "pool_ok n \<lparr>po_bitmap = b, po_threads = ts, po_held = H\<rparr>"
    and b': "bm_inv b'" "bm_slot_count b' = bm_slot_count b" "s \<in> free_set b" "free_set b' = free_set b - {s}"
    and ts': "\<And>c. c \<in> set ts' \<Longrightarrow> claimer_ok c"
  shows "pool_ok n \<lparr>po_bitmap = b', po_threads = ts', po_held = held_after (Took s) H\<rparr> \<and>
    pool_spec (free_set b) (Took s) = Some (free_set b')"
proof -
  note D = pool_okD [OF ok]
  have "insert s H \<subseteq> {..<n}" "free_set b' = {..<n} - insert s H" using D(3,4) b'(3,4) by auto
  then show ?thesis using pool_okI [of b' n "insert s H" ts'] b' D(2) ts' by simp
qed

lemma keep_ok:
  assumes ok: "pool_ok n \<lparr>po_bitmap = b, po_threads = ts, po_held = H\<rparr>"
    and b': "bm_inv b'" "bm_slot_count b' = bm_slot_count b" "free_set b' = free_set b"
    and e: "\<And>s. e \<noteq> Took s \<and> e \<noteq> Gave s"
    and ts': "\<And>c. c \<in> set ts' \<Longrightarrow> claimer_ok c"
  shows "pool_ok n \<lparr>po_bitmap = b', po_threads = ts', po_held = held_after e H\<rparr> \<and> pool_spec (free_set b) e = Some (free_set b')"
proof -
  note D = pool_okD [OF ok]
  have "held_after e H = H" "pool_spec (free_set b) e = Some (free_set b)" using e by (cases e; simp)+
  then show ?thesis using pool_okI [of b' n H ts'] b' D(2,3,4) ts' by simp
qed

lemma give_ok:
  assumes ok: "pool_ok n \<lparr>po_bitmap = b, po_threads = ts, po_held = H\<rparr>" and s: "s \<in> H"
  shows "free p b s = Ret (set_slot b s)"
    "pool_ok n \<lparr>po_bitmap = set_slot b s, po_threads = ts, po_held = H - {s}\<rparr> \<and>
     pool_spec (free_set b) (Gave s) = Some (free_set (set_slot b s))"
proof -
  note D = pool_okD [OF ok]
  have x: "s < bm_slot_count b" "s \<notin> free_set b" using D(2,3,4) s by auto
  show "free p b s = Ret (set_slot b s)" using free_Ret [OF D(1) x] .
  have "H - {s} \<subseteq> {..<n}" "insert s (free_set b) = {..<n} - (H - {s})" using D(2,3,4) x by auto
  then show "pool_ok n \<lparr>po_bitmap = set_slot b s, po_threads = ts, po_held = H - {s}\<rparr> \<and>
     pool_spec (free_set b) (Gave s) = Some (free_set (set_slot b s))"
    using pool_okI [of "set_slot b s" n "H - {s}" ts] set_slot_facts [OF D(1) x(1)] D(2,5) x by simp
qed

lemma advance_ok:
  assumes ok: "pool_ok n \<lparr>po_bitmap = b, po_threads = ts, po_held = H\<rparr>" and t: "t < length ts" "\<not> returned (ts ! t)"
    and c: "claim_step bits (ts ! t) b = Ret (c, b')"
  shows "pool_ok n \<lparr>po_bitmap = b', po_threads = ts[t := c], po_held = held_after (claim_event t (ts ! t) c) H\<rparr> \<and>
    pool_spec (free_set b) (claim_event t (ts ! t) c) = Some (free_set b')"
proof -
  note D = pool_okD [OF ok]
  have "claimer_ok (ts ! t)" using D(5) t(1) by simp
  from D(1) this t(2) show ?thesis
  proof (cases rule: claim_step_cases [of b "ts ! t" bits t])
    case (quiet c' b'')
    then have "c' = c" "b'' = b'" using c by simp_all
    then show ?thesis using quiet keep_ok [OF ok, of b' "claim_event t (ts ! t) c" "ts[t := c]"] claimers_ok_update [OF ok, of c] by simp
  next
    case (taken s b'')
    then have "c = Returned (Some s)" "b'' = b'" using c by simp_all
    then show ?thesis using taken take_ok [OF ok, of b' s "ts[t := c]"] claimers_ok_update [OF ok, of c] by simp
  qed
qed

lemma pool_step_ok:
  assumes "pool_step fresh p s e s'" "pool_ok n s"
  shows "pool_ok n s' \<and> pool_spec (free_set (po_bitmap s)) e = Some (free_set (po_bitmap s'))"
  using assms
proof (cases rule: pool_step.cases)
  case (advance t ts bits b c b' H)
  then show ?thesis using advance_ok [of n b ts H t bits c b'] assms(2) by simp
next
  case (again t ts b H)
  have ok: "pool_ok n \<lparr>po_bitmap = b, po_threads = ts, po_held = H\<rparr>" using assms(2) again by simp
  show ?thesis using keep_ok [OF ok pool_okD(1) [OF ok], of Other "ts[t := Enter]"] claimers_ok_update [OF ok, of Enter] again by simp
next
  case (spawn b ts H)
  have ok: "pool_ok n \<lparr>po_bitmap = b, po_threads = ts, po_held = H\<rparr>" using assms(2) spawn by simp
  show ?thesis using keep_ok [OF ok pool_okD(1) [OF ok], of Other "ts @ [Enter]"] pool_okD(5) [OF ok] spawn by fastforce
next
  case (exact x b ok b' ts H)
  have P: "pool_ok n \<lparr>po_bitmap = b, po_threads = ts, po_held = H\<rparr>" using assms(2) exact by simp
  note D = pool_okD [OF P]
  have "ok = (x \<in> free_set b)" and b': "b' = clear_slot b x" using exact D(1) by (simp_all add: outcome_simps)
  then show ?thesis
    using take_ok [OF P, of b' x ts] keep_ok [OF P, of b' Other ts] clear_slot_facts [OF D(1) exact(3)] D(5) exact(1,2,5)
    by (cases ok) auto
next
  case (give x H b b' ts)
  then show ?thesis using give_ok [of n b ts H x] assms(2) by simp
qed

lemma pool_run_ok:
  assumes "pool_run fresh p (start_pool n) es s"
  shows "pool_ok n s \<and> pool_history {..<n} es = Some (free_set (po_bitmap s))"
proof -
  have "pool_ok n s \<and> pool_history {..<n} es = Some (free_set (po_bitmap s))" if "pool_run fresh p s0 es s" "s0 = start_pool n" for s0
    using that
  proof (induction rule: pool_run.induct)
    case (none s)
    then show ?case by (simp add: start_pool_def pool_ok_def)
  next
    case (next_step s es s' e s'')
    then show ?case using pool_step_ok [OF next_step.hyps(2)] by (auto simp: pool_history_snoc)
  qed
  then show ?thesis using assms by blast
qed

lemma no_panic:
  assumes "pool_ok n \<lparr>po_bitmap = b, po_threads = ts, po_held = H\<rparr>" "t < length ts"
  shows "\<exists>r. claim_step bits (ts ! t) b = Ret r"
proof (cases "returned (ts ! t)")
  case True
  then show ?thesis by (cases "ts ! t") simp_all
next
  case False
  have "claimer_ok (ts ! t)" using pool_okD(5) [OF assms(1)] assms(2) by simp
  from pool_okD(1) [OF assms(1)] this False show ?thesis
    by (cases rule: claim_step_cases [of b "ts ! t" bits 0]) blast+
qed

text \<open>C4. The bitmap is linearizable. However the atomic accesses of any number of threads in \<open>try_alloc\<close> interleave with each
  other, with exact claims and with releases of slots that are held, and whatever values the relaxed scanning
  loads return, the successful claims and the releases of the run are a history of a sequential pool: a slot is only
  taken when it is free, so no two owners ever hold it. The bits set are the slots nobody holds, no thread ever
  panics, and neither does the release of a held slot, in either profile.\<close>

theorem bitmap_linearizable:
  assumes "pool_run fresh p (start_pool n) es \<lparr>po_bitmap = b, po_threads = ts, po_held = H\<rparr>"
  shows "pool_history {..<n} es = Some (free_set b) \<and> free_set b = {..<n} - H \<and> H \<subseteq> {..<n} \<and> bm_inv b \<and>
    (\<forall>t < length ts. \<forall>bits. \<exists>r. claim_step bits (ts ! t) b = Ret r) \<and> (\<forall>s \<in> H. \<exists>b'. free q b s = Ret b')"
proof -
  have ok: "pool_ok n \<lparr>po_bitmap = b, po_threads = ts, po_held = H\<rparr>" and h: "pool_history {..<n} es = Some (free_set b)"
    using pool_run_ok [OF assms] by simp_all
  have "\<forall>s \<in> H. \<exists>b'. free q b s = Ret b'" using give_ok(1) [OF ok] by blast
  then show ?thesis using h pool_okD(1,3,4) [OF ok] no_panic [OF ok] by blast
qed

subsection \<open>Without interference\<close>

text \<open>A thread that runs alone and sees current words.\<close>

inductive solo :: "claimer \<Rightarrow> AtomicBitmap \<Rightarrow> nat option \<Rightarrow> AtomicBitmap \<Rightarrow> bool" where
  returns: "solo (Returned r) b r b"
| runs: "\<not> returned c \<Longrightarrow> current bits c b \<Longrightarrow> claim_step bits c b = Ret (c', b') \<Longrightarrow> solo c' b' r b'' \<Longrightarrow> solo c b r b''"

lemma solo_claim:
  assumes w: "word_at b j = Ret w" "j = (start + i) AND bm_word_mask b" and k: "bit w k"
  shows "solo (Claim start i k) b (Some (j * 64 + k)) (store_word b j (w AND NOT (bit_at k)))"
proof (rule solo.runs [of _ 0])
  have "w AND bit_at k \<noteq> 0" using k word64_bit_bound [OF k] by (simp add: and_mask_eq_0)
  then show "claim_step 0 (Claim start i k) b = Ret (Returned (Some (j * 64 + k)), store_word b j (w AND NOT (bit_at k)))"
    using w by (simp add: BITS_PER_WORD_def Let_def)
qed (auto intro: solo.returns)

lemma solo_scan:
  assumes b: "bm_inv b"
  shows "i + length is = bm_scan_words b \<Longrightarrow> is = [i..<bm_scan_words b] \<Longrightarrow>
    scan_words_from b start is = Ret (r, b') \<Longrightarrow> solo (Scan start i) b r b'"
proof (induction "is" arbitrary: i)
  case Nil
  show ?case
  proof (rule solo.runs)
    show "claim_step (bm_words b ! ((start + i) AND bm_word_mask b)) (Scan start i) b = Ret (Returned None, b)" using Nil by simp
    show "solo (Returned None) b r b'" using Nil solo.returns by simp
  qed simp_all
next
  case (Cons x xs)
  define j where "j = (start + i) AND bm_word_mask b"
  define w where "w = bm_words b ! j"
  have i: "i < bm_scan_words b" using Cons.prems(1) by simp
  have xs: "x = i" "xs = [Suc i..<bm_scan_words b]" using Cons.prems(2) i by (simp_all add: upt_conv_Cons)
  have wa: "word_at b j = Ret w" unfolding w_def j_def by (rule word_at_Ret [OF b word_idx_less [OF b]])
  have cur: "current w (Scan start i) b" unfolding w_def j_def by simp
  have rest: "(case try_claim_word w (j * 64) of (Some slot, w') \<Rightarrow> Ret (Some slot, store_word b j w')
      | (None, w') \<Rightarrow> scan_words_from (store_word b j w') start xs) = Ret (r, b')"
    using Cons.prems(3) wa by (simp add: xs(1) j_def [symmetric] Let_def BITS_PER_WORD_def)
  show ?case
  proof (cases "w = 0")
    case True
    have "store_word b j w = b" unfolding w_def by (rule store_word_same)
    then have "scan_words_from b start xs = Ret (r, b')" using rest True by (simp add: try_claim_word_eq)
    then have run: "solo (Scan start (Suc i)) b r b'" using Cons.IH [of "Suc i"] Cons.prems(1) xs by simp
    have step: "claim_step w (Scan start i) b = Ret (Scan start (Suc i), b)" using True i wa by (simp add: j_def [symmetric])
    show ?thesis by (rule solo.runs [OF _ cur step run]) simp
  next
    case False
    then have "r = Some (j * 64 + trailing_zeros (unat w))" "b' = store_word b j (w AND NOT (bit_at (trailing_zeros (unat w))))"
      using rest by (simp_all add: try_claim_word_eq)
    then have run: "solo (Claim start i (trailing_zeros (unat w))) b r b'"
      using solo_claim [OF wa j_def trailing_zeros_word(1) [OF False]] by simp
    have step: "claim_step w (Scan start i) b = Ret (Claim start i (trailing_zeros (unat w)), b)"
      using False i wa by (simp add: j_def [symmetric])
    show ?thesis by (rule solo.runs [OF _ cur step run]) simp
  qed
qed

text \<open>Left alone, a thread performs \<open>try_alloc\<close> and returns its result.\<close>

lemma solo_try_alloc:
  assumes b: "bm_inv b" and r: "try_alloc b = Ret (r, b')"
  shows "solo Enter b r b'"
proof (cases "bm_slot_count b = 0")
  case True
  then have "r = None" "b' = b" using r by (simp_all add: try_alloc_def)
  then show ?thesis using True by (intro solo.runs [of Enter 0 b "Returned None" b]) (simp_all add: solo.returns)
next
  case False
  let ?b = "b\<lparr>bm_cursor := bm_cursor b + 1\<rparr>"
  let ?start = "unat (bm_cursor b) AND bm_word_mask b"
  have "scan_words_from ?b ?start [0..<bm_scan_words ?b] = Ret (r, b')" using r False by (simp add: try_alloc_def Let_def)
  then have "solo (Scan ?start 0) ?b r b'" using solo_scan [of ?b 0 "[0..<bm_scan_words ?b]" ?start r b'] b by simp
  then show ?thesis using False by (intro solo.runs [of Enter 0 b "Scan ?start 0" ?b]) simp_all
qed

subsection \<open>Interference\<close>

text \<open>One slot, two threads: the first is about to load the word, the second has not called yet.\<close>

definition one_slot :: "usize \<Rightarrow> usize \<Rightarrow> AtomicBitmap" where
  "one_slot w c = \<lparr>bm_words = [w], bm_cursor = c, bm_scan_words = 1, bm_word_mask = 0, bm_slot_count = 1\<rparr>"

definition racing :: "usize \<Rightarrow> usize \<Rightarrow> claimer \<Rightarrow> claimer \<Rightarrow> nat set \<Rightarrow> pool" where
  "racing w c t u H = \<lparr>po_bitmap = one_slot w c, po_threads = [t, u], po_held = H\<rparr>"

lemma one_slot_new: "new_bitmap 1 = one_slot 1 0"
proof -
  have "div_ceil 1 64 = 1" by (simp add: div_ceil_def)
  moreover have "pow2_ceil 1 = 1" using pow2_ceil_pow2 [of 0] by simp
  moreover have "initial_word 1 True 0 = 1" by (simp add: initial_word_def BITS_PER_WORD_def bit_at_def)
  ultimately show ?thesis
    by (simp add: new_bitmap_def with_allocation_state_def one_slot_def BITS_PER_WORD_def)
qed

lemma racing_first:
  assumes "\<not> returned t" "current bits t (one_slot w c)" "claim_step bits t (one_slot w c) = Ret (t', one_slot w' c')"
  shows "pool_step True p (racing w c t u H) (claim_event 0 t t') (racing w' c' t' u (held_after (claim_event 0 t t') H))"
  using pool_step.advance [of 0 "[t, u]" True bits "one_slot w c" t' "one_slot w' c'"] assms by (simp add: racing_def)

lemma racing_second:
  assumes "\<not> returned u" "current bits u (one_slot w c)" "claim_step bits u (one_slot w c) = Ret (u', one_slot w' c')"
  shows "pool_step True p (racing w c t u H) (claim_event 1 u u') (racing w' c' t u' (held_after (claim_event 1 u u') H))"
  using pool_step.advance [of 1 "[t, u]" True bits "one_slot w c" u' "one_slot w' c'"] assms by (simp add: racing_def)

lemma one_slot_steps:
  "claim_step 1 (Scan 0 0) (one_slot 1 c) = Ret (Claim 0 0 0, one_slot 1 c)"
  "claim_step 0 Enter (one_slot w c) = Ret (Scan 0 0, one_slot w (c + 1))"
  "claim_step 0 (Claim 0 0 0) (one_slot 1 c) = Ret (Returned (Some 0), one_slot 0 c)"
  "claim_step 0 (Claim 0 0 0) (one_slot 0 c) = Ret (Scan 0 0, one_slot 0 c)"
  "free p (one_slot 0 c) 0 = Ret (one_slot 1 c)"
proof -
  have tz: "trailing_zeros 1 = 0" by (subst trailing_zeros.simps) simp
  show "claim_step 1 (Scan 0 0) (one_slot 1 c) = Ret (Claim 0 0 0, one_slot 1 c)" using tz by (simp add: one_slot_def word_at_def)
qed (simp_all add: one_slot_def word_at_def store_word_def BITS_PER_WORD_def bit_at_def free_def)

text \<open>The second thread takes the slot between the load and the \<^verbatim>\<open>fetch_and\<close> of the first, and gives it back.\<close>

definition miss_round :: "pool_event list" where
  "miss_round = [Other, Entered 1, Other, Took 0, Missed 0, Gave 0, Other]"

lemma missed_once:
  assumes "pool_run True p s es (racing 1 c (Scan 0 0) Enter {})"
  shows "pool_run True p s (es @ miss_round) (racing 1 (c + 1) (Scan 0 0) Enter {})"
proof -
  have 1: "pool_step True p (racing 1 c (Scan 0 0) Enter {}) Other (racing 1 c (Claim 0 0 0) Enter {})"
    using racing_first [OF _ _ one_slot_steps(1) [of c], of p Enter "{}"] by (simp add: one_slot_def)
  have 2: "pool_step True p (racing 1 c (Claim 0 0 0) Enter {}) (Entered 1) (racing 1 (c + 1) (Claim 0 0 0) (Scan 0 0) {})"
    using racing_second [OF _ _ one_slot_steps(2) [of 1 c], of p "Claim 0 0 0" "{}"] by simp
  have 3: "pool_step True p (racing 1 (c + 1) (Claim 0 0 0) (Scan 0 0) {}) Other (racing 1 (c + 1) (Claim 0 0 0) (Claim 0 0 0) {})"
    using racing_second [OF _ _ one_slot_steps(1) [of "c + 1"], of p "Claim 0 0 0" "{}"] by (simp add: one_slot_def)
  have 4: "pool_step True p (racing 1 (c + 1) (Claim 0 0 0) (Claim 0 0 0) {}) (Took 0)
      (racing 0 (c + 1) (Claim 0 0 0) (Returned (Some 0)) {0})"
    using racing_second [OF _ _ one_slot_steps(3) [of "c + 1"], of p "Claim 0 0 0" "{}"] by simp
  have 5: "pool_step True p (racing 0 (c + 1) (Claim 0 0 0) (Returned (Some 0)) {0}) (Missed 0)
      (racing 0 (c + 1) (Scan 0 0) (Returned (Some 0)) {0})"
    using racing_first [OF _ _ one_slot_steps(4) [of "c + 1"], of p "Returned (Some 0)" "{0}"] by simp
  have 6: "pool_step True p (racing 0 (c + 1) (Scan 0 0) (Returned (Some 0)) {0}) (Gave 0)
      (racing 1 (c + 1) (Scan 0 0) (Returned (Some 0)) {})"
    using pool_step.give [of 0 "{0}" p "one_slot 0 (c + 1)" "one_slot 1 (c + 1)" True] one_slot_steps(5) by (simp add: racing_def)
  have 7: "pool_step True p (racing 1 (c + 1) (Scan 0 0) (Returned (Some 0)) {}) Other (racing 1 (c + 1) (Scan 0 0) Enter {})"
    using pool_step.again [of 1 "[Scan 0 0, Returned (Some 0)]" True p "one_slot 1 (c + 1)" "{}"] by (simp add: racing_def)
  from pool_run.next_step [OF pool_run.next_step [OF pool_run.next_step [OF pool_run.next_step [OF pool_run.next_step
      [OF pool_run.next_step [OF pool_run.next_step [OF assms 1] 2] 3] 4] 5] 6] 7]
  show ?thesis by (simp add: miss_round_def)
qed

lemma race_starts: "pool_run True p (start_pool 1) [Other, Other, Entered 0] (racing 1 1 (Scan 0 0) Enter {})"
proof -
  have 1: "pool_step True p (start_pool 1) Other \<lparr>po_bitmap = one_slot 1 0, po_threads = [Enter], po_held = {}\<rparr>"
    using pool_step.spawn [of True p "one_slot 1 0" "[]" "{}"] one_slot_new by (simp add: start_pool_def)
  have 2: "pool_step True p \<lparr>po_bitmap = one_slot 1 0, po_threads = [Enter], po_held = {}\<rparr> Other (racing 1 0 Enter Enter {})"
    using pool_step.spawn [of True p "one_slot 1 0" "[Enter]" "{}"] by (simp add: racing_def)
  have 3: "pool_step True p (racing 1 0 Enter Enter {}) (Entered 0) (racing 1 1 (Scan 0 0) Enter {})"
    using racing_first [OF _ _ one_slot_steps(2) [of 1 0], of p Enter "{}"] by simp
  show ?thesis using pool_run.next_step [OF pool_run.next_step [OF pool_run.next_step [OF pool_run.none 1] 2] 3] by simp
qed

lemma missed_often:
  "pool_run True p (start_pool 1) ([Other, Other, Entered 0] @ concat (replicate k miss_round))
     (racing 1 (1 + of_nat k) (Scan 0 0) Enter {})"
proof (induction k)
  case 0
  then show ?case using race_starts by simp
next
  case (Suc k)
  have "concat (replicate (Suc k) miss_round) = concat (replicate k miss_round) @ miss_round"
    by (simp flip: replicate_append_same)
  then show ?case using missed_once [OF Suc] by (simp add: ac_simps)
qed

theorem bitmap_linearizable_witness:
  "pool_history {..<1} ([Other, Other, Entered 0] @ miss_round) = Some (free_set (one_slot 1 2)) \<and> free_set (one_slot 1 2) = {0}"
proof -
  have "pool_run True Debug (start_pool 1) ([Other, Other, Entered 0] @ miss_round)
     \<lparr>po_bitmap = one_slot 1 2, po_threads = [Scan 0 0, Enter], po_held = {}\<rparr>"
    using missed_often [of Debug 1] by (simp add: racing_def)
  from bitmap_linearizable [OF this] show ?thesis by (simp add: lessThan_Suc)
qed

text \<open>C35. The claim loop on a word has no bound, neither the number of bits in it nor any other. For every \<open>k\<close> there is a
  run, with every load current, in which one call of \<open>try_alloc\<close> on a bitmap with one slot finds \<open>k\<close> times that another
  thread took the bit it had just loaded, and is still scanning the same word with the slot free: the other
  thread takes the slot and gives it back each time.\<close>

theorem claim_retries_unbounded:
  "\<exists>es s. pool_run True p (start_pool 1) es s \<and> count_list es (Missed 0) = k \<and> count_list es (Entered 0) = 1 \<and>
     po_threads s ! 0 = Scan 0 0 \<and> free_set (po_bitmap s) = {0}"
proof (intro exI conjI)
  let ?es = "[Other, Other, Entered 0] @ concat (replicate k miss_round)"
  let ?s = "racing 1 (1 + of_nat k) (Scan 0 0) Enter {}"
  show "pool_run True p (start_pool 1) ?es ?s" by (rule missed_often)
  show "count_list ?es (Missed 0) = k" by (induction k) (simp_all add: miss_round_def)
  show "count_list ?es (Entered 0) = 1" by (induction k) (simp_all add: miss_round_def)
  show "po_threads ?s ! 0 = Scan 0 0" by (simp add: racing_def)
  show "free_set (po_bitmap ?s) = {0}" using pool_run_ok [OF missed_often [of p k]] by (auto simp: pool_ok_def racing_def)
qed

end
