(* ===== verification/Metrics.thy ===== *)
theory Metrics
  imports Prelude
begin

text \<open>
  The allocator counters of \<^verbatim>\<open>src/src/metrics.rs\<close>. Every counter is an \<^verbatim>\<open>AtomicUsize\<close>
  whose \<^verbatim>\<open>fetch_add\<close> and \<^verbatim>\<open>fetch_sub\<close> wrap, hence a \<open>64 word\<close>. The predicate
  \<open>ledger\<close> relates the counters to the number and the total size of the live allocations.
\<close>

record FixedArenaMetrics =
  fm_allocations_ok :: usize
  fm_allocations_failed :: usize
  fm_frees :: usize
  fm_frozen :: usize
  fm_spills :: usize
  fm_bytes_reserved :: nat
  fm_bytes_live :: usize

record BuddyArenaMetrics = FixedArenaMetrics +
  fm_splits :: usize
  fm_coalesces :: usize
  fm_largest_free_block :: nat

record MetricsState =
  ms_allocations_ok :: usize
  ms_allocations_failed :: usize
  ms_frees :: usize
  ms_frozen :: usize
  ms_spills :: usize
  ms_splits :: usize
  ms_coalesces :: usize
  ms_bytes_reserved :: nat
  ms_bytes_live :: usize

definition new_metrics :: "nat \<Rightarrow> MetricsState" where
  "new_metrics bytes_reserved =
     \<lparr>ms_allocations_ok = 0, ms_allocations_failed = 0, ms_frees = 0, ms_frozen = 0,
      ms_spills = 0, ms_splits = 0, ms_coalesces = 0,
      ms_bytes_reserved = bytes_reserved, ms_bytes_live = 0\<rparr>"

definition record_alloc_success :: "nat \<Rightarrow> MetricsState \<Rightarrow> MetricsState" where
  "record_alloc_success capacity m =
     m\<lparr>ms_allocations_ok := ms_allocations_ok m + 1,
       ms_bytes_live := ms_bytes_live m + word_of_nat capacity\<rparr>"

definition record_alloc_failure :: "MetricsState \<Rightarrow> MetricsState" where
  "record_alloc_failure m = m\<lparr>ms_allocations_failed := ms_allocations_failed m + 1\<rparr>"

definition record_free :: "nat \<Rightarrow> MetricsState \<Rightarrow> MetricsState" where
  "record_free capacity m =
     m\<lparr>ms_frees := ms_frees m + 1, ms_bytes_live := ms_bytes_live m - word_of_nat capacity\<rparr>"

definition record_frozen :: "MetricsState \<Rightarrow> MetricsState" where
  "record_frozen m = m\<lparr>ms_frozen := ms_frozen m + 1\<rparr>"

definition record_spill :: "MetricsState \<Rightarrow> MetricsState" where
  "record_spill m = m\<lparr>ms_spills := ms_spills m + 1\<rparr>"

definition record_splits :: "nat \<Rightarrow> MetricsState \<Rightarrow> MetricsState" where
  "record_splits count m = m\<lparr>ms_splits := ms_splits m + word_of_nat count\<rparr>"

definition record_coalesce :: "MetricsState \<Rightarrow> MetricsState" where
  "record_coalesce m = m\<lparr>ms_coalesces := ms_coalesces m + 1\<rparr>"

definition fixed_snapshot :: "MetricsState \<Rightarrow> FixedArenaMetrics" where
  "fixed_snapshot m =
     \<lparr>fm_allocations_ok = ms_allocations_ok m, fm_allocations_failed = ms_allocations_failed m,
      fm_frees = ms_frees m, fm_frozen = ms_frozen m, fm_spills = ms_spills m,
      fm_bytes_reserved = ms_bytes_reserved m, fm_bytes_live = ms_bytes_live m\<rparr>"

definition buddy_snapshot :: "nat \<Rightarrow> MetricsState \<Rightarrow> BuddyArenaMetrics" where
  "buddy_snapshot largest_free_block m =
     \<lparr>fm_allocations_ok = ms_allocations_ok m, fm_allocations_failed = ms_allocations_failed m,
      fm_frees = ms_frees m, fm_frozen = ms_frozen m, fm_spills = ms_spills m,
      fm_bytes_reserved = ms_bytes_reserved m, fm_bytes_live = ms_bytes_live m,
      fm_splits = ms_splits m, fm_coalesces = ms_coalesces m,
      fm_largest_free_block = largest_free_block\<rparr>"

subsection \<open>The ledger\<close>

text \<open>
  \<open>ledger m n b\<close>: the counters account for \<open>n\<close> live allocations of \<open>b\<close> bytes in total. The
  number of live allocations is the difference of two counters and survives their wrapping.
\<close>

definition ledger :: "MetricsState \<Rightarrow> nat \<Rightarrow> nat \<Rightarrow> bool" where
  "ledger m n b \<longleftrightarrow>
     ms_allocations_ok m - ms_frees m = word_of_nat n \<and> ms_bytes_live m = word_of_nat b"

named_theorems ledger_intros \<open>how the counters follow the live allocations\<close>

lemma ledger_new [ledger_intros]: "ledger (new_metrics r) 0 0"
  by (simp add: ledger_def new_metrics_def)

lemma ledger_alloc [ledger_intros]:
  "ledger m n b \<Longrightarrow> ledger (record_alloc_success c m) (Suc n) (b + c)"
  by (simp add: ledger_def record_alloc_success_def algebra_simps)

lemma ledger_free [ledger_intros]:
  "ledger m n b \<Longrightarrow> 0 < n \<Longrightarrow> c \<le> b \<Longrightarrow> ledger (record_free c m) (n - 1) (b - c)"
  by (simp add: ledger_def record_free_def of_nat_diff algebra_simps)

text \<open>The counters over a finite set of live allocations, each of size \<open>f b\<close>.\<close>

lemma ledger_insert [ledger_intros]:
  "ledger m (card L) (sum f L) \<Longrightarrow> finite L \<Longrightarrow> b \<notin> L \<Longrightarrow>
     ledger (record_alloc_success (f b) m) (card (insert b L)) (sum f (insert b L))"
  using ledger_alloc [of m "card L" "sum f L" "f b"] by (simp add: add.commute)

lemma ledger_remove [ledger_intros]:
  "ledger m (card L) (sum f L) \<Longrightarrow> finite L \<Longrightarrow> b \<in> L \<Longrightarrow>
     ledger (record_free (f b) m) (card (L - {b})) (sum f (L - {b}))"
  using ledger_free [of m "card L" "sum f L" "f b"] card_gt_0_iff [of L] member_le_sum [of b L f]
  by (auto simp: sum_diff1_nat)

lemma ledger_neutral [simp]:
  "ledger (record_alloc_failure m) n b = ledger m n b"
  "ledger (record_frozen m) n b = ledger m n b"
  "ledger (record_spill m) n b = ledger m n b"
  "ledger (record_splits k m) n b = ledger m n b"
  "ledger (record_coalesce m) n b = ledger m n b"
  by (simp_all add: ledger_def record_alloc_failure_def record_frozen_def record_spill_def
      record_splits_def record_coalesce_def)

lemma ledger_bytes_live: "ledger m n b \<Longrightarrow> b < 2 ^ 64 \<Longrightarrow> unat (ms_bytes_live m) = b"
  by (simp add: ledger_def unat_of_nat)

end
