(* ===== verification/Dealloc.thy ===== *)
theory Dealloc
  imports Prelude
begin

text \<open>
  Deallocation strategies, \<^verbatim>\<open>src/src/dealloc.rs\<close>: the \<^verbatim>\<open>Dealloc\<close> implementations of the crate,
  a constructor for the implementations a caller brings (their payload type is a parameter),
  and the type-erased form stored in an arena. What the strategies do to the outside world is
  a list of events, so that ``called exactly once'' is a statement about that list.
\<close>

type_synonym layout = "nat \<times> nat"

datatype 'd Dealloc = HeapDealloc layout | NoDealloc | CustomDealloc 'd

datatype 'd dealloc_event =
    GlobalDealloc nat layout
  | UserDealloc 'd nat nat
  | FreeBox "'d Dealloc"

fun run_dealloc :: "'d Dealloc \<Rightarrow> nat \<Rightarrow> nat \<Rightarrow> 'd dealloc_event list" where
  "run_dealloc (HeapDealloc l) ptr len = [GlobalDealloc ptr l]"
| "run_dealloc NoDealloc ptr len = []"
| "run_dealloc (CustomDealloc d) ptr len = [UserDealloc d ptr len]"

text \<open>
  \<open>ed_data\<close> is the boxed strategy (\<open>None\<close> is the null pointer) and \<open>ed_noop\<close> tells the
  function pointers of the sentinel from the typed ones. The typed \<^verbatim>\<open>drop_fn\<close> asserts that its
  payload is not null; no operation of the crate calls it on a consumed payload.
\<close>

record 'd ErasedDealloc =
  ed_data :: "'d Dealloc option"
  ed_noop :: bool

definition new_erased :: "'d Dealloc \<Rightarrow> 'd ErasedDealloc" where
  "new_erased d = \<lparr>ed_data = Some d, ed_noop = False\<rparr>"

definition noop :: "'d ErasedDealloc" where
  "noop = \<lparr>ed_data = None, ed_noop = True\<rparr>"

definition drop_fn :: "bool \<Rightarrow> 'd Dealloc option \<Rightarrow> nat \<Rightarrow> nat \<Rightarrow> 'd dealloc_event list outcome" where
  "drop_fn is_noop data ptr len =
     (if is_noop then Ret []
      else
        case data of
          None \<Rightarrow> Panic ''assertion failed: !data.is_null()''
        | Some d \<Rightarrow> Ret (FreeBox d # run_dealloc d ptr len))"

definition free_fn :: "bool \<Rightarrow> 'd Dealloc option \<Rightarrow> 'd dealloc_event list" where
  "free_fn is_noop data =
     (if is_noop then [] else case data of None \<Rightarrow> [] | Some d \<Rightarrow> [FreeBox d])"

definition drop_erased :: "'d ErasedDealloc \<Rightarrow> 'd dealloc_event list" where
  "drop_erased e = free_fn (ed_noop e) (ed_data e)"

definition dealloc_erased :: "'d ErasedDealloc \<Rightarrow> nat \<Rightarrow> nat \<Rightarrow> 'd dealloc_event list outcome" where
  "dealloc_erased e ptr len =
     (let data = ed_data e;
          e' = e\<lparr>ed_data := None\<rparr>
      in obind (drop_fn (ed_noop e) data ptr len) (\<lambda>evs. Ret (evs @ drop_erased e')))"

text \<open>
  The \<^verbatim>\<open>Drop\<close> of both arena states: the strategy is replaced by the sentinel and called; the
  sentinel left in the field is dropped afterwards.
\<close>

definition drop_arena :: "'d ErasedDealloc \<Rightarrow> nat \<Rightarrow> nat \<Rightarrow> 'd dealloc_event list outcome" where
  "drop_arena e ptr total_size =
     obind (dealloc_erased e ptr total_size) (\<lambda>evs. Ret (evs @ drop_erased noop))"

lemma drop_arena_eq [outcome_simps]:
  "drop_arena (new_erased d) ptr n = Ret (FreeBox d # run_dealloc d ptr n)"
  by (simp add: drop_arena_def dealloc_erased_def drop_fn_def drop_erased_def free_fn_def
      new_erased_def noop_def)

lemma drop_erased_unused [simp]: "drop_erased (new_erased d) = [FreeBox d]"
  by (simp add: drop_erased_def free_fn_def new_erased_def)

lemma drop_erased_noop [simp]: "drop_erased noop = []"
  by (simp add: drop_erased_def free_fn_def noop_def)

end
