(* ===== verification/Buffer_State.thy ===== *)
theory Buffer_State
  imports Prelude
begin

text \<open>
  The data that arenas hand out: \<open>AllocationKind\<close> of \<^verbatim>\<open>src/src/allocation.rs\<close> and the \<open>Buffer\<close>
  struct of \<^verbatim>\<open>src/src/buffer.rs\<close> with its two constructors. The buffer's owner is the arena the
  operations receive as an argument, so the record holds no copy of it; the type parameter is
  the heap buffer (\<^verbatim>\<open>bytes::BytesMut\<close>) that replaces the arena memory after a spill.
\<close>

datatype AllocationKind =
    FixedSlot nat
  | BuddyBlock nat nat

record 'h Buffer =
  buf_allocation :: AllocationKind
  buf_ptr :: nat
  buf_auto_spill :: bool
  buf_offset :: nat
  buf_capacity :: nat
  buf_len :: nat
  buf_released :: bool
  buf_spilled :: "'h option"

definition new_fixed :: "nat \<Rightarrow> bool \<Rightarrow> nat \<Rightarrow> nat \<Rightarrow> nat \<Rightarrow> 'h Buffer" where
  "new_fixed ptr auto_spill slot_idx offset capacity =
     \<lparr>buf_allocation = FixedSlot slot_idx, buf_ptr = ptr, buf_auto_spill = auto_spill,
      buf_offset = offset, buf_capacity = capacity, buf_len = 0, buf_released = False,
      buf_spilled = None\<rparr>"

definition new_buddy :: "nat \<Rightarrow> bool \<Rightarrow> nat \<Rightarrow> nat \<Rightarrow> nat \<Rightarrow> nat \<Rightarrow> 'h Buffer" where
  "new_buddy ptr auto_spill order block_idx offset capacity =
     \<lparr>buf_allocation = BuddyBlock order block_idx, buf_ptr = ptr, buf_auto_spill = auto_spill,
      buf_offset = offset, buf_capacity = capacity, buf_len = 0, buf_released = False,
      buf_spilled = None\<rparr>"

lemma new_fixed_simps [simp]:
  "buf_allocation (new_fixed ptr sp s off cap) = FixedSlot s"
  "buf_auto_spill (new_fixed ptr sp s off cap) = sp"
  "buf_offset (new_fixed ptr sp s off cap) = off"
  "buf_capacity (new_fixed ptr sp s off cap) = cap"
  "buf_len (new_fixed ptr sp s off cap) = 0"
  "\<not> buf_released (new_fixed ptr sp s off cap)"
  "buf_spilled (new_fixed ptr sp s off cap) = None"
  "buf_ptr (new_fixed ptr sp s off cap) = ptr"
  by (simp_all add: new_fixed_def)

lemma new_buddy_simps [simp]:
  "buf_allocation (new_buddy ptr sp ord i off cap) = BuddyBlock ord i"
  "buf_auto_spill (new_buddy ptr sp ord i off cap) = sp"
  "buf_offset (new_buddy ptr sp ord i off cap) = off"
  "buf_capacity (new_buddy ptr sp ord i off cap) = cap"
  "buf_len (new_buddy ptr sp ord i off cap) = 0"
  "\<not> buf_released (new_buddy ptr sp ord i off cap)"
  "buf_spilled (new_buddy ptr sp ord i off cap) = None"
  "buf_ptr (new_buddy ptr sp ord i off cap) = ptr"
  by (simp_all add: new_buddy_def)

end
