(* ===== verification/Errors.thy ===== *)
theory Errors
  imports Prelude
begin

text \<open>
  The error types of \<^verbatim>\<open>src/src/error.rs\<close> and their \<^verbatim>\<open>Display\<close> texts.
\<close>

datatype AllocError = ArenaFull | RequestTooLarge

datatype BuildError =
    SizeOverflow
  | InvalidAlignment
  | InvalidGeometry
  | SlotSizeExceedsBacking
  | ZeroUsableSlots
  | NullPointer

record BufferFullError =
  bf_remaining :: nat
  bf_requested :: nat

text \<open>Decimal formatting of an unsigned integer, as \<^verbatim>\<open>{}\<close> prints it.\<close>

fun show_nat :: "nat \<Rightarrow> string" where
  "show_nat n =
     (if n < 10 then [char_of (48 + n)] else show_nat (n div 10) @ [char_of (48 + n mod 10)])"

declare show_nat.simps [simp del]

fun display_AllocError :: "AllocError \<Rightarrow> string" where
  "display_AllocError ArenaFull = ''arena is full''"
| "display_AllocError RequestTooLarge = ''request exceeds total arena capacity''"

fun display_BuildError :: "BuildError \<Rightarrow> string" where
  "display_BuildError SizeOverflow = ''total arena size overflows usize''"
| "display_BuildError InvalidAlignment = ''alignment must be a power of 2''"
| "display_BuildError InvalidGeometry =
     ''buddy arena geometry must be a power-of-two multiple of min block size''"
| "display_BuildError SlotSizeExceedsBacking = ''requested slot size exceeds backing memory length''"
| "display_BuildError ZeroUsableSlots = ''no usable slots fit in the provided backing memory''"
| "display_BuildError NullPointer = ''null pointer provided to from_raw''"

definition display_BufferFullError :: "BufferFullError \<Rightarrow> string" where
  "display_BufferFullError e =
     ''buffer full: '' @ show_nat (bf_requested e) @ '' bytes requested, '' @
     show_nat (bf_remaining e) @ '' bytes remaining''"

text \<open>Reading the digits back: the decimal text determines the number.\<close>

fun read_nat :: "nat \<Rightarrow> string \<Rightarrow> nat" where
  "read_nat acc [] = acc"
| "read_nat acc (c # cs) = read_nat (acc * 10 + (of_char c - 48)) cs"

lemma read_nat_append: "read_nat acc (xs @ ys) = read_nat (read_nat acc xs) ys"
  by (induction xs arbitrary: acc) auto

lemma read_show_nat: "read_nat 0 (show_nat n) = n"
proof (induction n rule: show_nat.induct)
  case (1 n)
  show ?case
  proof (cases "n < 10")
    case True
    then show ?thesis by (subst show_nat.simps) (simp add: of_char_of)
  next
    case False
    with 1 have "read_nat 0 (show_nat (n div 10)) = n div 10" by simp
    with False show ?thesis
      by (subst show_nat.simps) (simp add: read_nat_append of_char_of)
  qed
qed

lemma show_nat_inj: "show_nat m = show_nat n \<longleftrightarrow> m = n"
  by (metis read_show_nat)

lemma display_BuildError_inj: "display_BuildError e = display_BuildError e' \<longleftrightarrow> e = e'"
  by (cases e; cases e') simp_all

end
