(* ===== verification/Backing_Spec.thy ===== *)
theory Backing_Spec
  imports Errors
begin

text \<open>
  How caller-provided memory is sliced, \<^verbatim>\<open>src/src/spec.rs\<close>: \<open>SlotSpec\<close> for fixed arenas and
  \<open>BuddyHint\<close> for buddy arenas. The loop that derives the maximum order of a buddy hint is a
  \<open>partial_function\<close>, so that a run that never ends is a value; the lemmas show for which
  hints it ends, what it computes, and that the hints above \<open>2 ^ 63\<close> make it panic or hang.
\<close>

subsection \<open>Fixed slots\<close>

datatype SlotSpec = Count nat | Size nat

definition align_down :: "nat \<Rightarrow> nat \<Rightarrow> nat" where
  "align_down val align = unat ((word_of_nat val :: usize) AND NOT (word_of_nat align - 1))"

fun resolve_slots :: "SlotSpec \<Rightarrow> nat \<Rightarrow> nat \<Rightarrow> BuildError + (nat \<times> nat)" where
  "resolve_slots (Count count) block_len alignment =
     (let raw_size = block_len div count;
          aligned_size = align_down raw_size alignment
      in if aligned_size = 0 then Inl ZeroUsableSlots else Inr (count, aligned_size))"
| "resolve_slots (Size sz) block_len alignment =
     (let aligned_size = align_down sz alignment in
      if aligned_size = 0 then Inl ZeroUsableSlots
      else if block_len < aligned_size then Inl SlotSizeExceedsBacking
      else
        let count = block_len div aligned_size in
        if count = 0 then Inl ZeroUsableSlots else Inr (count, aligned_size))"

lemma bit_round_down: "bit (n div 2 ^ k * 2 ^ k :: nat) j \<longleftrightarrow> k \<le> j \<and> bit n j"
proof -
  have "n div 2 ^ k * 2 ^ k = push_bit k (drop_bit k n)"
    by (simp add: push_bit_eq_mult drop_bit_eq_div)
  then show ?thesis by (auto simp: bit_push_bit_iff bit_drop_bit_eq)
qed

text \<open>Masking with the complement of \<open>2 ^ k - 1\<close> rounds down to a multiple of \<open>2 ^ k\<close>.\<close>

lemma unat_and_not_mask:
  assumes "k < 64"
  shows "unat (w AND NOT (word_of_nat (2 ^ k) - 1 :: usize)) = unat w div 2 ^ k * 2 ^ k"
proof (rule bit_eqI)
  fix j
  have m: "(word_of_nat (2 ^ k) - 1 :: usize) = mask k"
    by (simp add: mask_eq_decr_exp)
  show "bit (unat (w AND NOT (word_of_nat (2 ^ k) - 1 :: usize))) j \<longleftrightarrow> bit (unat w div 2 ^ k * 2 ^ k) j"
    unfolding m bit_round_down
    by (auto simp: bit_unat_usize bit_simps dest: word64_bit_bound)
qed

lemma align_down_pow2:
  assumes "k < 64" "n < 2 ^ 64"
  shows "align_down n (2 ^ k) = n div 2 ^ k * 2 ^ k"
  unfolding align_down_def unat_and_not_mask [OF assms(1)]
  using assms(2) by (simp add: unat_of_nat)

lemma align_down_bounds:
  assumes "is_power_of_two a" "a < 2 ^ 64" "n < 2 ^ 64"
  shows "align_down n a \<le> n" "a dvd align_down n a" "n - align_down n a < a"
    "align_down n a = 0 \<longleftrightarrow> n < a"
proof -
  obtain k where k: "a = 2 ^ k" using assms(1) by (auto simp: is_power_of_two_iff)
  have "k < 64" using assms(2) unfolding k by (rule power_less_imp_less_exp [rotated]) simp
  then have eq: "align_down n a = n div a * a" using align_down_pow2 [OF _ assms(3)] k by simp
  have a: "0 < a" by (simp add: k)
  show "align_down n a \<le> n" "a dvd align_down n a" using eq by simp_all
  have "n - n div a * a = n mod a" by (simp add: minus_div_mult_eq_mod)
  with a eq show "n - align_down n a < a" by simp
  show "align_down n a = 0 \<longleftrightarrow> n < a" using a eq by (simp add: div_eq_0_iff)
qed

lemma div_mult_le_nat: "(n :: nat) div m * m \<le> n"
  by simp

subsection \<open>Buddy hints\<close>

datatype BuddyHint = MinAlloc nat

definition prev_power_of_two :: "nat \<Rightarrow> nat" where
  "prev_power_of_two n = (if n = 0 then 0 else 2 ^ (64 - 1 - leading_zeros n))"

text \<open>\<^verbatim>\<open>while min_block << (max_order + 1) <= block_len { max_order += 1; }\<close>\<close>

partial_function (option) hint_loop :: "profile \<Rightarrow> nat \<Rightarrow> nat \<Rightarrow> nat \<Rightarrow> nat outcome option" where
  "hint_loop p min_block block_len max_order =
     (case shl p min_block ((max_order + 1) mod 2 ^ 64) of
        Ret v \<Rightarrow>
          (if v \<le> block_len then hint_loop p min_block block_len ((max_order + 1) mod 2 ^ 64)
           else Some (Ret max_order))
      | Panic m \<Rightarrow> Some (Panic m)
      | Diverge \<Rightarrow> Some Diverge)"

definition run_loop :: "'a outcome option \<Rightarrow> 'a outcome" where
  "run_loop r = (case r of None \<Rightarrow> Diverge | Some x \<Rightarrow> x)"

fun resolve_hint :: "profile \<Rightarrow> BuddyHint \<Rightarrow> nat \<Rightarrow> (BuildError + (nat \<times> nat)) outcome" where
  "resolve_hint p (MinAlloc m) block_len =
     obind (next_power_of_two p m) (\<lambda>up.
       let down = prev_power_of_two m in
       if block_len < up \<and> (down = 0 \<or> block_len < down) then Ret (Inl ZeroUsableSlots)
       else
         let min_block = (if block_len < up then down else up) in
         obind (run_loop (hint_loop p min_block block_len 0)) (\<lambda>max_order.
         obind (shl p min_block max_order) (\<lambda>total_usable.
           Ret (if total_usable = 0 then Inl ZeroUsableSlots else Inr (min_block, max_order)))))"

lemma prev_power_of_two_bounds:
  assumes "0 < n" "n < 2 ^ 64"
  shows "\<exists>k<64. prev_power_of_two n = 2 ^ k \<and> 2 ^ k \<le> n \<and> n < 2 * 2 ^ k"
proof -
  have b: "2 ^ (bit_len n - 1) \<le> n" "n < 2 ^ bit_len n" using bit_len_bounds [of n] assms by auto
  have le: "bit_len n \<le> 64" using assms(2) by (rule bit_len_le)
  have nz: "bit_len n \<noteq> 0" using b(2) assms(1) by (cases "bit_len n") auto
  from le nz assms(1) have "prev_power_of_two n = 2 ^ (bit_len n - 1)"
    by (simp add: prev_power_of_two_def leading_zeros_def)
  moreover have "(2::nat) ^ bit_len n = 2 * 2 ^ (bit_len n - 1)" using nz by (cases "bit_len n") auto
  ultimately show ?thesis using b le nz by (intro exI [of _ "bit_len n - 1"]) auto
qed

text \<open>
  Below \<open>isize::MAX\<close>, the size limit of every Rust object, the shift of the loop never leaves
  the word, and the loop stops at the order where the next doubling no longer fits.
\<close>

lemma hint_loop_ends:
  assumes "0 < m" "bl < 2 ^ 63" "m * 2 ^ n \<le> bl"
  shows "\<exists>q. hint_loop p m bl n = Some (Ret q) \<and> m * 2 ^ q \<le> bl \<and> bl < m * 2 ^ Suc q"
  using assms(3)
proof (induction "bl - m * 2 ^ n" arbitrary: n rule: less_induct)
  case less
  have "(2::nat) ^ n \<le> m * 2 ^ n" using assms(1) by simp
  with less.prems assms(2) have "(2::nat) ^ n < 2 ^ 63" by linarith
  then have n: "n < 63" by (rule power_less_imp_less_exp [rotated]) simp
  have lt: "m * 2 ^ Suc n < 2 ^ 64"
  proof -
    have "m * 2 ^ Suc n = 2 * (m * 2 ^ n)" by simp
    also have "\<dots> < 2 * 2 ^ 63" using less.prems assms(2) by linarith
    finally show ?thesis by simp
  qed
  have md: "(n + 1) mod 2 ^ 64 = Suc n" using n by simp
  have s: "shl p m (Suc n) = Ret (m * 2 ^ Suc n)" using lt n by (intro shl_small) auto
  show ?case
  proof (cases "m * 2 ^ Suc n \<le> bl")
    case True
    have "m * 2 ^ n < m * 2 ^ Suc n" using assms(1) by simp
    then have "bl - m * 2 ^ Suc n < bl - m * 2 ^ n" using True less.prems by linarith
    from less.hyps [OF this True] True show ?thesis
      by (subst hint_loop.simps) (simp only: md s outcome.case if_True)
  next
    case False
    then show ?thesis using less.prems
      by (subst hint_loop.simps) (simp only: md s outcome.case if_False, auto)
  qed
qed

text \<open>With a zero block size the loop never ends: no value is ever returned.\<close>

lemma hint_loop_zero: "hint_loop Release 0 bl n = None"
proof -
  have "\<not> (p = Release \<and> m = 0)" if "hint_loop p m bl n = Some r" for p m bl n r
    using that
  proof (induction rule: hint_loop.raw_induct [rotated 1, consumes 1])
    case (1 hl p m bl n r)
    note IH = 1(1)
    show ?case
    proof
      assume pm: "p = Release \<and> m = 0"
      then have "shl p m ((n + 1) mod 2 ^ 64) = Ret 0"
        by (auto simp: shl_def simp del: power_numeral)
      with 1(2) have "hl p m bl ((n + 1) mod 2 ^ 64) = Some r" by simp
      with IH pm show False by blast
    qed
  qed
  then show ?thesis by (metis not_Some_eq)
qed

subsection \<open>What slicing guarantees\<close>

fun spec_arg :: "SlotSpec \<Rightarrow> nat" where
  "spec_arg (Count c) = c"
| "spec_arg (Size s) = s"

lemma resolve_slots_cases:
  assumes "0 < spec_arg spec" "spec_arg spec < 2 ^ 64" "block_len < 2 ^ 64"
    and "is_power_of_two a" "a < 2 ^ 64"
  shows "case resolve_slots spec block_len a of
      Inr (count, cap) \<Rightarrow>
        0 < count \<and> 0 < cap \<and> a dvd cap \<and> count * cap \<le> block_len \<and>
        (case spec of
           Count c \<Rightarrow> count = c \<and> cap \<le> block_len div c \<and> block_len div c - cap < a
         | Size s \<Rightarrow> cap \<le> s \<and> s - cap < a \<and> block_len < Suc count * cap)
    | Inl e \<Rightarrow>
        (case spec of
           Count c \<Rightarrow> e = ZeroUsableSlots \<and> block_len div c < a
         | Size s \<Rightarrow> e = ZeroUsableSlots \<and> s < a \<or> e = SlotSizeExceedsBacking \<and> block_len < s)"
proof (cases spec)
  case (Count c)
  have "block_len div c \<le> block_len" by (rule div_le_dividend)
  with assms(3) have lt: "block_len div c < 2 ^ 64" by linarith
  note ad = align_down_bounds [OF assms(4,5) lt]
  have "c * align_down (block_len div c) a \<le> c * (block_len div c)" using ad(1) by simp
  also have "\<dots> \<le> block_len" by simp
  finally show ?thesis using Count ad assms(1) by (auto simp: Let_def)
next
  case (Size s)
  note ad = align_down_bounds [OF assms(4,5), of s]
  let ?c = "align_down s a"
  have "block_len < Suc (block_len div ?c) * ?c" if "0 < ?c"
    using that dividend_less_div_times [of ?c block_len] by simp
  with Size ad assms(1,2) show ?thesis
    by (auto simp: Let_def div_greater_zero_iff)
qed

lemma resolve_slots_bounds:
  assumes "0 < spec_arg spec" "spec_arg spec < 2 ^ 64" "block_len < 2 ^ 64"
    and "is_power_of_two a" "a < 2 ^ 64" "resolve_slots spec block_len a = Inr (count, cap)"
  shows "0 < count \<and> 0 < cap \<and> count * cap \<le> block_len"
  using resolve_slots_cases [OF assms(1-5)] assms(6) by simp

text \<open>A resolved \<open>SlotSpec\<close> yields a positive number of positive, aligned slots that fit in the
  backing memory: \<open>Count\<close> keeps the count and loses less than one alignment unit per slot, \<open>Size\<close>
  shrinks the size by less than one alignment unit and leaves less than one slot unused. The only
  failures are a slot below one alignment unit and a slot larger than the memory.\<close>

theorem resolve_slots_correct:
  assumes "0 < spec_arg spec" "spec_arg spec < 2 ^ 64" "block_len < 2 ^ 64"
    and "is_power_of_two a" "a < 2 ^ 64"
  shows "case resolve_slots spec block_len a of
      Inr (count, cap) \<Rightarrow>
        0 < count \<and> 0 < cap \<and> a dvd cap \<and> count * cap \<le> block_len \<and>
        (case spec of
           Count c \<Rightarrow> count = c \<and> cap \<le> block_len div c \<and> block_len div c - cap < a
         | Size s \<Rightarrow> cap \<le> s \<and> s - cap < a \<and> block_len < Suc count * cap)
    | Inl e \<Rightarrow>
        (case spec of
           Count c \<Rightarrow> e = ZeroUsableSlots \<and> block_len div c < a
         | Size s \<Rightarrow> e = ZeroUsableSlots \<and> s < a \<or> e = SlotSizeExceedsBacking \<and> block_len < s)"
  using assms by (rule resolve_slots_cases)

theorem resolve_slots_correct_witness:
  "resolve_slots (Size 300) 1024 64 = Inr (4, 256) \<and> 4 * 256 \<le> (1024 :: nat)"
proof -
  have a: "is_power_of_two 64" by (simp add: is_power_of_two_def count_ones.simps)
  have e: "resolve_slots (Size 300) 1024 64 = Inr (4, 256)"
    using align_down_pow2 [of 6 300] by simp
  from resolve_slots_correct [of "Size 300" 1024 64] a e show ?thesis by simp
qed

lemma resolve_hint_min_block:
  assumes "0 < m" "m \<le> 2 ^ 63" "prev_power_of_two m \<le> bl"
  defines "b \<equiv> (if bl < pow2_ceil m then prev_power_of_two m else pow2_ceil m)"
  shows "is_power_of_two b" "b \<le> bl" "m < 2 * b" "b < 2 * m"
proof -
  obtain k where k: "prev_power_of_two m = 2 ^ k" "2 ^ k \<le> m" "m < 2 * 2 ^ k"
    using prev_power_of_two_bounds [of m] assms(1,2) by auto
  obtain j where j: "pow2_ceil m = 2 ^ j" using pow2_ceil_is_pow2 by blast
  show "is_power_of_two b" by (simp add: b_def k(1) j)
  show "b \<le> bl" using assms(3) by (simp add: b_def)
  show "m < 2 * b" using k pow2_ceil_ge [of m] assms(1) by (simp add: b_def)
  show "b < 2 * m" using k pow2_ceil_less_double [OF assms(1)] assms(1) by (simp add: b_def)
qed

lemma resolve_hint_cases:
  assumes "0 < m" "m \<le> 2 ^ 63" "block_len < 2 ^ 63"
  shows "\<exists>r. resolve_hint p (MinAlloc m) block_len = Ret r \<and>
    (case r of
       Inl e \<Rightarrow> e = ZeroUsableSlots \<and> block_len < prev_power_of_two m
     | Inr (min_block, max_order) \<Rightarrow>
         is_power_of_two min_block \<and> m < 2 * min_block \<and> min_block < 2 * m \<and>
         min_block * 2 ^ max_order \<le> block_len \<and> block_len < min_block * 2 ^ Suc max_order)"
proof (cases "prev_power_of_two m \<le> block_len")
  case False
  obtain k where k: "prev_power_of_two m = 2 ^ k" "2 ^ k \<le> m"
    using prev_power_of_two_bounds [of m] assms(1,2) by auto
  with False pow2_ceil_ge [of m] have "block_len < pow2_ceil m" by linarith
  with False assms(2) show ?thesis by (simp add: outcome_simps Let_def)
next
  case True
  define b where "b = (if block_len < pow2_ceil m then prev_power_of_two m else pow2_ceil m)"
  note b = resolve_hint_min_block [OF assms(1,2) True, folded b_def]
  have pos: "0 < b" using b(1) by (rule is_power_of_two_pos)
  obtain k where k: "prev_power_of_two m = 2 ^ k"
    using prev_power_of_two_bounds [of m] assms(1,2) by auto
  obtain q where q: "hint_loop p b block_len 0 = Some (Ret q)"
      "b * 2 ^ q \<le> block_len" "block_len < b * 2 ^ Suc q"
    using hint_loop_ends [OF pos assms(3), of 0 p] b(2) by auto
  have "(2::nat) ^ q \<le> b * 2 ^ q" using pos by simp
  with q(2) assms(3) have "(2::nat) ^ q < 2 ^ 63" by linarith
  also have "\<dots> < (2::nat) ^ 64" by (rule power_strict_increasing) auto
  finally have "(2::nat) ^ q < 2 ^ 64" .
  then have q64: "q < 64" by (rule power_less_imp_less_exp [rotated]) simp
  have s: "shl p b q = Ret (b * 2 ^ q)" using q64 q(2) assms(3) by (intro shl_small) auto
  have "resolve_hint p (MinAlloc m) block_len = Ret (Inr (b, q))"
    using True k pos assms(2) q(1) s unfolding b_def
    by (cases "block_len < pow2_ceil m") (simp_all add: outcome_simps Let_def run_loop_def)
  with b q show ?thesis by auto
qed

text \<open>C39. For a hint up to \<open>2 ^ 63\<close> and a region below \<open>isize::MAX\<close>, resolving terminates in both
  profiles; it fails only when even the rounded-down hint exceeds the region, and otherwise returns a
  power-of-two block within a factor two of the hint and the largest order that fits the region.\<close>

theorem resolve_hint_correct:
  assumes "0 < m" "m \<le> 2 ^ 63" "block_len < 2 ^ 63"
  shows "\<exists>r. resolve_hint p (MinAlloc m) block_len = Ret r \<and>
    (case r of
       Inl e \<Rightarrow> e = ZeroUsableSlots \<and> block_len < prev_power_of_two m
     | Inr (min_block, max_order) \<Rightarrow>
         is_power_of_two min_block \<and> m < 2 * min_block \<and> min_block < 2 * m \<and>
         min_block * 2 ^ max_order \<le> block_len \<and> block_len < min_block * 2 ^ Suc max_order)"
  using assms by (rule resolve_hint_cases)

theorem resolve_hint_correct_witness:
  "\<exists>r. resolve_hint Release (MinAlloc 500) 5000 = Ret r \<and>
    (case r of Inl e \<Rightarrow> 5000 < prev_power_of_two 500
     | Inr (min_block, max_order) \<Rightarrow> min_block * 2 ^ max_order \<le> 5000)"
  using resolve_hint_correct [of 500 5000 Release] by (auto split: sum.splits)

text \<open>C40. A hint above \<open>2 ^ 63\<close> has no power of two to round to: the debug profile panics, and in the
  release profile \<open>BuddyHint::resolve\<close> never returns, whatever the backing region.\<close>

theorem resolve_hint_overflow:
  assumes "2 ^ 63 < m"
  shows "resolve_hint Debug (MinAlloc m) block_len = Panic ''attempt to add with overflow'' \<and>
    resolve_hint Release (MinAlloc m) block_len = Diverge"
proof -
  have "\<not> pow2_ceil m < 2 ^ 64" using assms by (subst pow2_ceil_lt_iff) simp
  then show ?thesis
    by (simp add: next_power_of_two_def checked_next_power_of_two_def Let_def run_loop_def
        hint_loop_zero)
qed

theorem resolve_hint_overflow_witness:
  "resolve_hint Release (MinAlloc (2 ^ 63 + 1)) 4096 = Diverge"
  using resolve_hint_overflow [of "2 ^ 63 + 1" 4096] by simp

end
