(* ===== verification/Arena.thy ===== *)
theory Arena
  imports Bitmap Metrics Dealloc Buffer_State Backing_Spec
begin

text \<open>
  The fixed arena, \<^verbatim>\<open>src/src/arena.rs\<close>: page sizes and prefaulting, the initialisation policy, the
  builders, the arena state \<open>ArenaInner\<close> and \<open>FixedArena::allocate\<close>. The memory behind the base
  pointer is part of the state, as a function from offsets to bytes. The release of a slot is
  in the theory \<open>Allocation\<close>, as \<^verbatim>\<open>ArenaRef::release\<close> is in the code.
\<close>

type_synonym mem = "nat \<Rightarrow> u8"

subsection \<open>What the crate calls\<close>

text \<open>
  The functions outside the repository: the \<^verbatim>\<open>zeroize\<close> crate on a byte slice, \<^verbatim>\<open>sysconf\<close>
  for the page size, and the global allocator, which returns an address (zero is the null
  pointer) and memory of arbitrary content.
\<close>

record externals =
  ext_zeroize :: "bytes \<Rightarrow> bytes"
  ext_sysconf_pagesize :: int
  ext_alloc :: "layout \<Rightarrow> nat \<times> mem"

text \<open>The documented behaviour of \<^verbatim>\<open>zeroize\<close>: every byte of the slice becomes zero.\<close>

definition zeroize_ok :: "externals \<Rightarrow> bool" where
  "zeroize_ok E \<longleftrightarrow> (\<forall>xs. ext_zeroize E xs = replicate (length xs) 0)"

subsection \<open>Pages and policies\<close>

datatype PageSize = Unknown | Auto | PageBytes nat

definition os_page_size :: "externals \<Rightarrow> profile \<Rightarrow> nat outcome" where
  "os_page_size E p =
     (let ps = ext_sysconf_pagesize E in
      if p = Debug \<and> \<not> 0 < ps then Panic ''assertion failed: ps > 0''
      else Ret (nat (ps mod 2 ^ 64)))"

fun resolve_page_size :: "externals \<Rightarrow> profile \<Rightarrow> PageSize \<Rightarrow> nat option outcome" where
  "resolve_page_size E p Unknown = Ret None"
| "resolve_page_size E p Auto = obind (os_page_size E p) (\<lambda>ps. Ret (Some ps))"
| "resolve_page_size E p (PageBytes n) = Ret (Some n)"

text \<open>
  The prefault loop; a page size of zero would make it run forever. The offset stays in the
  word because \<open>len\<close> is at most \<open>isize::MAX\<close>.
\<close>

function prefault_from :: "mem \<Rightarrow> nat \<Rightarrow> nat \<Rightarrow> nat \<Rightarrow> mem outcome" where
  "prefault_from m offset len page_size =
     (if offset < len then
        if page_size = 0 then Diverge
        else prefault_from (m(offset := 0)) (offset + page_size) len page_size
      else Ret m)"
  by auto

termination
  by (relation "measure (\<lambda>(m, offset, len, ps). len - offset)") auto

declare prefault_from.simps [simp del]

definition prefault_region :: "mem \<Rightarrow> nat \<Rightarrow> nat \<Rightarrow> mem outcome" where
  "prefault_region m len page_size = prefault_from m 0 len page_size"

text \<open>The slice of \<open>len\<close> bytes at \<open>off\<close>, and the memory after a slice operation on it.\<close>

definition mem_slice :: "mem \<Rightarrow> nat \<Rightarrow> nat \<Rightarrow> bytes" where
  "mem_slice m off len = map m [off..<off + len]"

definition mem_store :: "mem \<Rightarrow> nat \<Rightarrow> nat \<Rightarrow> bytes \<Rightarrow> mem" where
  "mem_store m off len xs = (\<lambda>i. if off \<le> i \<and> i < off + len then xs ! (i - off) else m i)"

definition zeroize_region :: "externals \<Rightarrow> mem \<Rightarrow> nat \<Rightarrow> nat \<Rightarrow> mem" where
  "zeroize_region E m off len = mem_store m off len (ext_zeroize E (mem_slice m off len))"

datatype InitPolicy = Uninit | Zero

record BuildConfig =
  cfg_alignment :: nat
  cfg_auto_spill :: bool
  cfg_init_policy :: InitPolicy
  cfg_page_size :: PageSize

definition new_config :: BuildConfig where
  "new_config = \<lparr>cfg_alignment = 1, cfg_auto_spill = False, cfg_init_policy = Uninit,
                 cfg_page_size = Auto\<rparr>"

definition new_raw_backed :: BuildConfig where
  "new_raw_backed = new_config\<lparr>cfg_page_size := Unknown\<rparr>"

definition validate_alignment :: "BuildConfig \<Rightarrow> BuildError + unit" where
  "validate_alignment c =
     (if \<not> is_power_of_two (cfg_alignment c) then Inl InvalidAlignment else Inr ())"

definition align_up :: "nat \<Rightarrow> nat \<Rightarrow> nat option" where
  "align_up val alignment =
     (case checked_add val (alignment - 1) of
        None \<Rightarrow> None
      | Some rounded \<Rightarrow>
          Some (unat ((word_of_nat rounded :: usize) AND NOT (word_of_nat alignment - 1))))"

subsection \<open>The arena state\<close>

record 'd ArenaInner =
  ai_ptr :: nat
  ai_total_size :: nat
  ai_slot_capacity :: nat
  ai_slot_count :: nat
  ai_bitmap :: AtomicBitmap
  ai_auto_spill :: bool
  ai_init_policy :: InitPolicy
  ai_metrics :: MetricsState
  ai_zeroed_bitmap :: "AtomicBitmap option"
  ai_dealloc :: "'d ErasedDealloc"
  ai_wake_handle :: bool
  ai_mem :: mem

definition drop_ArenaInner :: "'d ArenaInner \<Rightarrow> 'd dealloc_event list outcome" where
  "drop_ArenaInner a = drop_arena (ai_dealloc a) (ai_ptr a) (ai_total_size a)"

definition fixed_metrics :: "'d ArenaInner \<Rightarrow> FixedArenaMetrics" where
  "fixed_metrics a = fixed_snapshot (ai_metrics a)"

text \<open>The zeroing step of an allocation: only under the \<open>Zero\<close> policy, only for a slot that
  was never scrubbed by a release.\<close>

definition zero_slot_on_alloc :: "externals \<Rightarrow> profile \<Rightarrow> 'd ArenaInner \<Rightarrow> nat \<Rightarrow> 'd ArenaInner outcome" where
  "zero_slot_on_alloc E p a slot_idx =
     (case (ai_init_policy a, ai_zeroed_bitmap a) of
        (Zero, Some zeroed_bm) \<Rightarrow>
          obind (all_set_in_range p zeroed_bm slot_idx (slot_idx + 1)) (\<lambda>scrubbed.
            Ret (if scrubbed then a
                 else a\<lparr>ai_mem := zeroize_region E (ai_mem a) (slot_idx * ai_slot_capacity a)
                                   (ai_slot_capacity a)\<rparr>))
      | _ \<Rightarrow> Ret a)"

type_synonym ('h, 'd) fixed_result = "((AllocError + 'h Buffer) \<times> 'd ArenaInner) outcome"

definition allocate_fixed :: "externals \<Rightarrow> profile \<Rightarrow> 'd ArenaInner \<Rightarrow> ('h, 'd) fixed_result" where
  "allocate_fixed E p a =
     obind (try_alloc (ai_bitmap a)) (\<lambda>(claimed, bm).
       let a1 = a\<lparr>ai_bitmap := bm\<rparr> in
       case claimed of
         None \<Rightarrow> Ret (Inl ArenaFull, a1\<lparr>ai_metrics := record_alloc_failure (ai_metrics a1)\<rparr>)
       | Some slot_idx \<Rightarrow>
           (let offset = slot_idx * ai_slot_capacity a1 in
            obind (zero_slot_on_alloc E p a1 slot_idx) (\<lambda>a2.
              Ret (Inr (new_fixed (ai_ptr a2) (ai_auto_spill a2) slot_idx offset (ai_slot_capacity a2)),
                   a2\<lparr>ai_metrics := record_alloc_success (ai_slot_capacity a2) (ai_metrics a2)\<rparr>))))"

subsection \<open>Builders\<close>

record FixedArenaBuilder =
  fb_slot_count :: nat
  fb_slot_capacity :: nat
  fb_config :: BuildConfig

definition with_slot_capacity :: "nat \<Rightarrow> nat \<Rightarrow> FixedArenaBuilder" where
  "with_slot_capacity slot_count slot_capacity =
     \<lparr>fb_slot_count = slot_count, fb_slot_capacity = slot_capacity, fb_config = new_config\<rparr>"

definition with_arena_capacity :: "nat \<Rightarrow> nat \<Rightarrow> FixedArenaBuilder outcome" where
  "with_arena_capacity slot_count arena_capacity =
     (let per_slot = div_ceil arena_capacity slot_count in
      if per_slot = 0 then Panic ''called `Option::unwrap()` on a `None` value''
      else Ret \<lparr>fb_slot_count = slot_count, fb_slot_capacity = per_slot, fb_config = new_config\<rparr>)"

definition set_alignment :: "nat \<Rightarrow> FixedArenaBuilder \<Rightarrow> FixedArenaBuilder" where
  "set_alignment n b = b\<lparr>fb_config := (fb_config b)\<lparr>cfg_alignment := n\<rparr>\<rparr>"

definition set_init_policy :: "InitPolicy \<Rightarrow> FixedArenaBuilder \<Rightarrow> FixedArenaBuilder" where
  "set_init_policy policy b = b\<lparr>fb_config := (fb_config b)\<lparr>cfg_init_policy := policy\<rparr>\<rparr>"

definition set_page_size :: "PageSize \<Rightarrow> FixedArenaBuilder \<Rightarrow> FixedArenaBuilder" where
  "set_page_size policy b = b\<lparr>fb_config := (fb_config b)\<lparr>cfg_page_size := policy\<rparr>\<rparr>"

definition auto_spill :: "FixedArenaBuilder \<Rightarrow> FixedArenaBuilder" where
  "auto_spill b = b\<lparr>fb_config := (fb_config b)\<lparr>cfg_auto_spill := True\<rparr>\<rparr>"

definition zeroed_bitmap_for :: "InitPolicy \<Rightarrow> nat \<Rightarrow> AtomicBitmap option" where
  "zeroed_bitmap_for policy slot_count =
     (case policy of Zero \<Rightarrow> Some (new_empty slot_count) | Uninit \<Rightarrow> None)"

definition build_inner ::
    "externals \<Rightarrow> FixedArenaBuilder \<Rightarrow> bool \<Rightarrow> (BuildError + 'd ArenaInner) outcome" where
  "build_inner E b wake_handle =
     (case validate_alignment (fb_config b) of
        Inl e \<Rightarrow> Ret (Inl e)
      | Inr _ \<Rightarrow>
        (case align_up (fb_slot_capacity b) (cfg_alignment (fb_config b)) of
           None \<Rightarrow> Ret (Inl SizeOverflow)
         | Some aligned_capacity \<Rightarrow>
           (case checked_mul (fb_slot_count b) aligned_capacity of
              None \<Rightarrow> Ret (Inl SizeOverflow)
            | Some total_size \<Rightarrow>
              (case layout_from_size_align total_size (cfg_alignment (fb_config b)) of
                 None \<Rightarrow> Ret (Inl SizeOverflow)
               | Some layout \<Rightarrow>
                 (let (ptr, contents) = ext_alloc E layout in
                  if ptr = 0 then Panic ''memory allocation failed''
                  else Ret (Inr
                    \<lparr>ai_ptr = ptr, ai_total_size = total_size, ai_slot_capacity = aligned_capacity,
                     ai_slot_count = fb_slot_count b, ai_bitmap = new_bitmap (fb_slot_count b),
                     ai_auto_spill = cfg_auto_spill (fb_config b),
                     ai_init_policy = cfg_init_policy (fb_config b),
                     ai_metrics = new_metrics total_size,
                     ai_zeroed_bitmap =
                       zeroed_bitmap_for (cfg_init_policy (fb_config b)) (fb_slot_count b),
                     ai_dealloc = new_erased (HeapDealloc layout), ai_wake_handle = wake_handle,
                     ai_mem = contents\<rparr>))))))"

text \<open>Touching the pages of a finished arena.\<close>

definition prefault_fixed :: "nat option \<Rightarrow> 'd ArenaInner \<Rightarrow> 'd ArenaInner outcome" where
  "prefault_fixed page_size a =
     (case page_size of
        None \<Rightarrow> Ret a
      | Some ps \<Rightarrow>
          obind (prefault_region (ai_mem a) (ai_slot_count a * ai_slot_capacity a) ps)
            (\<lambda>m. Ret (a\<lparr>ai_mem := m\<rparr>)))"

definition build_fixed_with ::
    "externals \<Rightarrow> profile \<Rightarrow> bool \<Rightarrow> FixedArenaBuilder \<Rightarrow> (BuildError + 'd ArenaInner) outcome" where
  "build_fixed_with E p wake_handle b =
     obind (resolve_page_size E p (cfg_page_size (fb_config b))) (\<lambda>page_size.
     obind (build_inner E b wake_handle) (\<lambda>r.
       case r of
         Inl e \<Rightarrow> Ret (Inl e)
       | Inr a \<Rightarrow> obind (prefault_fixed page_size a) (\<lambda>a'. Ret (Inr a'))))"

definition build_fixed ::
    "externals \<Rightarrow> profile \<Rightarrow> FixedArenaBuilder \<Rightarrow> (BuildError + 'd ArenaInner) outcome" where
  "build_fixed E p b = build_fixed_with E p False b"

definition build_fixed_async_with ::
    "externals \<Rightarrow> profile \<Rightarrow> FixedArenaBuilder \<Rightarrow> (BuildError + 'd ArenaInner) outcome" where
  "build_fixed_async_with E p b = build_fixed_with E p True b"

record 'a Unfaulted =
  uf_ptr :: nat
  uf_total_size :: nat
  uf_page_size :: "nat option"
  uf_inner :: 'a

definition build_fixed_unfaulted ::
    "externals \<Rightarrow> profile \<Rightarrow> FixedArenaBuilder \<Rightarrow> (BuildError + 'd ArenaInner Unfaulted) outcome" where
  "build_fixed_unfaulted E p b =
     obind (resolve_page_size E p (cfg_page_size (fb_config b))) (\<lambda>page_size.
     obind (build_inner E b False) (\<lambda>r.
       case r of
         Inl e \<Rightarrow> Ret (Inl e)
       | Inr a \<Rightarrow> Ret (Inr \<lparr>uf_ptr = ai_ptr a, uf_total_size = ai_slot_count a * ai_slot_capacity a,
                          uf_page_size = page_size, uf_inner = a\<rparr>)))"

text \<open>\<open>fault_pages\<close> for any arena type, given how its memory is read and replaced.\<close>

definition fault_pages :: "('a \<Rightarrow> mem) \<Rightarrow> (mem \<Rightarrow> 'a \<Rightarrow> 'a) \<Rightarrow> 'a Unfaulted \<Rightarrow> 'a outcome" where
  "fault_pages get put u =
     (case uf_page_size u of
        None \<Rightarrow> Ret (uf_inner u)
      | Some ps \<Rightarrow>
          obind (prefault_region (get (uf_inner u)) (uf_total_size u) ps)
            (\<lambda>m. Ret (put m (uf_inner u))))"

definition into_inner :: "'a Unfaulted \<Rightarrow> 'a" where
  "into_inner u = uf_inner u"

definition allocate_unfaulted ::
    "externals \<Rightarrow> profile \<Rightarrow> 'd ArenaInner Unfaulted \<Rightarrow>
     (AllocError + 'd ArenaInner \<times> 'h Buffer) outcome" where
  "allocate_unfaulted E p u =
     obind (allocate_fixed E p (into_inner u)) (\<lambda>(r, arena).
       case r of Inl e \<Rightarrow> Ret (Inl e) | Inr buf \<Rightarrow> Ret (Inr (arena, buf)))"

record 'd RawBackedFixedArenaBuilder =
  rf_ptr :: nat
  rf_len :: nat
  rf_spec :: SlotSpec
  rf_dealloc :: "'d Dealloc"
  rf_config :: BuildConfig

definition from_raw_fixed :: "nat \<Rightarrow> nat \<Rightarrow> SlotSpec \<Rightarrow> 'd Dealloc \<Rightarrow> 'd RawBackedFixedArenaBuilder" where
  "from_raw_fixed ptr len spec d =
     \<lparr>rf_ptr = ptr, rf_len = len, rf_spec = spec, rf_dealloc = d, rf_config = new_raw_backed\<rparr>"

definition from_static_fixed :: "nat \<Rightarrow> nat \<Rightarrow> SlotSpec \<Rightarrow> 'd RawBackedFixedArenaBuilder" where
  "from_static_fixed ptr len spec = from_raw_fixed ptr len spec NoDealloc"

definition raw_init_policy ::
    "InitPolicy \<Rightarrow> 'd RawBackedFixedArenaBuilder \<Rightarrow> 'd RawBackedFixedArenaBuilder" where
  "raw_init_policy policy b = b\<lparr>rf_config := (rf_config b)\<lparr>cfg_init_policy := policy\<rparr>\<rparr>"

definition raw_alignment ::
    "nat \<Rightarrow> 'd RawBackedFixedArenaBuilder \<Rightarrow> 'd RawBackedFixedArenaBuilder" where
  "raw_alignment align b = b\<lparr>rf_config := (rf_config b)\<lparr>cfg_alignment := align\<rparr>\<rparr>"

text \<open>The caller's memory content is the argument \<open>contents\<close>.\<close>

definition build_raw_fixed ::
    "externals \<Rightarrow> profile \<Rightarrow> mem \<Rightarrow> 'd RawBackedFixedArenaBuilder \<Rightarrow>
     (BuildError + 'd ArenaInner) outcome" where
  "build_raw_fixed E p contents b =
     (if rf_ptr b = 0 then Ret (Inl NullPointer)
      else
        case validate_alignment (rf_config b) of
          Inl e \<Rightarrow> Ret (Inl e)
        | Inr _ \<Rightarrow>
            obind (resolve_page_size E p (cfg_page_size (rf_config b))) (\<lambda>page_size.
              case resolve_slots (rf_spec b) (rf_len b) (cfg_alignment (rf_config b)) of
                Inl e \<Rightarrow> Ret (Inl e)
              | Inr (slot_count, slot_capacity) \<Rightarrow>
                  obind (prefault_fixed page_size
                    \<lparr>ai_ptr = rf_ptr b, ai_total_size = rf_len b, ai_slot_capacity = slot_capacity,
                     ai_slot_count = slot_count, ai_bitmap = new_bitmap slot_count,
                     ai_auto_spill = False, ai_init_policy = cfg_init_policy (rf_config b),
                     ai_metrics = new_metrics (slot_count * slot_capacity),
                     ai_zeroed_bitmap = zeroed_bitmap_for (cfg_init_policy (rf_config b)) slot_count,
                     ai_dealloc = new_erased (rf_dealloc b), ai_wake_handle = False,
                     ai_mem = contents\<rparr>) (\<lambda>a. Ret (Inr a))))"

subsection \<open>Memory lemmas\<close>

lemma mem_slice_length [simp]: "length (mem_slice m off len) = len"
  by (simp add: mem_slice_def)

lemma mem_slice_nth [simp]: "i < len \<Longrightarrow> mem_slice m off len ! i = m (off + i)"
  by (simp add: mem_slice_def)

lemma mem_slice_cong:
  "(\<And>i. off \<le> i \<Longrightarrow> i < off + len \<Longrightarrow> m i = m' i) \<Longrightarrow> mem_slice m off len = mem_slice m' off len"
  by (auto simp: mem_slice_def)

lemma zeroize_region_outside [simp]:
  "i < off \<or> off + len \<le> i \<Longrightarrow> zeroize_region E m off len i = m i"
  by (auto simp: zeroize_region_def mem_store_def)

lemma zeroize_region_inside:
  "zeroize_ok E \<Longrightarrow> off \<le> i \<Longrightarrow> i < off + len \<Longrightarrow> zeroize_region E m off len i = 0"
  by (simp add: zeroize_region_def mem_store_def zeroize_ok_def)

lemma prefault_from_eq:
  assumes "0 < ps"
  shows "prefault_from m off len ps =
    Ret (\<lambda>i. if off \<le> i \<and> i < len \<and> (i - off) mod ps = 0 then 0 else m i)"
  using assms
proof (induction m off len ps rule: prefault_from.induct)
  case (1 m off len ps)
  show ?case
  proof (cases "off < len")
    case True
    have step: "(off + ps \<le> i \<and> i < len \<and> (i - (off + ps)) mod ps = 0) \<or> i = off \<longleftrightarrow>
        off \<le> i \<and> i < len \<and> (i - off) mod ps = 0" for i
    proof (cases "off + ps \<le> i")
      case True
      then have "i - off = (i - (off + ps)) + ps" by simp
      then have "(i - off) mod ps = (i - (off + ps)) mod ps" by (metis mod_add_self2)
      with True 1(2) show ?thesis by auto
    next
      case False
      then show ?thesis using \<open>off < len\<close> 1(2) by (cases "off \<le> i") (auto simp: mod_less)
    qed
    have "prefault_from m off len ps = prefault_from (m(off := 0)) (off + ps) len ps"
      using True 1(2) by (subst prefault_from.simps) simp
    also have "\<dots> = Ret (\<lambda>i. if off + ps \<le> i \<and> i < len \<and> (i - (off + ps)) mod ps = 0 then 0
        else (m(off := 0)) i)"
      using 1 True by blast
    also have "\<dots> = Ret (\<lambda>i. if off \<le> i \<and> i < len \<and> (i - off) mod ps = 0 then 0 else m i)"
      unfolding step [symmetric] by (intro arg_cong [where f = Ret] ext) simp
    finally show ?thesis .
  qed (auto simp: prefault_from.simps fun_eq_iff)
qed

lemma unat_of_nat_usize: "n < 2 ^ 64 \<Longrightarrow> unat (word_of_nat n :: usize) = n"
  by (simp add: unat_of_nat)

lemma align_up_eq:
  assumes "is_power_of_two a" "a < 2 ^ 64"
  shows "align_up v a = (if v + (a - 1) < 2 ^ 64 then Some ((v + (a - 1)) div a * a) else None)"
proof -
  obtain k where k: "a = 2 ^ k" using assms(1) by (auto simp: is_power_of_two_iff)
  have k64: "k < 64" using assms(2) unfolding k by (rule power_less_imp_less_exp [rotated]) simp
  show ?thesis
    unfolding align_up_def checked_add_def k unat_and_not_mask [OF k64]
    by (cases "v + (2 ^ k - 1) < 2 ^ 64") (simp_all only: if_True if_False option.case unat_of_nat_usize)
qed

text \<open>The aligned size is the least multiple of the alignment that holds the requested size.\<close>

lemma align_up_least:
  fixes a v :: nat
  assumes "0 < a"
  shows "a dvd (v + (a - 1)) div a * a" "v \<le> (v + (a - 1)) div a * a"
    "\<And>c. a dvd c \<Longrightarrow> v \<le> c \<Longrightarrow> (v + (a - 1)) div a * a \<le> c"
proof -
  show "a dvd (v + (a - 1)) div a * a" by (rule dvd_triv_right)
  have "v + (a - 1) < (v + (a - 1)) div a * a + a"
    using dividend_less_div_times [OF assms, of "v + (a - 1)"] by simp
  then show "v \<le> (v + (a - 1)) div a * a" using assms by linarith
  fix c assume "a dvd c" "v \<le> c"
  then obtain q where q: "c = q * a" by (metis dvd_def mult.commute)
  have "v + (a - 1) < Suc q * a" using \<open>v \<le> c\<close> assms q by simp
  then have "(v + (a - 1)) div a < Suc q" using assms by (simp add: div_less_iff_less_mult)
  then show "(v + (a - 1)) div a * a \<le> c" unfolding q by (intro mult_right_mono) auto
qed

subsection \<open>The arena invariant\<close>

text \<open>The bytes of a slot.\<close>

definition slot_region :: "'d ArenaInner \<Rightarrow> nat \<Rightarrow> nat set" where
  "slot_region a s = {s * ai_slot_capacity a ..< s * ai_slot_capacity a + ai_slot_capacity a}"

text \<open>The scrub bitmap exists exactly under the \<open>Zero\<close> policy and covers every slot.\<close>

definition scrub_wf :: "'d ArenaInner \<Rightarrow> bool" where
  "scrub_wf a \<longleftrightarrow>
     (case ai_zeroed_bitmap a of
        None \<Rightarrow> ai_init_policy a = Uninit
      | Some z \<Rightarrow> ai_init_policy a = Zero \<and> bm_inv z \<and> bm_slot_count z = ai_slot_count a)"

text \<open>
  \<open>fixed_inv a L\<close>: \<open>a\<close> is a well-formed arena whose live slots are \<open>L\<close>. The bitmap has exactly
  the other slots free, the slots fit in the backing memory, and the counters account for \<open>L\<close>.
\<close>

definition fixed_inv :: "'d ArenaInner \<Rightarrow> nat set \<Rightarrow> bool" where
  "fixed_inv a L \<longleftrightarrow>
     bm_inv (ai_bitmap a) \<and> bm_slot_count (ai_bitmap a) = ai_slot_count a \<and>
     L \<subseteq> {..<ai_slot_count a} \<and> free_set (ai_bitmap a) = {..<ai_slot_count a} - L \<and>
     0 < ai_slot_capacity a \<and> ai_slot_count a * ai_slot_capacity a \<le> ai_total_size a \<and>
     ai_total_size a < 2 ^ 64 \<and> scrub_wf a \<and>
     ledger (ai_metrics a) (card L) (card L * ai_slot_capacity a)"

text \<open>The promise of the scrub bitmap: a scrubbed slot that is not live holds only zeros.\<close>

definition fixed_scrubbed :: "'d ArenaInner \<Rightarrow> nat set \<Rightarrow> bool" where
  "fixed_scrubbed a L \<longleftrightarrow>
     (\<forall>z s i. ai_zeroed_bitmap a = Some z \<and> s \<in> free_set z \<and> s \<notin> L \<and> i \<in> slot_region a s \<longrightarrow>
        ai_mem a i = 0)"

lemma slot_regions_disjoint:
  assumes "s \<noteq> t"
  shows "slot_region a s \<inter> slot_region a t = {}"
proof -
  have "s * c + c \<le> t * c \<or> t * c + c \<le> s * c" for c
  proof (cases "s < t")
    case True
    then have "Suc s * c \<le> t * c" by (intro mult_right_mono) auto
    then show ?thesis by simp
  next
    case False
    with assms have "Suc t * c \<le> s * c" by (intro mult_right_mono) auto
    then show ?thesis by simp
  qed
  from this [of "ai_slot_capacity a"] show ?thesis by (auto simp: slot_region_def)
qed

lemma slot_region_in_arena:
  assumes "fixed_inv a L" "s < ai_slot_count a"
  shows "slot_region a s \<subseteq> {..<ai_total_size a}"
proof -
  have "Suc s * ai_slot_capacity a \<le> ai_slot_count a * ai_slot_capacity a"
    using assms(2) by (intro mult_right_mono) auto
  with assms(1) have "s * ai_slot_capacity a + ai_slot_capacity a \<le> ai_total_size a"
    by (simp add: fixed_inv_def)
  then show ?thesis by (auto simp: slot_region_def)
qed

lemma fixed_inv_finite: "fixed_inv a L \<Longrightarrow> finite L"
  by (auto simp: fixed_inv_def intro: finite_subset)

lemma fixed_inv_bytes_live:
  assumes "fixed_inv a L"
  shows "unat (ms_bytes_live (ai_metrics a)) = card L * ai_slot_capacity a"
proof -
  have "card L \<le> ai_slot_count a"
    using assms card_mono [of "{..<ai_slot_count a}" L] by (auto simp: fixed_inv_def)
  then have "card L * ai_slot_capacity a \<le> ai_slot_count a * ai_slot_capacity a" by simp
  also have "\<dots> < 2 ^ 64" using assms unfolding fixed_inv_def by linarith
  finally show ?thesis using assms ledger_bytes_live by (auto simp: fixed_inv_def)
qed

lemma scrub_wf_upd [simp]:
  "scrub_wf (a\<lparr>ai_mem := m\<rparr>) = scrub_wf a"
  "scrub_wf (a\<lparr>ai_bitmap := b\<rparr>) = scrub_wf a"
  "scrub_wf (a\<lparr>ai_metrics := ms\<rparr>) = scrub_wf a"
  by (simp_all add: scrub_wf_def split: option.splits)

lemma fixed_inv_mem [simp]: "fixed_inv (a\<lparr>ai_mem := m\<rparr>) L = fixed_inv a L"
  by (simp add: fixed_inv_def)

lemma slot_region_upd [simp]:
  "slot_region (a\<lparr>ai_mem := m\<rparr>) s = slot_region a s"
  "slot_region (a\<lparr>ai_bitmap := b\<rparr>) s = slot_region a s"
  "slot_region (a\<lparr>ai_metrics := ms\<rparr>) s = slot_region a s"
  "slot_region (a\<lparr>ai_zeroed_bitmap := z\<rparr>) s = slot_region a s"
  by (simp_all add: slot_region_def)

text \<open>What no operation changes: the geometry, the policies and the backing memory's owner.\<close>

definition same_fixed :: "'d ArenaInner \<Rightarrow> 'd ArenaInner \<Rightarrow> bool" where
  "same_fixed a a' \<longleftrightarrow>
     ai_ptr a' = ai_ptr a \<and> ai_total_size a' = ai_total_size a \<and>
     ai_slot_capacity a' = ai_slot_capacity a \<and> ai_slot_count a' = ai_slot_count a \<and>
     ai_auto_spill a' = ai_auto_spill a \<and> ai_init_policy a' = ai_init_policy a \<and>
     ai_dealloc a' = ai_dealloc a \<and> ai_wake_handle a' = ai_wake_handle a"

lemma same_fixed_region: "same_fixed a a' \<Longrightarrow> slot_region a' s = slot_region a s"
  by (simp add: same_fixed_def slot_region_def)

text \<open>The scrub promise survives any change confined to slots that are live.\<close>

lemma fixed_scrubbed_frame:
  assumes "fixed_scrubbed a L" "same_fixed a a'" "ai_zeroed_bitmap a' = ai_zeroed_bitmap a" "L \<subseteq> L'"
    "s \<in> L'" "\<forall>i. i \<notin> slot_region a s \<longrightarrow> ai_mem a' i = ai_mem a i"
  shows "fixed_scrubbed a' L'"
  unfolding fixed_scrubbed_def same_fixed_region [OF assms(2)] assms(3)
proof (intro allI impI)
  fix z t i
  assume h: "ai_zeroed_bitmap a = Some z \<and> t \<in> free_set z \<and> t \<notin> L' \<and> i \<in> slot_region a t"
  then have "i \<notin> slot_region a s" using slot_regions_disjoint [of s t a] assms(5) by blast
  moreover have "ai_mem a i = 0" using assms(1,4) h unfolding fixed_scrubbed_def by blast
  ultimately show "ai_mem a' i = 0" using assms(6) by simp
qed

subsection \<open>Allocation\<close>

lemma zero_slot_on_alloc_Ret:
  assumes "scrub_wf a" "s < ai_slot_count a"
  shows "\<exists>m. zero_slot_on_alloc E p a s = Ret (a\<lparr>ai_mem := m\<rparr>) \<and>
    (\<forall>i. i \<notin> slot_region a s \<longrightarrow> m i = ai_mem a i) \<and>
    (ai_init_policy a = Zero \<and> zeroize_ok E \<and> fixed_scrubbed a L \<and> s \<notin> L \<longrightarrow>
       (\<forall>i \<in> slot_region a s. m i = 0))"
proof (cases "ai_zeroed_bitmap a")
  case None
  with assms(1) have "ai_init_policy a = Uninit" by (simp add: scrub_wf_def)
  with None show ?thesis
    by (intro exI [of _ "ai_mem a"]) (simp add: zero_slot_on_alloc_def)
next
  case (Some z)
  with assms have z: "ai_init_policy a = Zero" "bm_inv z" "s < bm_slot_count z"
    by (auto simp: scrub_wf_def)
  then have r: "all_set_in_range p z s (s + 1) = Ret (s \<in> free_set z)"
    by (subst all_set_in_range_Ret) auto
  show ?thesis
  proof (cases "s \<in> free_set z")
    case True
    then show ?thesis using Some z r
      by (intro exI [of _ "ai_mem a"]) (auto simp: zero_slot_on_alloc_def fixed_scrubbed_def)
  next
    case False
    then show ?thesis using Some z r
      by (intro exI [of _ "zeroize_region E (ai_mem a) (s * ai_slot_capacity a) (ai_slot_capacity a)"])
        (auto simp: zero_slot_on_alloc_def slot_region_def zeroize_region_inside)
  qed
qed

lemma allocate_fixed_cases:
  fixes a :: "'d ArenaInner"
  assumes "fixed_inv a L"
  obtains (full) a' where "L = {..<ai_slot_count a}"
      "(allocate_fixed E p a :: ('h, 'd) fixed_result) = Ret (Inl ArenaFull, a')" "fixed_inv a' L"
      "ai_mem a' = ai_mem a" "ai_slot_capacity a' = ai_slot_capacity a"
      "ai_slot_count a' = ai_slot_count a" "ai_zeroed_bitmap a' = ai_zeroed_bitmap a"
      "ai_init_policy a' = ai_init_policy a" "same_fixed a a'"
  | (claimed) s a' where "s < ai_slot_count a" "s \<notin> L"
      "(allocate_fixed E p a :: ('h, 'd) fixed_result) = Ret (Inr (new_fixed (ai_ptr a) (ai_auto_spill a) s
         (s * ai_slot_capacity a) (ai_slot_capacity a)), a')"
      "fixed_inv a' (insert s L)" "\<forall>i. i \<notin> slot_region a s \<longrightarrow> ai_mem a' i = ai_mem a i"
      "ai_slot_capacity a' = ai_slot_capacity a" "ai_slot_count a' = ai_slot_count a"
      "ai_zeroed_bitmap a' = ai_zeroed_bitmap a" "ai_init_policy a' = ai_init_policy a"
      "zeroize_ok E \<Longrightarrow> fixed_scrubbed a L \<Longrightarrow> ai_init_policy a = Zero \<Longrightarrow>
         (\<forall>i \<in> slot_region a s. ai_mem a' i = 0)" "same_fixed a a'"
proof -
  from assms have b: "bm_inv (ai_bitmap a)" by (simp add: fixed_inv_def)
  from b show ?thesis
  proof (cases rule: try_alloc_cases)
    case (full b')
    with assms have "L = {..<ai_slot_count a}" by (auto simp: fixed_inv_def)
    then show ?thesis using full assms
      by (intro that(1) [of "a\<lparr>ai_bitmap := b', ai_metrics := record_alloc_failure (ai_metrics a)\<rparr>"])
        (auto simp: allocate_fixed_def fixed_inv_def same_fixed_def)
  next
    case (claimed s b')
    let ?a1 = "a\<lparr>ai_bitmap := b'\<rparr>"
    let ?m = "\<lambda>m. record_alloc_success (ai_slot_capacity a) m"
    have s: "s < ai_slot_count a" "s \<notin> L" using claimed(1) assms by (auto simp: fixed_inv_def)
    have fin: "finite L" using assms by (rule fixed_inv_finite)
    have L: "ledger (?m (ai_metrics a)) (card (insert s L)) (card (insert s L) * ai_slot_capacity a)"
      using ledger_alloc [of "ai_metrics a" "card L" "card L * ai_slot_capacity a"] assms s(2) fin
      by (simp add: fixed_inv_def add.commute)
    have inv: "fixed_inv (?a1\<lparr>ai_mem := m, ai_metrics := ?m (ai_metrics a)\<rparr>) (insert s L)" for m
      using assms claimed s L by (auto simp: fixed_inv_def)
    have "scrub_wf ?a1" "fixed_scrubbed ?a1 L = fixed_scrubbed a L"
      using assms by (simp_all add: fixed_inv_def fixed_scrubbed_def)
    then obtain m where m: "zero_slot_on_alloc E p ?a1 s = Ret (?a1\<lparr>ai_mem := m\<rparr>)"
      "\<forall>i. i \<notin> slot_region a s \<longrightarrow> m i = ai_mem a i"
      "ai_init_policy a = Zero \<and> zeroize_ok E \<and> fixed_scrubbed a L \<longrightarrow>
       (\<forall>i \<in> slot_region a s. m i = 0)"
      using zero_slot_on_alloc_Ret [of ?a1 s E p L] s by auto
    show ?thesis using s m claimed inv [of m]
      by (intro that(2) [of s "?a1\<lparr>ai_mem := m, ai_metrics := ?m (ai_metrics a)\<rparr>"])
        (auto simp: allocate_fixed_def same_fixed_def)
  qed
qed

subsection \<open>Construction\<close>

text \<open>
  What construction relies on outside the crate: \<^verbatim>\<open>sysconf(_SC_PAGESIZE)\<close> is a positive
  \<^verbatim>\<open>long\<close>, and an allocation failure aborts (\<^verbatim>\<open>handle_alloc_error\<close> does not return), so a
  build that returns saw a non-null pointer.
\<close>

definition sysconf_ok :: "externals \<Rightarrow> bool" where
  "sysconf_ok E \<longleftrightarrow> 0 < ext_sysconf_pagesize E \<and> ext_sysconf_pagesize E < 2 ^ 63"

definition alloc_succeeds :: "externals \<Rightarrow> bool" where
  "alloc_succeeds E \<longleftrightarrow> (\<forall>l. fst (ext_alloc E l) \<noteq> 0)"

text \<open>A concrete instance of the external functions, at which the hypotheses above hold.\<close>

definition sample_externals :: externals where
  "sample_externals = \<lparr>ext_zeroize = (\<lambda>xs. replicate (length xs) 0), ext_sysconf_pagesize = 4096,
     ext_alloc = (\<lambda>l. (65536, \<lambda>i. 7))\<rparr>"

lemma sample_externals_ok:
  "zeroize_ok sample_externals" "sysconf_ok sample_externals" "alloc_succeeds sample_externals"
  by (simp_all add: sample_externals_def zeroize_ok_def sysconf_ok_def alloc_succeeds_def)

fun page_size_ok :: "PageSize \<Rightarrow> bool" where
  "page_size_ok (PageBytes n) = (0 < n)"
| "page_size_ok _ = True"

lemma resolve_page_size_Ret:
  assumes "sysconf_ok E" "page_size_ok ps"
  obtains r where "resolve_page_size E p ps = Ret r" "\<forall>n. r = Some n \<longrightarrow> 0 < n"
proof (cases ps)
  case Auto
  have "0 < nat (ext_sysconf_pagesize E mod 2 ^ 64)" using assms(1) by (auto simp: sysconf_ok_def)
  with Auto assms(1) show ?thesis by (auto simp: os_page_size_def sysconf_ok_def Let_def intro!: that)
qed (use assms(2) in \<open>auto intro!: that\<close>)

lemma prefault_fixed_Ret:
  assumes "\<forall>n. ps = Some n \<longrightarrow> 0 < n"
  shows "\<exists>m. prefault_fixed ps a = Ret (a\<lparr>ai_mem := m\<rparr>) \<and> (ps = None \<longrightarrow> m = ai_mem a)"
  using assms by (cases ps) (auto simp: prefault_fixed_def prefault_region_def prefault_from_eq
      intro: exI [of _ "ai_mem a"])

lemma fixed_inv_fresh:
  assumes "0 < ai_slot_capacity a" "ai_slot_count a * ai_slot_capacity a \<le> ai_total_size a"
    and "ai_total_size a < 2 ^ 64" "ai_bitmap a = new_bitmap (ai_slot_count a)"
    and "ai_metrics a = new_metrics r"
    and "ai_zeroed_bitmap a = zeroed_bitmap_for (ai_init_policy a) (ai_slot_count a)"
  shows "fixed_inv a {}" "fixed_scrubbed a {}"
  using assms by (auto simp: fixed_inv_def scrub_wf_def fixed_scrubbed_def zeroed_bitmap_for_def
      ledger_new split: InitPolicy.splits)

lemma with_arena_capacity_Ret [outcome_simps]:
  assumes "0 < n" "0 < c"
  shows "with_arena_capacity n c = Ret (with_slot_capacity n (div_ceil c n))"
    and "c \<le> n * div_ceil c n"
proof -
  have "0 < div_ceil c n" using div_ceil_less [of n 0 c] assms by simp
  then show "with_arena_capacity n c = Ret (with_slot_capacity n (div_ceil c n))"
    by (simp add: with_arena_capacity_def with_slot_capacity_def)
  show "c \<le> n * div_ceil c n" using div_ceil_le_mult [OF assms(1)] by (simp add: mult.commute)
qed

text \<open>The slot capacity a builder ends up with.\<close>

definition aligned_capacity :: "FixedArenaBuilder \<Rightarrow> nat" where
  "aligned_capacity b =
     (let a = cfg_alignment (fb_config b) in (fb_slot_capacity b + (a - 1)) div a * a)"

lemma aligned_capacity_least:
  assumes "0 < cfg_alignment (fb_config b)"
  shows "cfg_alignment (fb_config b) dvd aligned_capacity b" "fb_slot_capacity b \<le> aligned_capacity b"
    "cfg_alignment (fb_config b) dvd c \<Longrightarrow> fb_slot_capacity b \<le> c \<Longrightarrow> aligned_capacity b \<le> c"
  unfolding aligned_capacity_def Let_def using align_up_least [OF assms] by blast+

lemma build_inner_eq:
  assumes "0 < fb_slot_count b" "0 < fb_slot_capacity b" "cfg_alignment (fb_config b) < 2 ^ 64"
    and "is_power_of_two (cfg_alignment (fb_config b))"
  shows "build_inner E b w =
    (let tot = fb_slot_count b * aligned_capacity b; al = cfg_alignment (fb_config b) in
     if isize_max < tot + (al - 1) then Ret (Inl SizeOverflow)
     else let (ptr, contents) = ext_alloc E (tot, al) in
       if ptr = 0 then Panic ''memory allocation failed''
       else Ret (Inr
         \<lparr>ai_ptr = ptr, ai_total_size = tot, ai_slot_capacity = aligned_capacity b,
          ai_slot_count = fb_slot_count b, ai_bitmap = new_bitmap (fb_slot_count b),
          ai_auto_spill = cfg_auto_spill (fb_config b),
          ai_init_policy = cfg_init_policy (fb_config b), ai_metrics = new_metrics tot,
          ai_zeroed_bitmap = zeroed_bitmap_for (cfg_init_policy (fb_config b)) (fb_slot_count b),
          ai_dealloc = new_erased (HeapDealloc (tot, al)), ai_wake_handle = w,
          ai_mem = contents\<rparr>))"
proof -
  let ?al = "cfg_alignment (fb_config b)"
  let ?tot = "fb_slot_count b * aligned_capacity b"
  have al: "0 < ?al" using assms(4) by (rule is_power_of_two_pos)
  have cap: "fb_slot_capacity b \<le> aligned_capacity b" by (rule aligned_capacity_least(2) [OF al])
  have tot: "aligned_capacity b \<le> ?tot" using assms(1) by simp
  note up = align_up_eq [OF assms(4,3), of "fb_slot_capacity b", folded aligned_capacity_def [unfolded Let_def]]
  consider "isize_max < ?tot + (?al - 1)" | "?tot + (?al - 1) \<le> isize_max" by linarith
  then show ?thesis
  proof cases
    case 1
    then show ?thesis using assms(4) up
      by (auto simp: build_inner_def validate_alignment_def checked_mul_def
          layout_from_size_align_def Let_def split: option.splits)
  next
    case 2
    then have lt: "?tot + (?al - 1) < 2 ^ 64" by (simp add: isize_max_def)
    with cap tot have "fb_slot_capacity b + (?al - 1) < 2 ^ 64" "?tot < 2 ^ 64" by linarith+
    with 2 assms(4) up show ?thesis
      by (simp add: build_inner_def validate_alignment_def checked_mul_def
          layout_from_size_align_def Let_def not_less split: prod.splits)
  qed
qed

text \<open>A builder whose configuration is sound: \<open>build_inner\<close> returns a fresh, well-formed arena.\<close>

lemma build_inner_ok:
  assumes "0 < fb_slot_count b" "0 < fb_slot_capacity b" "cfg_alignment (fb_config b) < 2 ^ 64"
    and pow2: "is_power_of_two (cfg_alignment (fb_config b))" and "alloc_succeeds E"
    and fits: "\<not> isize_max < fb_slot_count b * aligned_capacity b + (cfg_alignment (fb_config b) - 1)"
  obtains a :: "'d ArenaInner" where "build_inner E b w = Ret (Inr a)"
    "\<And>m. fixed_inv (a\<lparr>ai_mem := m\<rparr>) {}" "\<And>m. fixed_scrubbed (a\<lparr>ai_mem := m\<rparr>) {}"
    "ai_slot_count a = fb_slot_count b" "ai_slot_capacity a = aligned_capacity b"
    "ai_total_size a = fb_slot_count b * aligned_capacity b"
    "ai_dealloc a = new_erased (HeapDealloc (ai_total_size a, cfg_alignment (fb_config b)))"
proof -
  let ?al = "cfg_alignment (fb_config b)"
  let ?tot = "fb_slot_count b * aligned_capacity b"
  obtain ptr m where m: "ext_alloc E (?tot, ?al) = (ptr, m)" "ptr \<noteq> 0"
    using assms(5) by (metis alloc_succeeds_def prod.collapse)
  define a :: "'d ArenaInner" where "a = \<lparr>ai_ptr = ptr, ai_total_size = ?tot, ai_slot_capacity = aligned_capacity b,
    ai_slot_count = fb_slot_count b, ai_bitmap = new_bitmap (fb_slot_count b),
    ai_auto_spill = cfg_auto_spill (fb_config b), ai_init_policy = cfg_init_policy (fb_config b),
    ai_metrics = new_metrics ?tot,
    ai_zeroed_bitmap = zeroed_bitmap_for (cfg_init_policy (fb_config b)) (fb_slot_count b),
    ai_dealloc = new_erased (HeapDealloc (?tot, ?al)), ai_wake_handle = w, ai_mem = m\<rparr>"
  have "0 < ?al" using pow2 by (rule is_power_of_two_pos)
  from aligned_capacity_least(2) [OF this] assms(2) have cap: "0 < aligned_capacity b" by linarith
  have lt: "?tot < 2 ^ 64" using fits by (simp add: isize_max_def)
  have "build_inner E b w = Ret (Inr a)"
    using m fits by (simp add: build_inner_eq [OF assms(1-4)] a_def Let_def)
  moreover have "fixed_inv (a\<lparr>ai_mem := m'\<rparr>) {}" "fixed_scrubbed (a\<lparr>ai_mem := m'\<rparr>) {}" for m'
    using cap lt by (rule_tac [!] fixed_inv_fresh) (simp_all add: a_def)
  ultimately show ?thesis by (intro that [of a]) (simp_all add: a_def)
qed

text \<open>C29. A fixed-arena build either fails with \<open>InvalidAlignment\<close> for an alignment that is not a power
  of two, or with \<open>SizeOverflow\<close> exactly when the aligned arena exceeds \<open>isize::MAX\<close>, or returns a
  well-formed arena with no live slot whose slots are the requested capacity rounded up to the
  alignment, and whose backing memory will be freed with the layout it was allocated with.\<close>

theorem build_fixed_correct:
  assumes "0 < fb_slot_count b" "0 < fb_slot_capacity b" "cfg_alignment (fb_config b) < 2 ^ 64"
    and "page_size_ok (cfg_page_size (fb_config b))" "sysconf_ok E" "alloc_succeeds E"
  shows "\<exists>r. build_fixed E p b = Ret r \<and>
    (case r of
       Inl e \<Rightarrow> e = (if is_power_of_two (cfg_alignment (fb_config b)) then SizeOverflow
                    else InvalidAlignment) \<and>
               (is_power_of_two (cfg_alignment (fb_config b)) \<longrightarrow>
                  isize_max < fb_slot_count b * aligned_capacity b + (cfg_alignment (fb_config b) - 1))
     | Inr a \<Rightarrow>
         fixed_inv a {} \<and> fixed_scrubbed a {} \<and> ai_slot_count a = fb_slot_count b \<and>
         cfg_alignment (fb_config b) dvd ai_slot_capacity a \<and>
         fb_slot_capacity b \<le> ai_slot_capacity a \<and>
         (\<forall>c. cfg_alignment (fb_config b) dvd c \<and> fb_slot_capacity b \<le> c \<longrightarrow> ai_slot_capacity a \<le> c) \<and>
         ai_total_size a = fb_slot_count b * ai_slot_capacity a \<and>
         ai_dealloc a = new_erased (HeapDealloc (ai_total_size a, cfg_alignment (fb_config b))))"
proof -
  let ?al = "cfg_alignment (fb_config b)"
  obtain ps where ps: "resolve_page_size E p (cfg_page_size (fb_config b)) = Ret ps"
      "\<forall>n. ps = Some n \<longrightarrow> 0 < n"
    using resolve_page_size_Ret [OF assms(5,4)] by metis
  consider "\<not> is_power_of_two ?al"
    | "is_power_of_two ?al" "isize_max < fb_slot_count b * aligned_capacity b + (?al - 1)"
    | "is_power_of_two ?al" "\<not> isize_max < fb_slot_count b * aligned_capacity b + (?al - 1)" by blast
  then show ?thesis
  proof cases
    case 3
    then have al: "0 < ?al" by (simp add: is_power_of_two_pos)
    obtain a :: "'a ArenaInner" where a: "build_inner E b False = Ret (Inr a)"
      "\<And>m. fixed_inv (a\<lparr>ai_mem := m\<rparr>) {}" "\<And>m. fixed_scrubbed (a\<lparr>ai_mem := m\<rparr>) {}"
      "ai_slot_count a = fb_slot_count b" "ai_slot_capacity a = aligned_capacity b"
      "ai_total_size a = fb_slot_count b * aligned_capacity b"
      "ai_dealloc a = new_erased (HeapDealloc (ai_total_size a, ?al))"
      using build_inner_ok [OF assms(1-3) 3(1) assms(6) 3(2)] by metis
    obtain m where "prefault_fixed ps a = Ret (a\<lparr>ai_mem := m\<rparr>)"
      using prefault_fixed_Ret [OF ps(2)] by blast
    with a ps(1) aligned_capacity_least [OF al] show ?thesis
      by (auto simp: build_fixed_def build_fixed_with_def)
  next
    case 1
    with ps(1) show ?thesis
      by (simp add: build_fixed_def build_fixed_with_def build_inner_def validate_alignment_def)
  next
    case 2
    with ps(1) show ?thesis
      by (simp add: build_fixed_def build_fixed_with_def build_inner_eq [OF assms(1-3)] Let_def)
  qed
qed

theorem build_fixed_correct_witness:
  "\<exists>r. build_fixed sample_externals Release (set_alignment 64 (with_slot_capacity 4 100)) = Ret r \<and>
     (case r of Inl e \<Rightarrow> isize_max < 4 * 128 + 63
      | Inr a \<Rightarrow> fixed_inv (a :: unit ArenaInner) {} \<and> 100 \<le> ai_slot_capacity a)"
proof -
  let ?b = "set_alignment 64 (with_slot_capacity 4 100)"
  have b: "fb_slot_count ?b = 4" "fb_slot_capacity ?b = 100" "cfg_alignment (fb_config ?b) = 64"
    "cfg_page_size (fb_config ?b) = Auto"
    by (simp_all add: set_alignment_def with_slot_capacity_def new_config_def)
  have pow2: "is_power_of_two 64" by (simp add: is_power_of_two_def count_ones.simps)
  from build_fixed_correct [of ?b sample_externals Release, where ?'a = unit] b sample_externals_ok pow2
  show ?thesis by (auto simp: aligned_capacity_def Let_def split: sum.splits)
qed

text \<open>C30. A fixed arena built over caller memory never writes to that memory: it either rejects a null
  pointer, a bad alignment or a slot specification that does not fit, or returns a well-formed arena
  with the slots that specification resolves to, the caller's bytes unchanged, and the caller's
  deallocation strategy stored.\<close>

theorem build_raw_fixed_correct:
  fixes d :: "'d Dealloc" and ptr :: nat and policy :: InitPolicy
  assumes "0 < spec_arg spec" "spec_arg spec < 2 ^ 64" "len \<le> isize_max" "align < 2 ^ 64"
  defines "b \<equiv> raw_alignment align (raw_init_policy policy (from_raw_fixed ptr len spec d))"
  shows "\<exists>r. build_raw_fixed E p contents b = Ret r \<and>
    (case r of
       Inl e \<Rightarrow> e = NullPointer \<and> ptr = 0 \<or> e = InvalidAlignment \<and> \<not> is_power_of_two align \<or>
               resolve_slots spec len align = Inl e
     | Inr a \<Rightarrow> fixed_inv a {} \<and> fixed_scrubbed a {} \<and> ai_mem a = contents \<and>
               ai_init_policy a = policy \<and> ai_ptr a = ptr \<and> ai_total_size a = len \<and>
               resolve_slots spec len align = Inr (ai_slot_count a, ai_slot_capacity a) \<and>
               ai_dealloc a = new_erased d)"
proof -
  have b: "rf_ptr b = ptr" "rf_len b = len" "rf_spec b = spec" "rf_dealloc b = d"
    "cfg_alignment (rf_config b) = align" "cfg_init_policy (rf_config b) = policy"
    "cfg_page_size (rf_config b) = Unknown"
    by (simp_all add: b_def raw_alignment_def raw_init_policy_def from_raw_fixed_def
        new_raw_backed_def)
  have len: "len < 2 ^ 64" using assms(3) by (simp add: isize_max_def)
  show ?thesis
  proof (cases "ptr = 0 \<or> \<not> is_power_of_two align")
    case True
    then show ?thesis using b by (auto simp: build_raw_fixed_def validate_alignment_def)
  next
    case False
    then have ok: "ptr \<noteq> 0" "is_power_of_two align" by auto
    show ?thesis
    proof (cases "resolve_slots spec len align")
      case (Inl e)
      with ok b show ?thesis by (simp add: build_raw_fixed_def validate_alignment_def)
    next
      case (Inr r)
      obtain n c where r: "r = (n, c)" by (cases r)
      have "0 < c \<and> n * c \<le> len"
        using resolve_slots_bounds [OF assms(1,2) len ok(2) assms(4)] Inr r by auto
      with Inr r ok b len show ?thesis
        by (auto simp: build_raw_fixed_def validate_alignment_def prefault_fixed_def
            intro!: fixed_inv_fresh)
    qed
  qed
qed

theorem build_raw_fixed_correct_witness:
  "\<exists>r. build_raw_fixed sample_externals Debug (\<lambda>i. 9)
        (raw_alignment 64 (raw_init_policy Zero (from_raw_fixed 4096 1000 (Count 3) (CustomDealloc ())))) =
        Ret r \<and>
     (case r of Inl e \<Rightarrow> resolve_slots (Count 3) 1000 64 = Inl e
      | Inr a \<Rightarrow> fixed_inv a {} \<and> ai_mem a = (\<lambda>i. 9))"
proof -
  have "is_power_of_two 64" by (simp add: is_power_of_two_def count_ones.simps)
  then show ?thesis
    using build_raw_fixed_correct [of "Count 3" 1000 64 sample_externals Debug "\<lambda>i. 9" Zero 4096
          "CustomDealloc ()"]
    by (auto simp: isize_max_def split: sum.splits)
qed

end
