(* ===== verification/Geometry.thy ===== *)
theory Geometry
  imports Errors
begin

text \<open>
  Buddy geometry, \<^verbatim>\<open>src/src/geometry.rs\<close>: the validated record and its three constructors.
  \<open>geometry_ok\<close> is the guarantee the type documents; the lemmas show that every constructor
  establishes it, when each of them fails, and that \<open>nearest\<close> rounds up as little as possible.
  A \<^verbatim>\<open>NonZeroUsize\<close> is a \<open>nat\<close> that lemmas assume to be positive and below \<open>2 ^ 64\<close>.
\<close>

subsection \<open>The record and its constructors\<close>

record BuddyGeometry =
  bg_total_size :: nat
  bg_min_block_size :: nat
  bg_max_order :: nat
  bg_alignment :: nat
  bg_cap_capacity :: bool

definition validate_buddy_geometry :: "nat \<Rightarrow> nat \<Rightarrow> nat option" where
  "validate_buddy_geometry total_size min_block_size =
     (if \<not> is_power_of_two min_block_size then None
      else if total_size < min_block_size then None
      else if total_size mod min_block_size \<noteq> 0 then None
      else
        let blocks = total_size div min_block_size in
        if \<not> is_power_of_two blocks then None
        else
          let max_order = trailing_zeros blocks in
          if 64 \<le> max_order then None else Some max_order)"

definition snap_to_valid_geometry :: "nat \<Rightarrow> nat \<Rightarrow> BuildError + (nat \<times> nat)" where
  "snap_to_valid_geometry total_hint min_block =
     (let t = max total_hint min_block in
      case checked_add t (min_block - 1) of
        None \<Rightarrow> Inl SizeOverflow
      | Some s \<Rightarrow>
          (let blocks = s div min_block in
           case checked_next_power_of_two blocks of
             None \<Rightarrow> Inl SizeOverflow
           | Some pow2_blocks \<Rightarrow>
               (case checked_mul pow2_blocks min_block of
                  None \<Rightarrow> Inl SizeOverflow
                | Some total_size \<Rightarrow> Inr (total_size, trailing_zeros pow2_blocks))))"

definition exact :: "nat \<Rightarrow> nat \<Rightarrow> BuildError + BuddyGeometry" where
  "exact total_size min_block_size =
     (case validate_buddy_geometry total_size min_block_size of
        None \<Rightarrow> Inl InvalidGeometry
      | Some max_order \<Rightarrow>
          Inr \<lparr>bg_total_size = total_size, bg_min_block_size = min_block_size,
               bg_max_order = max_order, bg_alignment = 1, bg_cap_capacity = False\<rparr>)"

definition nearest :: "nat \<Rightarrow> nat \<Rightarrow> BuildError + BuddyGeometry" where
  "nearest total_size min_block_size =
     (case checked_next_power_of_two min_block_size of
        None \<Rightarrow> Inl SizeOverflow
      | Some min_block \<Rightarrow>
          (case snap_to_valid_geometry total_size min_block of
             Inl e \<Rightarrow> Inl e
           | Inr (tot, max_order) \<Rightarrow>
               Inr \<lparr>bg_total_size = tot, bg_min_block_size = min_block,
                    bg_max_order = max_order, bg_alignment = 1, bg_cap_capacity = True\<rparr>))"

definition with_alignment :: "BuddyGeometry \<Rightarrow> nat \<Rightarrow> BuildError + BuddyGeometry" where
  "with_alignment g a =
     (if \<not> is_power_of_two a then Inl InvalidAlignment
      else if a \<le> bg_min_block_size g then Inr (g\<lparr>bg_alignment := a\<rparr>)
      else if \<not> bg_cap_capacity g then Inl InvalidGeometry
      else
        (case snap_to_valid_geometry (bg_total_size g) a of
           Inl e \<Rightarrow> Inl e
         | Inr (tot, max_order) \<Rightarrow>
             Inr \<lparr>bg_total_size = tot, bg_min_block_size = a, bg_max_order = max_order,
                  bg_alignment = a, bg_cap_capacity = bg_cap_capacity g\<rparr>))"

subsection \<open>Valid geometries\<close>

definition geometry_ok :: "BuddyGeometry \<Rightarrow> bool" where
  "geometry_ok g \<longleftrightarrow>
     is_power_of_two (bg_min_block_size g) \<and>
     bg_total_size g = bg_min_block_size g * 2 ^ bg_max_order g \<and>
     bg_total_size g < 2 ^ 64 \<and>
     is_power_of_two (bg_alignment g) \<and> bg_alignment g \<le> bg_min_block_size g"

lemma geometry_ok_max_order: "geometry_ok g \<Longrightarrow> bg_max_order g < 64"
proof -
  assume g: "geometry_ok g"
  then have pos: "0 < bg_min_block_size g" by (simp add: geometry_ok_def is_power_of_two_pos)
  then have "(2::nat) ^ bg_max_order g \<le> bg_min_block_size g * 2 ^ bg_max_order g" by simp
  also from g have "\<dots> < 2 ^ 64" by (simp add: geometry_ok_def)
  finally show ?thesis by (rule power_less_imp_less_exp [rotated]) simp
qed

lemma validate_Some_iff:
  assumes "t < 2 ^ 64"
  shows "validate_buddy_geometry t m = Some n \<longleftrightarrow> is_power_of_two m \<and> t = m * 2 ^ n"
proof
  assume v: "validate_buddy_geometry t m = Some n"
  then have m: "is_power_of_two m" and "t mod m = 0" and "is_power_of_two (t div m)"
    and n: "n = trailing_zeros (t div m)"
    by (auto simp: validate_buddy_geometry_def Let_def split: if_splits)
  then obtain j where j: "t div m = 2 ^ j" by (auto simp: is_power_of_two_iff)
  with n have "n = j" by simp
  moreover have "t = m * (t div m)" using \<open>t mod m = 0\<close> by auto
  ultimately show "is_power_of_two m \<and> t = m * 2 ^ n" using m j by simp
next
  assume a: "is_power_of_two m \<and> t = m * 2 ^ n"
  then have m: "0 < m" by (simp add: is_power_of_two_pos)
  then have "(2::nat) ^ n \<le> m * 2 ^ n" by simp
  with a assms have "(2::nat) ^ n < 2 ^ 64" by linarith
  then have "n < 64" by (rule power_less_imp_less_exp [rotated]) simp
  with a m show "validate_buddy_geometry t m = Some n"
    by (simp add: validate_buddy_geometry_def)
qed

text \<open>Rounding the number of blocks up is rounding the number of bytes up.\<close>

lemma pow2_ceil_blocks:
  assumes "2 ^ k \<le> t"
  shows "pow2_ceil ((t + (2 ^ k - 1)) div 2 ^ k) * 2 ^ k = pow2_ceil t"
proof -
  let ?b = "(t + (2 ^ k - 1)) div 2 ^ k"
  have d: "0 < (2::nat) ^ k" by simp
  have le_iff: "?b \<le> q \<longleftrightarrow> t \<le> q * 2 ^ k" for q
  proof -
    have "?b \<le> q \<longleftrightarrow> t + (2 ^ k - 1) < Suc q * 2 ^ k"
      by (simp add: div_less_iff_less_mult less_Suc_eq_le [symmetric])
    also have "\<dots> \<longleftrightarrow> t \<le> q * 2 ^ k"
      using d unfolding mult_Suc by linarith
    finally show ?thesis .
  qed
  obtain j where j: "pow2_ceil ?b = 2 ^ j" using pow2_ceil_is_pow2 by blast
  obtain i where i: "pow2_ceil t = 2 ^ i" using pow2_ceil_is_pow2 by blast
  have "t \<le> 2 ^ j * 2 ^ k" using le_iff pow2_ceil_ge [of ?b] j by metis
  then have le: "pow2_ceil t \<le> 2 ^ (j + k)" by (intro pow2_ceil_least) (simp add: power_add)
  have "(2::nat) ^ k \<le> 2 ^ i" using assms pow2_ceil_ge [of t] i by linarith
  then have ki: "k \<le> i" by simp
  have "t \<le> 2 ^ (i - k) * 2 ^ k" using pow2_ceil_ge [of t] i ki by (simp flip: power_add)
  then have "?b \<le> 2 ^ (i - k)" using le_iff by blast
  then have "2 ^ j \<le> (2::nat) ^ (i - k)" using pow2_ceil_least j by metis
  then have "j + k \<le> i" using ki by simp
  with le i j show ?thesis by (simp add: power_add [symmetric])
qed

text \<open>\<open>snap_to_valid_geometry\<close> rounds the total up to a power of two, or overflows.\<close>

lemma snap_to_valid_geometry_eq:
  assumes m: "m = 2 ^ k" and k: "k < 64" and t: "t < 2 ^ 64"
  shows "snap_to_valid_geometry t m =
    (if t \<le> 2 ^ 63
     then Inr (pow2_ceil (max t m), trailing_zeros (pow2_ceil (max t m) div m))
     else Inl SizeOverflow)"
proof -
  let ?t = "max t m"
  let ?b = "(?t + (m - 1)) div m"
  have m63: "m \<le> 2 ^ 63" unfolding m using k by (intro power_increasing) auto
  have blocks: "pow2_ceil ?b * m = pow2_ceil ?t"
    unfolding m by (rule pow2_ceil_blocks) (simp add: m)
  have mpos: "0 < m" by (simp add: m)
  have quot: "pow2_ceil ?t div m = pow2_ceil ?b" using blocks mpos by (metis div_mult_self_is_m)
  show ?thesis
  proof (cases "t \<le> 2 ^ 63")
    case True
    with m63 have small: "pow2_ceil ?t < 2 ^ 64" by (subst pow2_ceil_lt_iff) simp
    have "?t + (m - 1) < 2 ^ 64" using True m63 mpos by auto
    moreover have "pow2_ceil ?b \<le> pow2_ceil ?b * m" using mpos by simp
    then have "pow2_ceil ?b < 2 ^ 64" using small blocks by linarith
    ultimately show ?thesis using True small blocks quot
      by (simp add: snap_to_valid_geometry_def checked_add_def checked_mul_def
          checked_next_power_of_two_def Let_def)
  next
    case False
    then have "\<not> pow2_ceil ?t < 2 ^ 64" by (subst pow2_ceil_lt_iff) simp
    with False blocks show ?thesis
      by (auto simp: snap_to_valid_geometry_def checked_add_def checked_mul_def
          checked_next_power_of_two_def Let_def)
  qed
qed

lemma snap_max_order:
  assumes "m = 2 ^ k"
  shows "m * 2 ^ trailing_zeros (pow2_ceil (max t m) div m) = pow2_ceil (max t m)"
proof -
  obtain i where i: "pow2_ceil (max t m) = 2 ^ i" using pow2_ceil_is_pow2 by blast
  have "(2::nat) ^ k \<le> 2 ^ i" using pow2_ceil_ge [of "max t m"] i assms by simp
  then have "k \<le> i" by simp
  then show ?thesis unfolding i unfolding assms by (simp flip: power_add power_diff)
qed

lemma pow2_ceil_max: "pow2_ceil (max t (pow2_ceil m)) = pow2_ceil (max t m)"
proof (rule antisym)
  obtain i where i: "pow2_ceil (max t m) = 2 ^ i" using pow2_ceil_is_pow2 by blast
  have "max t (pow2_ceil m) \<le> 2 ^ i"
    using pow2_ceil_ge [of "max t m"] pow2_ceil_mono [of m "max t m"] i by simp
  then show "pow2_ceil (max t (pow2_ceil m)) \<le> pow2_ceil (max t m)"
    unfolding i by (rule pow2_ceil_least)
  show "pow2_ceil (max t m) \<le> pow2_ceil (max t (pow2_ceil m))"
    using pow2_ceil_ge [of m] by (intro pow2_ceil_mono) simp
qed

lemma nearest_eq:
  assumes "t < 2 ^ 64"
  shows "nearest t m =
    (if t \<le> 2 ^ 63 \<and> m \<le> 2 ^ 63
     then Inr \<lparr>bg_total_size = pow2_ceil (max t m), bg_min_block_size = pow2_ceil m,
               bg_max_order = trailing_zeros (pow2_ceil (max t m) div pow2_ceil m),
               bg_alignment = 1, bg_cap_capacity = True\<rparr>
     else Inl SizeOverflow)"
proof (cases "m \<le> 2 ^ 63")
  case True
  then have lt: "pow2_ceil m < 2 ^ 64" by (simp only: pow2_ceil_lt_iff)
  obtain k where k: "pow2_ceil m = 2 ^ k" using pow2_ceil_is_pow2 by blast
  have "k < 64" using lt unfolding k by (rule power_less_imp_less_exp [rotated]) simp
  from snap_to_valid_geometry_eq [OF k this assms] lt True show ?thesis
    by (simp add: nearest_def checked_next_power_of_two_def pow2_ceil_max)
next
  case False
  then have "\<not> pow2_ceil m < 2 ^ 64" by (simp only: pow2_ceil_lt_iff) simp
  with False show ?thesis by (simp add: nearest_def checked_next_power_of_two_def)
qed

lemma geometry_ok_rounded:
  assumes "pow2_ceil (max t m) < 2 ^ 64" "is_power_of_two a" "a \<le> pow2_ceil m"
  shows "geometry_ok \<lparr>bg_total_size = pow2_ceil (max t m), bg_min_block_size = pow2_ceil m,
               bg_max_order = trailing_zeros (pow2_ceil (max t m) div pow2_ceil m),
               bg_alignment = a, bg_cap_capacity = c\<rparr>"
proof -
  obtain k where k: "pow2_ceil m = 2 ^ k" using pow2_ceil_is_pow2 by blast
  from snap_max_order [OF k, of t] assms show ?thesis
    by (simp add: geometry_ok_def pow2_ceil_max) (simp add: k)
qed

lemma geometry_ok_total_le: "geometry_ok g \<Longrightarrow> bg_total_size g \<le> 2 ^ 63"
proof -
  assume g: "geometry_ok g"
  then obtain k where "bg_total_size g = 2 ^ (k + bg_max_order g)"
    by (auto simp: geometry_ok_def is_power_of_two_iff power_add)
  then have "pow2_ceil (bg_total_size g) = bg_total_size g" by (simp only: pow2_ceil_pow2)
  moreover have "bg_total_size g < 2 ^ 64" using g unfolding geometry_ok_def by blast
  ultimately show ?thesis using pow2_ceil_lt_iff [of "bg_total_size g"] by metis
qed

lemma geometry_ok_pow2_bounds:
  assumes "geometry_ok g" "m \<le> bg_min_block_size g" "t \<le> bg_total_size g"
  shows "pow2_ceil m \<le> bg_min_block_size g" "pow2_ceil (max t m) \<le> bg_total_size g"
proof -
  from assms obtain k where k: "bg_min_block_size g = 2 ^ k"
      and tot: "bg_total_size g = 2 ^ (k + bg_max_order g)"
    by (auto simp: geometry_ok_def is_power_of_two_iff power_add)
  show "pow2_ceil m \<le> bg_min_block_size g" using assms(2) unfolding k by (rule pow2_ceil_least)
  have "(2::nat) ^ k \<le> 2 ^ (k + bg_max_order g)" by (rule power_increasing) auto
  with assms(2,3) k tot have "max t m \<le> 2 ^ (k + bg_max_order g)" by linarith
  then show "pow2_ceil (max t m) \<le> bg_total_size g" unfolding tot by (rule pow2_ceil_least)
qed

lemma with_alignment_eq:
  assumes g: "geometry_ok g" and a: "a < 2 ^ 64"
  shows "with_alignment g a =
    (if \<not> is_power_of_two a then Inl InvalidAlignment
     else if a \<le> bg_min_block_size g then Inr (g\<lparr>bg_alignment := a\<rparr>)
     else if \<not> bg_cap_capacity g then Inl InvalidGeometry
     else Inr \<lparr>bg_total_size = pow2_ceil (max (bg_total_size g) a), bg_min_block_size = a,
               bg_max_order = trailing_zeros (pow2_ceil (max (bg_total_size g) a) div a),
               bg_alignment = a, bg_cap_capacity = True\<rparr>)"
proof (cases "is_power_of_two a")
  case True
  then obtain k where k: "a = 2 ^ k" by (auto simp: is_power_of_two_iff)
  have "k < 64" using a unfolding k by (rule power_less_imp_less_exp [rotated]) simp
  from snap_to_valid_geometry_eq [OF k this, of "bg_total_size g"] g geometry_ok_total_le [OF g] True
  show ?thesis by (simp add: with_alignment_def geometry_ok_def)
qed (simp add: with_alignment_def)

subsection \<open>What the constructors guarantee\<close>

text \<open>C37. \<open>BuddyGeometry::exact\<close> accepts a pair exactly when the minimum block is a power of two and
  the total a power-of-two multiple of it; the geometry it returns keeps both sizes, and every
  rejection is \<open>InvalidGeometry\<close>.\<close>

theorem exact_correct:
  assumes "t < 2 ^ 64"
  shows "(\<forall>g. exact t m = Inr g \<longleftrightarrow>
      geometry_ok g \<and> bg_total_size g = t \<and> bg_min_block_size g = m \<and> bg_alignment g = 1 \<and>
      \<not> bg_cap_capacity g)
   \<and> (exact t m = Inl InvalidGeometry \<longleftrightarrow> \<not> (is_power_of_two m \<and> (\<exists>n. t = m * 2 ^ n)))"
proof (cases "validate_buddy_geometry t m")
  case None
  then have "\<not> (is_power_of_two m \<and> (\<exists>n. t = m * 2 ^ n))"
    using validate_Some_iff [OF assms, of m] by auto
  with None show ?thesis by (auto simp: exact_def geometry_ok_def)
next
  case (Some n)
  then have v: "is_power_of_two m" "t = m * 2 ^ n" using validate_Some_iff [OF assms] by auto
  then have m: "0 < m" "Suc 0 \<le> m" using is_power_of_two_pos by (simp_all add: Suc_leI)
  have g: "geometry_ok \<lparr>bg_total_size = t, bg_min_block_size = m, bg_max_order = n,
      bg_alignment = 1, bg_cap_capacity = False\<rparr>"
    using v m assms is_power_of_two_pow2 [of 0]
    unfolding geometry_ok_def by (simp del: is_power_of_two_pow2)
  have n: "bg_max_order h = n" if "geometry_ok h" "bg_total_size h = t" "bg_min_block_size h = m" for h
    using that v(2) m(1) by (simp add: geometry_ok_def)
  show ?thesis using Some v g n by (auto simp: exact_def)
qed

theorem exact_correct_witness:
  "exact 4096 512 = Inr \<lparr>bg_total_size = 4096, bg_min_block_size = 512, bg_max_order = 3,
     bg_alignment = 1, bg_cap_capacity = False\<rparr>"
proof -
  let ?g = "\<lparr>bg_total_size = 4096, bg_min_block_size = 512, bg_max_order = 3,
     bg_alignment = 1, bg_cap_capacity = False\<rparr>"
  have "geometry_ok ?g" by (simp add: geometry_ok_def is_power_of_two_def count_ones.simps)
  with exact_correct [of 4096 512, THEN conjunct1, THEN spec, of ?g] show ?thesis by simp
qed

text \<open>C38. \<open>BuddyGeometry::nearest\<close> returns the smallest valid geometry at least as large as both hints,
  and fails with \<open>SizeOverflow\<close> exactly when a hint exceeds the largest power of two.\<close>

theorem nearest_correct:
  assumes "0 < t" "t < 2 ^ 64" "0 < m" "m < 2 ^ 64"
  shows "(nearest t m = Inl SizeOverflow \<longleftrightarrow> 2 ^ 63 < t \<or> 2 ^ 63 < m) \<and>
    (t \<le> 2 ^ 63 \<and> m \<le> 2 ^ 63 \<longrightarrow>
      (\<exists>g. nearest t m = Inr g \<and> geometry_ok g \<and> t \<le> bg_total_size g \<and> m \<le> bg_min_block_size g \<and>
         (\<forall>h. geometry_ok h \<and> t \<le> bg_total_size h \<and> m \<le> bg_min_block_size h \<longrightarrow>
            bg_total_size g \<le> bg_total_size h \<and> bg_min_block_size g \<le> bg_min_block_size h)))"
proof -
  have ge: "t \<le> pow2_ceil (max t m)" using pow2_ceil_ge [of "max t m"] by simp
  have lt: "pow2_ceil (max t m) < 2 ^ 64" if "t \<le> 2 ^ 63" "m \<le> 2 ^ 63"
    using that by (subst pow2_ceil_lt_iff) simp
  have one: "Suc 0 \<le> pow2_ceil m" using pow2_ceil_pos [of m] by linarith
  show ?thesis
    using nearest_eq [OF assms(2), of m] geometry_ok_rounded [of t m 1 True] ge lt one
      pow2_ceil_ge [of m] geometry_ok_pow2_bounds is_power_of_two_pow2 [of 0]
    by (auto simp del: is_power_of_two_pow2)
qed

theorem nearest_correct_witness:
  "\<exists>g. nearest 6000 768 = Inr g \<and> geometry_ok g \<and> 6000 \<le> bg_total_size g"
  using nearest_correct [of 6000 768] by auto

text \<open>\<open>with_alignment\<close> on a valid geometry never overflows: it fails only for an alignment that is
  not a power of two or that exceeds the minimum block of an exact geometry; otherwise the result is
  a valid geometry with that alignment, at least as large as before.\<close>

theorem with_alignment_correct:
  assumes "geometry_ok g" "0 < a" "a < 2 ^ 64"
  shows "case with_alignment g a of
      Inl e \<Rightarrow> (e = InvalidAlignment \<and> \<not> is_power_of_two a) \<or>
               (e = InvalidGeometry \<and> bg_min_block_size g < a \<and> \<not> bg_cap_capacity g)
    | Inr h \<Rightarrow> geometry_ok h \<and> bg_alignment h = a \<and> bg_cap_capacity h = bg_cap_capacity g \<and>
               bg_min_block_size h = max (bg_min_block_size g) a \<and>
               bg_total_size g \<le> bg_total_size h"
proof (cases "is_power_of_two a")
  case True
  then obtain k where k: "a = 2 ^ k" by (auto simp: is_power_of_two_iff)
  then have a: "pow2_ceil a = a" by simp
  have "a \<le> 2 ^ 63" using assms(3) pow2_ceil_lt_iff [of a] a by simp
  with geometry_ok_total_le [OF assms(1)] have lt: "pow2_ceil (max (bg_total_size g) a) < 2 ^ 64"
    by (subst pow2_ceil_lt_iff) simp
  have ge: "bg_total_size g \<le> pow2_ceil (max (bg_total_size g) a)"
    using pow2_ceil_ge [of "max (bg_total_size g) a"] by simp
  from assms(1) have upd: "a \<le> bg_min_block_size g \<Longrightarrow> geometry_ok (g\<lparr>bg_alignment := a\<rparr>)"
    using True by (simp add: geometry_ok_def)
  show ?thesis
    using with_alignment_eq [OF assms(1,3)] geometry_ok_rounded [OF lt True, of True] True a ge upd
    by auto
qed (use with_alignment_eq [OF assms(1,3)] in simp)

theorem with_alignment_correct_witness:
  "\<exists>h. with_alignment \<lparr>bg_total_size = 8192, bg_min_block_size = 1024, bg_max_order = 3,
      bg_alignment = 1, bg_cap_capacity = True\<rparr> 4096 = Inr h \<and> geometry_ok h \<and>
      bg_min_block_size h = 4096 \<and> 8192 \<le> bg_total_size h"
proof -
  let ?g = "\<lparr>bg_total_size = 8192, bg_min_block_size = 1024, bg_max_order = 3,
      bg_alignment = 1, bg_cap_capacity = True\<rparr>"
  have g: "geometry_ok ?g" by (simp add: geometry_ok_def is_power_of_two_def count_ones.simps)
  have "is_power_of_two 4096" by (simp add: is_power_of_two_def count_ones.simps)
  with with_alignment_correct [OF g, of 4096] show ?thesis
    by (cases "with_alignment ?g 4096") auto
qed

end
