(* ===== verification/Buddy_Tiling.thy ===== *)
theory Buddy_Tiling
  imports Main
begin

text \<open>
  The combinatorics behind the buddy allocator. A block is a pair of an order and an index;
  \<open>cover\<close> is the set of order-0 units it occupies. A set of blocks \<open>tiles\<close> an arena of
  maximum order \<open>M\<close> when the covers partition the units below \<open>2 ^ M\<close>. Splitting a block into its
  two children and merging two buddies keep a tiling; in a coalesced set of blocks every
  dyadic region that is covered at all is covered by a single block.
\<close>

type_synonym block = "nat \<times> nat"

fun cover :: "block \<Rightarrow> nat set" where
  "cover (ord, i) = {x. x div 2 ^ ord = i}"

lemma in_cover [simp]: "x \<in> cover (ord, i) \<longleftrightarrow> x div 2 ^ ord = i"
  by simp

declare cover.simps [simp del]

fun valid_block :: "nat \<Rightarrow> block \<Rightarrow> bool" where
  "valid_block M (ord, i) \<longleftrightarrow> ord \<le> M \<and> i < 2 ^ (M - ord)"

definition buddy :: "nat \<Rightarrow> nat" where
  "buddy i = (if even i then Suc i else i - 1)"

definition tiles :: "nat \<Rightarrow> block set \<Rightarrow> bool" where
  "tiles M S \<longleftrightarrow>
     (\<forall>b \<in> S. valid_block M b) \<and>
     pairwise (\<lambda>a b. cover a \<inter> cover b = {}) S \<and>
     \<Union> (cover ` S) = {..<2 ^ M}"

definition coalesced :: "nat \<Rightarrow> block set \<Rightarrow> bool" where
  "coalesced M S \<longleftrightarrow> (\<forall>ord i. ord < M \<and> (ord, i) \<in> S \<longrightarrow> (ord, buddy i) \<notin> S)"

subsection \<open>Covers\<close>

lemma cover_interval: "cover (ord, i) = {i * 2 ^ ord ..< i * 2 ^ ord + 2 ^ ord}"
proof -
  have "x div 2 ^ ord = i \<longleftrightarrow> i * 2 ^ ord \<le> x \<and> x < i * 2 ^ ord + 2 ^ ord" for x :: nat
  proof
    assume i: "x div 2 ^ ord = i"
    have "x < x div 2 ^ ord * 2 ^ ord + 2 ^ ord"
      using dividend_less_div_times [of "2 ^ ord" x]
      by (simp only: zero_less_power zero_less_numeral add.commute simp_thms)
    moreover have "x div 2 ^ ord * 2 ^ ord \<le> x" by (rule div_times_less_eq_dividend)
    ultimately show "i * 2 ^ ord \<le> x \<and> x < i * 2 ^ ord + 2 ^ ord" unfolding i by simp
  next
    assume a: "i * 2 ^ ord \<le> x \<and> x < i * 2 ^ ord + 2 ^ ord"
    show "x div 2 ^ ord = i"
    proof (rule div_nat_eqI)
      show "2 ^ ord * i \<le> x" using a by (simp only: mult.commute)
      show "x < 2 ^ ord * Suc i" using a by (simp only: mult_Suc_right mult.commute [of i] add.commute)
    qed
  qed
  then show ?thesis by (simp add: set_eq_iff)
qed

lemma cover_finite [simp]: "finite (cover b)"
  by (cases b) (simp only: cover_interval finite_atLeastLessThan)

lemma cover_card: "card (cover (ord, i)) = 2 ^ ord"
  by (simp only: cover_interval card_atLeastLessThan)

lemma cover_nonempty [simp]: "cover b \<noteq> {}"
  using cover_card [of "fst b" "snd b"] by (cases b) auto

lemma cover_nested:
  assumes "x \<in> cover (a, i)" "x \<in> cover (b, j)" "a \<le> b"
  shows "cover (a, i) \<subseteq> cover (b, j)"
proof
  fix y assume y: "y \<in> cover (a, i)"
  have up: "z div 2 ^ b = z div 2 ^ a div 2 ^ (b - a)" for z :: nat
    using assms(3) by (simp add: div_mult2_eq [symmetric] power_add [symmetric])
  from y assms(1) have "y div 2 ^ a = x div 2 ^ a" by simp
  then have "y div 2 ^ b = x div 2 ^ b" using up by simp
  with assms(2) show "y \<in> cover (b, j)" by simp
qed

lemma cover_split: "cover (Suc ord, i) = cover (ord, 2 * i) \<union> cover (ord, 2 * i + 1)"
proof -
  have "x div 2 ^ Suc ord = i \<longleftrightarrow> x div 2 ^ ord = 2 * i \<or> x div 2 ^ ord = 2 * i + 1" for x :: nat
  proof -
    have "x div 2 ^ Suc ord = x div 2 ^ ord div 2"
      by (simp add: div_mult2_eq [symmetric] mult.commute)
    moreover have "q div 2 = i \<longleftrightarrow> q = 2 * i \<or> q = 2 * i + 1" for q by presburger
    ultimately show ?thesis by simp
  qed
  then show ?thesis by auto
qed

lemma cover_same_order: "cover (ord, i) \<inter> cover (ord, j) = {} \<longleftrightarrow> i \<noteq> j"
proof (cases "i = j")
  case True
  then show ?thesis using cover_nonempty [of "(ord, i)"] by simp
qed auto

lemma cover_valid: "valid_block M b \<Longrightarrow> cover b \<subseteq> {..<2 ^ M}"
proof (cases b)
  case (Pair ord i)
  assume v: "valid_block M b"
  then have le: "ord \<le> M" and i: "i < 2 ^ (M - ord)" using Pair by auto
  have "x < 2 ^ M" if "x div 2 ^ ord = i" for x :: nat
  proof -
    have "x div 2 ^ ord < 2 ^ (M - ord)" using that i by simp
    then have "x < 2 ^ (M - ord) * 2 ^ ord" by (simp add: div_less_iff_less_mult)
    then show ?thesis using le by (simp add: power_add [symmetric])
  qed
  with Pair show ?thesis by auto
qed

subsection \<open>Buddies\<close>

lemma buddy_facts:
  "buddy i \<noteq> i" "buddy (buddy i) = i" "buddy i div 2 = i div 2"
  "{2 * (i div 2), 2 * (i div 2) + 1} = {i, buddy i}"
  by (cases "even i"; auto simp: buddy_def elim!: evenE oddE)+

lemma buddy_double [simp]: "buddy (2 * i) = Suc (2 * i)" "buddy (Suc (2 * i)) = 2 * i"
  by (simp_all add: buddy_def)

lemma buddy_less: "i < 2 ^ Suc k \<Longrightarrow> buddy i < 2 ^ Suc k"
  by (auto simp: buddy_def elim!: evenE)

lemma cover_merge: "cover (Suc ord, i div 2) = cover (ord, i) \<union> cover (ord, buddy i)"
proof -
  have "cover (Suc ord, i div 2) = \<Union> ((\<lambda>j. cover (ord, j)) ` {2 * (i div 2), 2 * (i div 2) + 1})"
    unfolding cover_split by blast
  then show ?thesis unfolding buddy_facts(4) by blast
qed

lemma valid_block_buddy: "valid_block M (ord, i) \<Longrightarrow> ord < M \<Longrightarrow> valid_block M (ord, buddy i)"
  using buddy_less [of i "M - ord - 1"] by (simp add: Suc_diff_Suc)

lemma valid_block_parent: "valid_block M (ord, i) \<Longrightarrow> ord < M \<Longrightarrow> valid_block M (Suc ord, i div 2)"
proof -
  assume "valid_block M (ord, i)" and lt: "ord < M"
  then have "i < 2 ^ (M - ord)" by simp
  also have "(2::nat) ^ (M - ord) = 2 * 2 ^ (M - Suc ord)"
    using lt by (simp add: Suc_diff_Suc flip: power_Suc)
  finally show ?thesis using lt by auto
qed

lemma valid_block_child:
  assumes "valid_block M (Suc ord, i)"
  shows "valid_block M (ord, 2 * i)" "valid_block M (ord, Suc (2 * i))"
proof -
  have "M - ord = Suc (M - Suc ord)" using assms by auto
  then show "valid_block M (ord, 2 * i)" "valid_block M (ord, Suc (2 * i))" using assms by auto
qed

subsection \<open>Replacing a block by its parts\<close>

lemma tiles_disjoint:
  "tiles M S \<Longrightarrow> a \<in> S \<Longrightarrow> b \<in> S \<Longrightarrow> a \<noteq> b \<Longrightarrow> cover a \<inter> cover b = {}"
  by (auto simp: tiles_def pairwise_def)

lemma tiles_valid: "tiles M S \<Longrightarrow> b \<in> S \<Longrightarrow> valid_block M b"
  by (auto simp: tiles_def)

lemma tiles_finite:
  assumes "tiles M S"
  shows "finite S"
proof -
  have "inj_on cover S"
    using assms cover_nonempty by (intro inj_onI) (metis Int_absorb tiles_disjoint)
  moreover have "cover ` S \<subseteq> Pow {..<2 ^ M}" using assms by (auto simp: tiles_def)
  ultimately show ?thesis by (meson finite_Pow_iff finite_imageD finite_lessThan finite_subset)
qed

lemma tiles_replace:
  assumes "tiles M (A \<union> S)" "A \<inter> S = {}" "\<Union> (cover ` B) = \<Union> (cover ` A)"
    and "\<forall>b \<in> B. valid_block M b" "pairwise (\<lambda>a b. cover a \<inter> cover b = {}) B"
  shows "tiles M (B \<union> S)"
proof -
  have sep: "cover b \<inter> cover c = {}" if "b \<in> B" "c \<in> S" for b c
  proof -
    have "cover a \<inter> cover c = {}" if "a \<in> A" for a
      using tiles_disjoint [OF assms(1), of a c] that \<open>c \<in> S\<close> assms(2) by blast
    moreover have "cover b \<subseteq> \<Union> (cover ` A)" using assms(3) \<open>b \<in> B\<close> by blast
    ultimately show ?thesis by blast
  qed
  have "pairwise (\<lambda>a b. cover a \<inter> cover b = {}) S"
    using assms(1) by (auto simp: tiles_def intro: pairwise_subset)
  with assms(5) sep have "pairwise (\<lambda>a b. cover a \<inter> cover b = {}) (B \<union> S)"
    unfolding pairwise_def by blast
  with assms(1,3,4) show ?thesis by (auto simp: tiles_def)
qed

lemma tiles_split:
  assumes "tiles M (insert (Suc ord, i) S)" "(Suc ord, i) \<notin> S"
  shows "tiles M (insert (ord, 2 * i) (insert (ord, Suc (2 * i)) S))"
proof -
  have v: "valid_block M (Suc ord, i)" using tiles_valid [OF assms(1)] by blast
  have "tiles M ({(ord, 2 * i), (ord, Suc (2 * i))} \<union> S)"
  proof (rule tiles_replace)
    show "tiles M ({(Suc ord, i)} \<union> S)" "{(Suc ord, i)} \<inter> S = {}" using assms by simp_all
    show "\<Union> (cover ` {(ord, 2 * i), (ord, Suc (2 * i))}) = \<Union> (cover ` {(Suc ord, i)})"
      using cover_split [of ord i] by simp
    show "\<forall>b \<in> {(ord, 2 * i), (ord, Suc (2 * i))}. valid_block M b"
      using valid_block_child [OF v] by blast
    show "pairwise (\<lambda>a b. cover a \<inter> cover b = {}) {(ord, 2 * i), (ord, Suc (2 * i))}"
      using cover_same_order by (simp add: pairwise_insert)
  qed
  then show ?thesis by simp
qed

lemma tiles_merge:
  assumes "tiles M (insert (ord, i) (insert (ord, buddy i) S))"
    and "(ord, i) \<notin> S" "(ord, buddy i) \<notin> S" "ord < M"
  shows "tiles M (insert (Suc ord, i div 2) S)"
proof -
  have v: "valid_block M (ord, i)" using tiles_valid [OF assms(1)] by blast
  have "tiles M ({(Suc ord, i div 2)} \<union> S)"
  proof (rule tiles_replace)
    show "tiles M ({(ord, i), (ord, buddy i)} \<union> S)" "{(ord, i), (ord, buddy i)} \<inter> S = {}"
      using assms by simp_all
    show "\<Union> (cover ` {(Suc ord, i div 2)}) = \<Union> (cover ` {(ord, i), (ord, buddy i)})"
      using cover_merge [of ord i] by simp
    show "\<forall>b \<in> {(Suc ord, i div 2)}. valid_block M b"
      using valid_block_parent [OF v assms(4)] by blast
  qed simp
  then show ?thesis by simp
qed

lemma tiles_top: "tiles M {(M, 0)}"
proof -
  have "cover (M, 0) = {..<2 ^ M}" by (simp only: cover_interval) auto
  then show ?thesis by (simp add: tiles_def)
qed

lemma tiles_weight:
  assumes "tiles M S"
  shows "(\<Sum>(ord, i) \<in> S. 2 ^ ord) = (2::nat) ^ M"
proof -
  have "card (\<Union> (cover ` S)) = (\<Sum>b \<in> S. card (cover b))"
  proof (rule card_UN_disjoint)
    show "finite S" using assms by (rule tiles_finite)
    show "\<forall>b \<in> S. finite (cover b)" by simp
    show "\<forall>a \<in> S. \<forall>b \<in> S. a \<noteq> b \<longrightarrow> cover a \<inter> cover b = {}"
      using assms by (simp add: tiles_def pairwise_def)
  qed
  also have "\<dots> = (\<Sum>(ord, i) \<in> S. 2 ^ ord)"
    by (intro sum.cong refl) (simp add: cover_card split: prod.split)
  finally show ?thesis using assms by (simp add: tiles_def)
qed

subsection \<open>Coalesced sets of blocks\<close>

text \<open>
  If no two buddies of a set are both present, a dyadic region covered by the set lies in a
  single block of it.
\<close>

lemma coalesced_single:
  assumes "coalesced M S" "ord \<le> M" "cover (ord, i) \<subseteq> \<Union> (cover ` S)"
  shows "\<exists>b \<in> S. cover (ord, i) \<subseteq> cover b \<and> ord \<le> fst b"
  using assms(2,3)
proof (induction ord arbitrary: i)
  case 0
  have "i \<in> cover (0, i)" by simp
  with "0.prems" obtain b where b: "b \<in> S" "i \<in> cover b" by blast
  then have "cover (0, i) \<subseteq> cover b" by (auto simp: set_eq_iff)
  with b(1) show ?case by auto
next
  case (Suc ord)
  have "cover (ord, 2 * i) \<subseteq> \<Union> (cover ` S)" "cover (ord, 2 * i + 1) \<subseteq> \<Union> (cover ` S)"
    using Suc.prems(2) cover_split [of ord i] by blast+
  moreover have "ord \<le> M" using Suc.prems(1) by simp
  ultimately have "\<exists>b \<in> S. cover (ord, 2 * i) \<subseteq> cover b \<and> ord \<le> fst b"
    "\<exists>b \<in> S. cover (ord, 2 * i + 1) \<subseteq> cover b \<and> ord \<le> fst b"
    using Suc.IH by blast+
  then obtain b c where b: "b \<in> S" "cover (ord, 2 * i) \<subseteq> cover b" "ord \<le> fst b"
      and c: "c \<in> S" "cover (ord, 2 * i + 1) \<subseteq> cover c" "ord \<le> fst c" by blast
  have big: "cover (Suc ord, i) \<subseteq> cover d"
    if "Suc ord \<le> fst d" "cover (ord, j) \<subseteq> cover d" "cover (ord, j) \<subseteq> cover (Suc ord, i)" for d j
  proof -
    obtain x where "x \<in> cover (ord, j)" using cover_nonempty by blast
    then have "x \<in> cover (Suc ord, i)" "x \<in> cover (fst d, snd d)" using that(2,3) by auto
    from cover_nested [OF this that(1)] show ?thesis by simp
  qed
  have small: "d = (ord, j)" if "fst d = ord" "cover (ord, j) \<subseteq> cover d" for d j
  proof -
    obtain x where "x \<in> cover (ord, j)" using cover_nonempty by blast
    with that show ?thesis by (cases d) auto
  qed
  show ?case
  proof (cases "Suc ord \<le> fst b \<or> Suc ord \<le> fst c")
    case True
    then show ?thesis using b c big cover_split [of ord i] by (metis Un_upper1 Un_upper2)
  next
    case False
    with b c have "fst b = ord" "fst c = ord" by auto
    with small b c have "(ord, 2 * i) \<in> S" "(ord, Suc (2 * i)) \<in> S"
      by (metis Suc_eq_plus1)+
    with assms(1) Suc.prems(1) show ?thesis
      unfolding coalesced_def by (metis Suc_le_lessD buddy_double(1))
  qed
qed

lemma coalesced_insert:
  assumes "coalesced M S" "ord < M \<Longrightarrow> (ord, buddy i) \<notin> S"
  shows "coalesced M (insert (ord, i) S)"
  unfolding coalesced_def
proof (intro allI impI)
  fix ord' j assume a: "ord' < M \<and> (ord', j) \<in> insert (ord, i) S"
  show "(ord', buddy j) \<notin> insert (ord, i) S"
  proof (cases "(ord', j) = (ord, i)")
    case True
    then show ?thesis using a assms(2) buddy_facts(1) [of i] by simp
  next
    case False
    with a have jS: "ord' < M" "(ord', j) \<in> S" by auto
    moreover have "j = buddy i" if "buddy j = i" using that buddy_facts(2) [of j] by simp
    ultimately show ?thesis using assms unfolding coalesced_def by (metis Pair_inject insertE)
  qed
qed

lemma coalesced_subset: "coalesced M S \<Longrightarrow> T \<subseteq> S \<Longrightarrow> coalesced M T"
  by (auto simp: coalesced_def)

lemma coalesced_full:
  assumes "tiles M S" "coalesced M S"
  shows "S = {(M, 0)}"
proof -
  have top: "cover (M, 0) = {..<2 ^ M}" by (simp only: cover_interval) auto
  with assms(1) have "cover (M, 0) \<subseteq> \<Union> (cover ` S)" by (simp add: tiles_def)
  from coalesced_single [OF assms(2) order_refl this] obtain b
    where b: "b \<in> S" "cover (M, 0) \<subseteq> cover b" "M \<le> fst b" by blast
  have eq: "b = (M, 0)" using tiles_valid [OF assms(1) b(1)] b(3) by (cases b) auto
  have "c = b" if "c \<in> S" for c
  proof (rule ccontr)
    assume "c \<noteq> b"
    with tiles_disjoint [OF assms(1) that b(1)] have "cover c \<inter> {..<2 ^ M} = {}"
      using b(2) top by blast
    moreover have "cover c \<subseteq> {..<2 ^ M}" using cover_valid tiles_valid [OF assms(1) that] by blast
    ultimately show False using cover_nonempty [of c] by blast
  qed
  with b(1) eq show ?thesis by blast
qed

end
