(* ===== verification/Buddy.thy ===== *)
theory Buddy
  imports Arena Geometry Buddy_Tiling
begin

text \<open>
  The buddy arena, \<^verbatim>\<open>src/src/buddy.rs\<close>: its state, request rounding, the two search passes over
  the per-order bitmaps, splitting, release with coalescing, and the builders. The invariant
  \<open>buddy_core\<close> says that the free blocks and the live blocks tile the arena, that the order
  summary is exact and that no two free buddies are left unmerged. A call of the waiters' wake
  handle is part of the result of a release (\<open>Some order\<close>); the waiters are in the theory
  \<open>Waiters\<close>. Orders are below 64, so shifts by an order stay in the word.
\<close>

subsection \<open>State\<close>

record 'd BuddyArenaInner =
  bi_ptr :: nat
  bi_total_size :: nat
  bi_dealloc_len :: nat
  bi_min_block_size :: nat
  bi_max_order :: nat
  bi_free_bitmaps :: "AtomicBitmap list"
  bi_nonempty_orders :: usize
  bi_auto_spill :: bool
  bi_cap_capacity :: bool
  bi_init_policy :: InitPolicy
  bi_metrics :: MetricsState
  bi_zeroed_bitmap :: "AtomicBitmap option"
  bi_dealloc :: "'d ErasedDealloc"
  bi_wake_handle :: bool
  bi_mem :: mem

definition drop_BuddyArenaInner :: "'d BuddyArenaInner \<Rightarrow> 'd dealloc_event list outcome" where
  "drop_BuddyArenaInner a = drop_arena (bi_dealloc a) (bi_ptr a) (bi_dealloc_len a)"

text \<open>A bounds-checked read of the bitmap slice, and a store to it.\<close>

definition bitmap_at :: "'d BuddyArenaInner \<Rightarrow> nat \<Rightarrow> AtomicBitmap outcome" where
  "bitmap_at a order =
     (if order < length (bi_free_bitmaps a) then Ret (bi_free_bitmaps a ! order)
      else Panic ''index out of bounds'')"

definition put_bitmap :: "'d BuddyArenaInner \<Rightarrow> nat \<Rightarrow> AtomicBitmap \<Rightarrow> 'd BuddyArenaInner" where
  "put_bitmap a order b = a\<lparr>bi_free_bitmaps := (bi_free_bitmaps a)[order := b]\<rparr>"

definition block_size :: "profile \<Rightarrow> 'd BuddyArenaInner \<Rightarrow> nat \<Rightarrow> nat outcome" where
  "block_size p a order = shl p (bi_min_block_size a) order"

definition block_offset :: "profile \<Rightarrow> 'd BuddyArenaInner \<Rightarrow> nat \<Rightarrow> nat \<Rightarrow> nat outcome" where
  "block_offset p a order block_idx = obind (block_size p a order) (\<lambda>s. Ret (block_idx * s))"

definition blocks_at_order :: "nat \<Rightarrow> nat \<Rightarrow> nat" where
  "blocks_at_order max_order order = 2 ^ (max_order - order)"

subsection \<open>Summary and search\<close>

definition maybe_clear_summary :: "'d BuddyArenaInner \<Rightarrow> nat \<Rightarrow> 'd BuddyArenaInner outcome" where
  "maybe_clear_summary a order =
     obind (bitmap_at a order) (\<lambda>b. obind (any_free b) (\<lambda>f.
       Ret (if f then a
            else a\<lparr>bi_nonempty_orders := bi_nonempty_orders a AND NOT (bit_at order)\<rparr>)))"

fun largest_free_from :: "profile \<Rightarrow> 'd BuddyArenaInner \<Rightarrow> nat list \<Rightarrow> nat outcome" where
  "largest_free_from p a [] = Ret 0"
| "largest_free_from p a (order # orders) =
     obind (bitmap_at a order) (\<lambda>b. obind (any_free b) (\<lambda>f.
       if f then block_size p a order else largest_free_from p a orders))"

definition largest_free_block :: "profile \<Rightarrow> 'd BuddyArenaInner \<Rightarrow> nat outcome" where
  "largest_free_block p a = largest_free_from p a (rev [0..<Suc (bi_max_order a)])"

definition buddy_metrics :: "profile \<Rightarrow> 'd BuddyArenaInner \<Rightarrow> BuddyArenaMetrics outcome" where
  "buddy_metrics p a =
     obind (largest_free_block p a) (\<lambda>l. Ret (buddy_snapshot l (bi_metrics a)))"

definition nonempty_orders :: "'d BuddyArenaInner \<Rightarrow> usize" where
  "nonempty_orders a = bi_nonempty_orders a"

definition free_block_count :: "'d BuddyArenaInner \<Rightarrow> nat \<Rightarrow> nat outcome" where
  "free_block_count a order = obind (bitmap_at a order) free_count"

definition is_block_free :: "profile \<Rightarrow> 'd BuddyArenaInner \<Rightarrow> nat \<Rightarrow> nat \<Rightarrow> bool outcome" where
  "is_block_free p a order block_idx = obind (bitmap_at a order) (\<lambda>b. is_free p b block_idx)"

definition order_for_request :: "profile \<Rightarrow> 'd BuddyArenaInner \<Rightarrow> nat \<Rightarrow> nat option outcome" where
  "order_for_request p a len =
     obind (next_power_of_two p (max len (bi_min_block_size a))) (\<lambda>sz.
       Ret (if bi_total_size a < sz then None
            else Some (trailing_zeros sz - trailing_zeros (bi_min_block_size a))))"

fun try_orders ::
    "'d BuddyArenaInner \<Rightarrow> usize option \<Rightarrow> nat list \<Rightarrow> (block option \<times> 'd BuddyArenaInner) outcome" where
  "try_orders a summary [] = Ret (None, a)"
| "try_orders a summary (order # orders) =
     (if (case summary of Some bits \<Rightarrow> bits AND bit_at order = 0 | None \<Rightarrow> False)
      then try_orders a summary orders
      else
        obind (bitmap_at a order) (\<lambda>b. obind (try_alloc b) (\<lambda>(claimed, b').
          let a' = put_bitmap a order b' in
          case claimed of
            Some block_idx \<Rightarrow>
              obind (maybe_clear_summary a' order) (\<lambda>a''. Ret (Some (order, block_idx), a''))
          | None \<Rightarrow> try_orders a' summary orders)))"

definition try_allocate_from_orders ::
    "'d BuddyArenaInner \<Rightarrow> nat \<Rightarrow> usize option \<Rightarrow> (block option \<times> 'd BuddyArenaInner) outcome" where
  "try_allocate_from_orders a target_order summary =
     try_orders a summary [target_order..<Suc (bi_max_order a)]"

definition try_allocate_from_summary ::
    "'d BuddyArenaInner \<Rightarrow> nat \<Rightarrow> (block option \<times> 'd BuddyArenaInner) outcome" where
  "try_allocate_from_summary a target_order =
     try_allocate_from_orders a target_order (Some (bi_nonempty_orders a))"

definition try_allocate_from_full_scan ::
    "'d BuddyArenaInner \<Rightarrow> nat \<Rightarrow> (block option \<times> 'd BuddyArenaInner) outcome" where
  "try_allocate_from_full_scan a target_order = try_allocate_from_orders a target_order None"

text \<open>The search of an allocation: by the summary first, then over every order.\<close>

definition find_block ::
    "'d BuddyArenaInner \<Rightarrow> nat \<Rightarrow> (block option \<times> 'd BuddyArenaInner) outcome" where
  "find_block a target_order =
     obind (try_allocate_from_summary a target_order) (\<lambda>(found, a1).
       case found of
         Some blk \<Rightarrow> Ret (Some blk, a1)
       | None \<Rightarrow> try_allocate_from_full_scan a1 target_order)"

subsection \<open>Splitting and allocation\<close>

function split_loop ::
    "profile \<Rightarrow> 'd BuddyArenaInner \<Rightarrow> nat \<Rightarrow> nat \<Rightarrow> nat \<Rightarrow> nat \<Rightarrow>
     (block \<times> nat \<times> 'd BuddyArenaInner) outcome" where
  "split_loop p a order block_idx target_order split_steps =
     (if target_order < order then
        let child_order = order - 1;
            left_child = block_idx * 2;
            right_child = left_child + 1;
            a1 = a\<lparr>bi_nonempty_orders := bi_nonempty_orders a OR bit_at child_order\<rparr>
        in obind (bitmap_at a1 child_order) (\<lambda>b. obind (free p b right_child) (\<lambda>b'.
             split_loop p (put_bitmap a1 child_order b') child_order left_child target_order
               (split_steps + 1)))
      else Ret ((order, block_idx), split_steps, a))"
  by auto

termination
  by (relation "measure (\<lambda>(p, a, order, _). order)") auto

declare split_loop.simps [simp del]

definition split_down ::
    "profile \<Rightarrow> 'd BuddyArenaInner \<Rightarrow> nat \<Rightarrow> nat \<Rightarrow> nat \<Rightarrow> (block \<times> 'd BuddyArenaInner) outcome" where
  "split_down p a order block_idx target_order =
     obind (split_loop p a order block_idx target_order 0) (\<lambda>(blk, split_steps, a').
       Ret (blk, if 0 < split_steps
                 then a'\<lparr>bi_metrics := record_splits split_steps (bi_metrics a')\<rparr> else a'))"

type_synonym ('h, 'd) buddy_result = "((AllocError + 'h Buffer) \<times> 'd BuddyArenaInner) outcome"

text \<open>The zeroing step of an allocation.\<close>

definition zero_block_on_alloc ::
    "externals \<Rightarrow> profile \<Rightarrow> 'd BuddyArenaInner \<Rightarrow> block \<Rightarrow> nat \<Rightarrow> nat \<Rightarrow> 'd BuddyArenaInner outcome" where
  "zero_block_on_alloc E p a blk offset blk_size =
     (case (bi_init_policy a, bi_zeroed_bitmap a) of
        (Zero, Some zeroed_bm) \<Rightarrow>
          (let order0_start = snd blk * 2 ^ fst blk;
               order0_end = order0_start + 2 ^ fst blk
           in obind (all_set_in_range p zeroed_bm order0_start order0_end) (\<lambda>scrubbed.
                Ret (if scrubbed then a
                     else a\<lparr>bi_mem := zeroize_region E (bi_mem a) offset blk_size\<rparr>)))
      | _ \<Rightarrow> Ret a)"

definition allocate_buddy ::
    "externals \<Rightarrow> profile \<Rightarrow> 'd BuddyArenaInner \<Rightarrow> nat \<Rightarrow> ('h, 'd) buddy_result" where
  "allocate_buddy E p a len =
     obind (order_for_request p a len) (\<lambda>target.
       case target of
         None \<Rightarrow> Ret (Inl RequestTooLarge, a\<lparr>bi_metrics := record_alloc_failure (bi_metrics a)\<rparr>)
       | Some target_order \<Rightarrow>
           obind (find_block a target_order) (\<lambda>(found, a2).
             case found of
               None \<Rightarrow>
                 Ret (Inl ArenaFull, a2\<lparr>bi_metrics := record_alloc_failure (bi_metrics a2)\<rparr>)
             | Some (order, block_idx) \<Rightarrow>
                 obind (split_down p a2 order block_idx target_order)
                   (\<lambda>((final_order, final_block_idx), a3).
                 obind (block_size p a3 final_order) (\<lambda>blk_size.
                 obind (block_offset p a3 final_order final_block_idx) (\<lambda>offset.
                 obind (zero_block_on_alloc E p a3 (final_order, final_block_idx) offset blk_size) (\<lambda>a4.
                   Ret (Inr (new_buddy (bi_ptr a4) (bi_auto_spill a4) final_order final_block_idx
                               offset (if bi_cap_capacity a4 then min len blk_size else blk_size)),
                        a4\<lparr>bi_metrics := record_alloc_success blk_size (bi_metrics a4)\<rparr>)))))))"

subsection \<open>Release\<close>

lemma maybe_clear_summary_max_order:
  "maybe_clear_summary a order = Ret a' \<Longrightarrow> bi_max_order a' = bi_max_order a"
  by (auto simp: maybe_clear_summary_def obind_eq_Ret split: if_splits)

text \<open>The coalescing loop of a release: it returns the block to be freed.\<close>

function coalesce_loop ::
    "profile \<Rightarrow> 'd BuddyArenaInner \<Rightarrow> nat \<Rightarrow> nat \<Rightarrow> (block \<times> 'd BuddyArenaInner) outcome" where
  "coalesce_loop p a order block_idx =
     (if order < bi_max_order a then
        let buddy_idx = block_idx XOR 1 in
        obind (bitmap_at a order) (\<lambda>b. obind (try_claim_exact p b buddy_idx) (\<lambda>(claimed, b').
          let a' = put_bitmap a order b' in
          if \<not> claimed then Ret ((order, block_idx), a')
          else
            obind (maybe_clear_summary a' order) (\<lambda>a''.
              coalesce_loop p (a''\<lparr>bi_metrics := record_coalesce (bi_metrics a'')\<rparr>)
                (order + 1) (block_idx div 2))))
      else Ret ((order, block_idx), a))"
  by auto

termination
  by (relation "measure (\<lambda>(p, a, order, _). bi_max_order a - order)")
    (auto dest!: maybe_clear_summary_max_order simp: put_bitmap_def)

declare coalesce_loop.simps [simp del]

text \<open>The scrubbing step of a release.\<close>

definition scrub_block ::
    "externals \<Rightarrow> profile \<Rightarrow> 'd BuddyArenaInner \<Rightarrow> nat \<Rightarrow> nat \<Rightarrow> 'd BuddyArenaInner outcome" where
  "scrub_block E p a order block_idx =
     (if bi_init_policy a = Zero then
        obind (block_size p a order) (\<lambda>blk_size.
          let offset = block_idx * blk_size;
              a1 = a\<lparr>bi_mem := zeroize_region E (bi_mem a) offset blk_size\<rparr>
          in case bi_zeroed_bitmap a1 of
               None \<Rightarrow> Ret a1
             | Some zeroed_bm \<Rightarrow>
                 (let order0_start = block_idx * 2 ^ order;
                      order0_end = order0_start + 2 ^ order
                  in obind (set_range p zeroed_bm order0_start order0_end) (\<lambda>z.
                       Ret (a1\<lparr>bi_zeroed_bitmap := Some z\<rparr>))))
      else Ret a)"

text \<open>\<open>release_block\<close> returns the order passed to the wake handle, if the arena has one.\<close>

definition release_block ::
    "externals \<Rightarrow> profile \<Rightarrow> 'd BuddyArenaInner \<Rightarrow> nat \<Rightarrow> nat \<Rightarrow>
     (nat option \<times> 'd BuddyArenaInner) outcome" where
  "release_block E p a order block_idx =
     obind (scrub_block E p a order block_idx) (\<lambda>a1.
     obind (coalesce_loop p a1 order block_idx) (\<lambda>((order', block_idx'), a2).
       let a3 = a2\<lparr>bi_nonempty_orders := bi_nonempty_orders a2 OR bit_at order'\<rparr> in
       obind (bitmap_at a3 order') (\<lambda>b. obind (free p b block_idx') (\<lambda>b'.
         Ret (if bi_wake_handle a3 then Some order' else None, put_bitmap a3 order' b')))))"

subsection \<open>Builders\<close>

definition empty_bitmaps :: "nat \<Rightarrow> AtomicBitmap list" where
  "empty_bitmaps max_order =
     map (\<lambda>order. new_empty (blocks_at_order max_order order)) [0..<Suc max_order]"

text \<open>The bitmaps of a new arena: only the top block is free.\<close>

definition initial_bitmaps :: "profile \<Rightarrow> nat \<Rightarrow> AtomicBitmap list outcome" where
  "initial_bitmaps p max_order =
     (let free_bitmaps = empty_bitmaps max_order in
      obind (free p (free_bitmaps ! max_order) 0) (\<lambda>b. Ret (free_bitmaps[max_order := b])))"

record BuddyArenaBuilder =
  bb_geometry :: BuddyGeometry
  bb_config :: BuildConfig

definition builder :: "BuddyGeometry \<Rightarrow> BuddyArenaBuilder" where
  "builder geometry = \<lparr>bb_geometry = geometry, bb_config = new_config\<rparr>"

definition buddy_init_policy :: "InitPolicy \<Rightarrow> BuddyArenaBuilder \<Rightarrow> BuddyArenaBuilder" where
  "buddy_init_policy policy b = b\<lparr>bb_config := (bb_config b)\<lparr>cfg_init_policy := policy\<rparr>\<rparr>"

definition buddy_page_size :: "PageSize \<Rightarrow> BuddyArenaBuilder \<Rightarrow> BuddyArenaBuilder" where
  "buddy_page_size policy b = b\<lparr>bb_config := (bb_config b)\<lparr>cfg_page_size := policy\<rparr>\<rparr>"

definition buddy_auto_spill :: "BuddyArenaBuilder \<Rightarrow> BuddyArenaBuilder" where
  "buddy_auto_spill b = b\<lparr>bb_config := (bb_config b)\<lparr>cfg_auto_spill := True\<rparr>\<rparr>"

definition build_raw ::
    "externals \<Rightarrow> profile \<Rightarrow> BuddyArenaBuilder \<Rightarrow> bool \<Rightarrow> (BuildError + 'd BuddyArenaInner) outcome" where
  "build_raw E p b waker =
     (let g = bb_geometry b in
      case layout_from_size_align (bg_total_size g) (bg_alignment g) of
        None \<Rightarrow> Ret (Inl SizeOverflow)
      | Some layout \<Rightarrow>
          (let (ptr, contents) = ext_alloc E layout in
           if ptr = 0 then Panic ''memory allocation failed''
           else
             obind (initial_bitmaps p (bg_max_order g)) (\<lambda>free_bitmaps.
               Ret (Inr
                 \<lparr>bi_ptr = ptr, bi_total_size = bg_total_size g, bi_dealloc_len = bg_total_size g,
                  bi_min_block_size = bg_min_block_size g, bi_max_order = bg_max_order g,
                  bi_free_bitmaps = free_bitmaps, bi_nonempty_orders = bit_at (bg_max_order g),
                  bi_auto_spill = cfg_auto_spill (bb_config b),
                  bi_cap_capacity = bg_cap_capacity g,
                  bi_init_policy = cfg_init_policy (bb_config b),
                  bi_metrics = new_metrics (bg_total_size g),
                  bi_zeroed_bitmap = zeroed_bitmap_for (cfg_init_policy (bb_config b))
                                       (blocks_at_order (bg_max_order g) 0),
                  bi_dealloc = new_erased (HeapDealloc layout), bi_wake_handle = waker,
                  bi_mem = contents\<rparr>))))"

definition prefault_buddy :: "nat option \<Rightarrow> 'd BuddyArenaInner \<Rightarrow> 'd BuddyArenaInner outcome" where
  "prefault_buddy page_size a =
     (case page_size of
        None \<Rightarrow> Ret a
      | Some ps \<Rightarrow>
          obind (prefault_region (bi_mem a) (bi_total_size a) ps) (\<lambda>m. Ret (a\<lparr>bi_mem := m\<rparr>)))"

definition build_buddy_with ::
    "externals \<Rightarrow> profile \<Rightarrow> bool \<Rightarrow> BuddyArenaBuilder \<Rightarrow> (BuildError + 'd BuddyArenaInner) outcome" where
  "build_buddy_with E p waker b =
     obind (resolve_page_size E p (cfg_page_size (bb_config b))) (\<lambda>page_size.
     obind (build_raw E p b waker) (\<lambda>r.
       case r of
         Inl e \<Rightarrow> Ret (Inl e)
       | Inr a \<Rightarrow> obind (prefault_buddy page_size a) (\<lambda>a'. Ret (Inr a'))))"

definition build_buddy ::
    "externals \<Rightarrow> profile \<Rightarrow> BuddyArenaBuilder \<Rightarrow> (BuildError + 'd BuddyArenaInner) outcome" where
  "build_buddy E p b = build_buddy_with E p False b"

definition build_buddy_async_with ::
    "externals \<Rightarrow> profile \<Rightarrow> BuddyArenaBuilder \<Rightarrow> (BuildError + 'd BuddyArenaInner) outcome" where
  "build_buddy_async_with E p b = build_buddy_with E p True b"

definition build_buddy_unfaulted ::
    "externals \<Rightarrow> profile \<Rightarrow> BuddyArenaBuilder \<Rightarrow>
     (BuildError + 'd BuddyArenaInner Unfaulted) outcome" where
  "build_buddy_unfaulted E p b =
     obind (resolve_page_size E p (cfg_page_size (bb_config b))) (\<lambda>page_size.
     obind (build_raw E p b False) (\<lambda>r.
       case r of
         Inl e \<Rightarrow> Ret (Inl e)
       | Inr a \<Rightarrow> Ret (Inr \<lparr>uf_ptr = bi_ptr a, uf_total_size = bi_total_size a,
                          uf_page_size = page_size, uf_inner = a\<rparr>)))"

record 'd RawBackedBuddyArenaBuilder =
  rb_ptr :: nat
  rb_len :: nat
  rb_hint :: BuddyHint
  rb_dealloc :: "'d Dealloc"
  rb_config :: BuildConfig

definition from_raw_buddy :: "nat \<Rightarrow> nat \<Rightarrow> BuddyHint \<Rightarrow> 'd Dealloc \<Rightarrow> 'd RawBackedBuddyArenaBuilder" where
  "from_raw_buddy ptr len hint d =
     \<lparr>rb_ptr = ptr, rb_len = len, rb_hint = hint, rb_dealloc = d, rb_config = new_raw_backed\<rparr>"

definition from_static_buddy :: "nat \<Rightarrow> nat \<Rightarrow> BuddyHint \<Rightarrow> 'd RawBackedBuddyArenaBuilder" where
  "from_static_buddy ptr len hint = from_raw_buddy ptr len hint NoDealloc"

definition raw_buddy_init_policy ::
    "InitPolicy \<Rightarrow> 'd RawBackedBuddyArenaBuilder \<Rightarrow> 'd RawBackedBuddyArenaBuilder" where
  "raw_buddy_init_policy policy b = b\<lparr>rb_config := (rb_config b)\<lparr>cfg_init_policy := policy\<rparr>\<rparr>"

definition build_raw_backed ::
    "externals \<Rightarrow> profile \<Rightarrow> mem \<Rightarrow> 'd RawBackedBuddyArenaBuilder \<Rightarrow>
     (BuildError + 'd BuddyArenaInner) outcome" where
  "build_raw_backed E p contents b =
     (if rb_ptr b = 0 then Ret (Inl NullPointer)
      else
        obind (resolve_page_size E p (cfg_page_size (rb_config b))) (\<lambda>page_size.
        obind (resolve_hint p (rb_hint b) (rb_len b)) (\<lambda>r.
          case r of
            Inl e \<Rightarrow> Ret (Inl e)
          | Inr (min_block_size, max_order) \<Rightarrow>
              obind (initial_bitmaps p max_order) (\<lambda>free_bitmaps.
              obind (shl p min_block_size max_order) (\<lambda>total_usable.
              obind (prefault_buddy page_size
                \<lparr>bi_ptr = rb_ptr b, bi_total_size = total_usable, bi_dealloc_len = rb_len b,
                 bi_min_block_size = min_block_size, bi_max_order = max_order,
                 bi_free_bitmaps = free_bitmaps, bi_nonempty_orders = bit_at max_order,
                 bi_auto_spill = False, bi_cap_capacity = False,
                 bi_init_policy = cfg_init_policy (rb_config b),
                 bi_metrics = new_metrics total_usable,
                 bi_zeroed_bitmap = zeroed_bitmap_for (cfg_init_policy (rb_config b))
                                      (blocks_at_order max_order 0),
                 bi_dealloc = new_erased (rb_dealloc b), bi_wake_handle = False,
                 bi_mem = contents\<rparr>) (\<lambda>a. Ret (Inr a)))))))"

end
