(* ===== verification/Buddy_Invariant.thy ===== *)
theory Buddy_Invariant
  imports Buddy
begin

text \<open>
  The invariant of the buddy arena and the elementary steps that keep it: claiming a free
  block, freeing a block, splitting a block in use, merging two buddies in use. The state of
  a call in progress is described by the same invariant, with the block the call holds counted
  among the blocks in use.
\<close>

subsection \<open>The invariant\<close>

definition free_blocks :: "'d BuddyArenaInner \<Rightarrow> block set" where
  "free_blocks a = {(ord, i). ord \<le> bi_max_order a \<and> i \<in> free_set (bi_free_bitmaps a ! ord)}"

definition geo_ok :: "'d BuddyArenaInner \<Rightarrow> bool" where
  "geo_ok a \<longleftrightarrow>
     is_power_of_two (bi_min_block_size a) \<and>
     bi_total_size a = bi_min_block_size a * 2 ^ bi_max_order a \<and> bi_total_size a < 2 ^ 64"

definition bitmaps_ok :: "'d BuddyArenaInner \<Rightarrow> bool" where
  "bitmaps_ok a \<longleftrightarrow>
     length (bi_free_bitmaps a) = Suc (bi_max_order a) \<and>
     (\<forall>ord \<le> bi_max_order a. bm_inv (bi_free_bitmaps a ! ord) \<and>
        bm_slot_count (bi_free_bitmaps a ! ord) = 2 ^ (bi_max_order a - ord))"

definition summary_exact :: "'d BuddyArenaInner \<Rightarrow> bool" where
  "summary_exact a \<longleftrightarrow>
     (\<forall>ord. bit (bi_nonempty_orders a) ord \<longleftrightarrow>
        ord \<le> bi_max_order a \<and> free_set (bi_free_bitmaps a ! ord) \<noteq> {})"

definition buddy_scrub_wf :: "'d BuddyArenaInner \<Rightarrow> bool" where
  "buddy_scrub_wf a \<longleftrightarrow>
     (case bi_zeroed_bitmap a of
        None \<Rightarrow> bi_init_policy a = Uninit
      | Some z \<Rightarrow> bi_init_policy a = Zero \<and> bm_inv z \<and> bm_slot_count z = 2 ^ bi_max_order a)"

text \<open>\<open>buddy_core a L\<close>: the free blocks of \<open>a\<close> and the blocks \<open>L\<close> in use tile the arena.\<close>

definition buddy_core :: "'d BuddyArenaInner \<Rightarrow> block set \<Rightarrow> bool" where
  "buddy_core a L \<longleftrightarrow>
     geo_ok a \<and> bitmaps_ok a \<and> summary_exact a \<and> buddy_scrub_wf a \<and>
     free_blocks a \<inter> L = {} \<and> tiles (bi_max_order a) (free_blocks a \<union> L) \<and>
     coalesced (bi_max_order a) (free_blocks a)"

fun block_bytes :: "'d BuddyArenaInner \<Rightarrow> block \<Rightarrow> nat" where
  "block_bytes a (ord, i) = bi_min_block_size a * 2 ^ ord"

definition buddy_inv :: "'d BuddyArenaInner \<Rightarrow> block set \<Rightarrow> bool" where
  "buddy_inv a L \<longleftrightarrow>
     buddy_core a L \<and> ledger (bi_metrics a) (card L) (\<Sum>b \<in> L. block_bytes a b)"

text \<open>
  What an operation on the free structure may change: the bitmaps, the summary, and counters
  that the ledger does not look at.
\<close>

definition same_rest :: "'d BuddyArenaInner \<Rightarrow> 'd BuddyArenaInner \<Rightarrow> bool" where
  "same_rest a a' \<longleftrightarrow>
     (\<exists>bs n ms. a' = a\<lparr>bi_free_bitmaps := bs, bi_nonempty_orders := n, bi_metrics := ms\<rparr> \<and>
        (\<forall>c b. ledger ms c b = ledger (bi_metrics a) c b))"

lemma same_rest_refl [simp]: "same_rest a a"
  unfolding same_rest_def
  by (intro exI [of _ "bi_free_bitmaps a"] exI [of _ "bi_nonempty_orders a"] exI [of _ "bi_metrics a"])
    simp

lemma same_rest_trans: "same_rest a b \<Longrightarrow> same_rest b c \<Longrightarrow> same_rest a c"
  unfolding same_rest_def
proof (elim exE conjE)
  fix bs n ms bs' n' ms'
  assume "b = a\<lparr>bi_free_bitmaps := bs, bi_nonempty_orders := n, bi_metrics := ms\<rparr>"
    and "c = b\<lparr>bi_free_bitmaps := bs', bi_nonempty_orders := n', bi_metrics := ms'\<rparr>"
    and "\<forall>c b. ledger ms c b = ledger (bi_metrics a) c b"
    and "\<forall>c d. ledger ms' c d = ledger (bi_metrics b) c d"
  then show "\<exists>bs n ms. c = a\<lparr>bi_free_bitmaps := bs, bi_nonempty_orders := n, bi_metrics := ms\<rparr> \<and>
      (\<forall>c b. ledger ms c b = ledger (bi_metrics a) c b)"
    by (intro exI [of _ bs'] exI [of _ n'] exI [of _ ms']) simp
qed

lemma same_rest_put [simp]: "same_rest a (put_bitmap a ord b)"
  unfolding same_rest_def put_bitmap_def
  by (intro exI [of _ "(bi_free_bitmaps a)[ord := b]"] exI [of _ "bi_nonempty_orders a"]
      exI [of _ "bi_metrics a"]) simp

lemma same_rest_summary [simp]: "same_rest a (a\<lparr>bi_nonempty_orders := n\<rparr>)"
  unfolding same_rest_def
  by (intro exI [of _ "bi_free_bitmaps a"] exI [of _ n] exI [of _ "bi_metrics a"]) simp

lemma same_rest_metrics:
  "(\<And>c b. ledger ms c b = ledger (bi_metrics a) c b) \<Longrightarrow> same_rest a (a\<lparr>bi_metrics := ms\<rparr>)"
  unfolding same_rest_def
  by (intro exI [of _ "bi_free_bitmaps a"] exI [of _ "bi_nonempty_orders a"] exI [of _ ms]) simp

lemma same_rest_simps:
  assumes "same_rest a a'"
  shows "bi_max_order a' = bi_max_order a" "bi_min_block_size a' = bi_min_block_size a"
    "bi_total_size a' = bi_total_size a" "bi_mem a' = bi_mem a" "bi_init_policy a' = bi_init_policy a"
    "bi_zeroed_bitmap a' = bi_zeroed_bitmap a" "bi_ptr a' = bi_ptr a"
    "bi_auto_spill a' = bi_auto_spill a" "bi_cap_capacity a' = bi_cap_capacity a"
    "bi_wake_handle a' = bi_wake_handle a" "bi_dealloc a' = bi_dealloc a"
    "bi_dealloc_len a' = bi_dealloc_len a"
    "ledger (bi_metrics a') c b = ledger (bi_metrics a) c b"
  using assms by (auto simp: same_rest_def)

lemma core_maxD:
  assumes "geo_ok a"
  shows "bi_max_order a < 64"
proof -
  have "0 < bi_min_block_size a" using assms by (simp add: geo_ok_def is_power_of_two_pos)
  then have "(2::nat) ^ bi_max_order a \<le> bi_min_block_size a * 2 ^ bi_max_order a" by simp
  also have "\<dots> < 2 ^ 64" using assms unfolding geo_ok_def by metis
  finally show ?thesis by (rule power_less_imp_less_exp [rotated]) simp
qed

lemma core_validD: "buddy_core a L \<Longrightarrow> b \<in> free_blocks a \<union> L \<Longrightarrow> valid_block (bi_max_order a) b"
  by (auto simp: buddy_core_def tiles_def)

lemma core_finite: "buddy_core a L \<Longrightarrow> finite L"
  using tiles_finite by (auto simp: buddy_core_def)

lemma core_bitmap:
  assumes "bitmaps_ok a" "ord \<le> bi_max_order a"
  shows "bitmap_at a ord = Ret (bi_free_bitmaps a ! ord)" "bm_inv (bi_free_bitmaps a ! ord)"
    "bm_slot_count (bi_free_bitmaps a ! ord) = 2 ^ (bi_max_order a - ord)"
    "ord < length (bi_free_bitmaps a)"
  using assms by (auto simp: bitmaps_ok_def bitmap_at_def)

lemma in_free_blocks: "(ord, i) \<in> free_blocks a \<longleftrightarrow> ord \<le> bi_max_order a \<and> i \<in> free_set (bi_free_bitmaps a ! ord)"
  by (simp add: free_blocks_def)

lemma put_bitmap_simps [simp]:
  "bi_max_order (put_bitmap a ord b) = bi_max_order a"
  "bi_nonempty_orders (put_bitmap a ord b) = bi_nonempty_orders a"
  "bi_free_bitmaps (put_bitmap a ord b) = (bi_free_bitmaps a)[ord := b]"
  "bi_metrics (put_bitmap a ord b) = bi_metrics a"
  by (simp_all add: put_bitmap_def)

lemma free_blocks_put:
  assumes "bitmaps_ok a" "ord \<le> bi_max_order a"
  shows "free_blocks (put_bitmap a ord b) =
    {(ord', i). (ord', i) \<in> free_blocks a \<and> ord' \<noteq> ord} \<union> {ord} \<times> free_set b"
  using assms by (auto simp: free_blocks_def bitmaps_ok_def nth_list_update split: if_splits)

lemma bitmaps_ok_put:
  assumes "bitmaps_ok a" "ord \<le> bi_max_order a" "bm_inv b"
    and "bm_slot_count b = 2 ^ (bi_max_order a - ord)"
  shows "bitmaps_ok (put_bitmap a ord b)"
  using assms by (auto simp: bitmaps_ok_def nth_list_update)

lemma summary_exact_put:
  assumes "bitmaps_ok a" "ord \<le> bi_max_order a"
  shows "summary_exact ((put_bitmap a ord b)\<lparr>bi_nonempty_orders := n\<rparr>) \<longleftrightarrow>
    (\<forall>ord'. bit n ord' \<longleftrightarrow> ord' \<le> bi_max_order a \<and>
       (if ord' = ord then free_set b \<noteq> {} else free_set (bi_free_bitmaps a ! ord') \<noteq> {}))"
proof -
  have "ord < length (bi_free_bitmaps a)" using core_bitmap(4) [OF assms] .
  then have *: "(free_set ((bi_free_bitmaps a)[ord := b] ! ord') \<noteq> {}) =
      (if ord' = ord then free_set b \<noteq> {} else free_set (bi_free_bitmaps a ! ord') \<noteq> {})" for ord'
    by (simp add: nth_list_update)
  have f: "bi_free_bitmaps ((put_bitmap a ord b)\<lparr>bi_nonempty_orders := n\<rparr>) = (bi_free_bitmaps a)[ord := b]"
    "bi_nonempty_orders ((put_bitmap a ord b)\<lparr>bi_nonempty_orders := n\<rparr>) = n"
    "bi_max_order ((put_bitmap a ord b)\<lparr>bi_nonempty_orders := n\<rparr>) = bi_max_order a"
    by simp_all
  show ?thesis unfolding summary_exact_def f * by (rule refl)
qed

lemma summary_exact_put_same:
  "summary_exact (put_bitmap a ord b) =
     summary_exact ((put_bitmap a ord b)\<lparr>bi_nonempty_orders := bi_nonempty_orders a\<rparr>)"
  by (simp add: summary_exact_def)

lemma summary_exactD:
  "summary_exact a \<Longrightarrow> bit (bi_nonempty_orders a) ord \<longleftrightarrow>
     ord \<le> bi_max_order a \<and> free_set (bi_free_bitmaps a ! ord) \<noteq> {}"
  by (simp add: summary_exact_def)

lemma core_congs [simp]:
  "bitmaps_ok (a\<lparr>bi_nonempty_orders := n\<rparr>) = bitmaps_ok a"
  "free_blocks (a\<lparr>bi_nonempty_orders := n\<rparr>) = free_blocks a"
  "geo_ok (a\<lparr>bi_nonempty_orders := n\<rparr>) = geo_ok a"
  "buddy_scrub_wf (a\<lparr>bi_nonempty_orders := n\<rparr>) = buddy_scrub_wf a"
  "geo_ok (put_bitmap a ord b) = geo_ok a"
  "buddy_scrub_wf (put_bitmap a ord b) = buddy_scrub_wf a"
  "buddy_core (a\<lparr>bi_metrics := ms\<rparr>) L = buddy_core a L"
  "buddy_core (a\<lparr>bi_mem := m\<rparr>) L = buddy_core a L"
  "free_blocks (a\<lparr>bi_metrics := ms\<rparr>) = free_blocks a"
  "free_blocks (a\<lparr>bi_mem := m\<rparr>) = free_blocks a"
  by (auto simp: bitmaps_ok_def free_blocks_def geo_ok_def buddy_scrub_wf_def put_bitmap_def
      buddy_core_def summary_exact_def split: option.splits)

lemma core_zeroed:
  "buddy_core (a\<lparr>bi_zeroed_bitmap := z\<rparr>) L \<longleftrightarrow>
     geo_ok a \<and> bitmaps_ok a \<and> summary_exact a \<and> buddy_scrub_wf (a\<lparr>bi_zeroed_bitmap := z\<rparr>) \<and>
     free_blocks a \<inter> L = {} \<and> tiles (bi_max_order a) (free_blocks a \<union> L) \<and>
     coalesced (bi_max_order a) (free_blocks a)"
proof -
  have "geo_ok (a\<lparr>bi_zeroed_bitmap := z\<rparr>) = geo_ok a" "bitmaps_ok (a\<lparr>bi_zeroed_bitmap := z\<rparr>) = bitmaps_ok a"
    "summary_exact (a\<lparr>bi_zeroed_bitmap := z\<rparr>) = summary_exact a"
    "free_blocks (a\<lparr>bi_zeroed_bitmap := z\<rparr>) = free_blocks a"
    by (simp_all add: geo_ok_def bitmaps_ok_def summary_exact_def free_blocks_def)
  then show ?thesis unfolding buddy_core_def by simp
qed

subsection \<open>Elementary steps\<close>

text \<open>A bitmap replaced by one with the same free blocks (only its cursor moved).\<close>

lemma core_put_same:
  assumes "buddy_core a L" "ord \<le> bi_max_order a" "bm_inv b"
    and "bm_slot_count b = bm_slot_count (bi_free_bitmaps a ! ord)"
    and "free_set b = free_set (bi_free_bitmaps a ! ord)"
  shows "buddy_core (put_bitmap a ord b) L" "free_blocks (put_bitmap a ord b) = free_blocks a"
proof -
  have bs: "bitmaps_ok a" using assms(1) by (simp add: buddy_core_def)
  have se: "summary_exact a" using assms(1) by (simp add: buddy_core_def)
  show fb: "free_blocks (put_bitmap a ord b) = free_blocks a"
    unfolding free_blocks_put [OF bs assms(2)] assms(5)
    by (rule set_eqI) (simp add: in_free_blocks assms(2) split_paired_all, blast intro: assms(2))
  have "summary_exact (put_bitmap a ord b)"
    unfolding summary_exact_put_same summary_exact_put [OF bs assms(2)]
    by (simp add: summary_exactD [OF se] assms(5))
  moreover have "bitmaps_ok (put_bitmap a ord b)"
    using assms core_bitmap [OF bs assms(2)] by (intro bitmaps_ok_put bs) auto
  ultimately show "buddy_core (put_bitmap a ord b) L"
    using assms(1) fb by (simp add: buddy_core_def)
qed

text \<open>Claiming a free block: it moves from the free blocks to the blocks in use.\<close>

lemma core_take:
  assumes "buddy_core a L" "ord \<le> bi_max_order a" "i \<in> free_set (bi_free_bitmaps a ! ord)"
    and "bm_inv b" "bm_slot_count b = bm_slot_count (bi_free_bitmaps a ! ord)"
    and "free_set b = free_set (bi_free_bitmaps a ! ord) - {i}"
  obtains a' where "maybe_clear_summary (put_bitmap a ord b) ord = Ret a'"
    "buddy_core a' (insert (ord, i) L)" "free_blocks a' = free_blocks a - {(ord, i)}" "same_rest a a'"
proof -
  define n where "n = (if free_set b = {} then bi_nonempty_orders a AND NOT (bit_at ord)
                       else bi_nonempty_orders a)"
  define a' where "a' = (put_bitmap a ord b)\<lparr>bi_nonempty_orders := n\<rparr>"
  have bs: "bitmaps_ok a" using assms(1) by (simp add: buddy_core_def)
  have se: "summary_exact a" using assms(1) by (simp add: buddy_core_def)
  have bs': "bitmaps_ok (put_bitmap a ord b)"
    using assms core_bitmap [OF bs assms(2)] by (intro bitmaps_ok_put bs) auto
  have len: "ord < length (bi_free_bitmaps a)" using core_bitmap(4) [OF bs assms(2)] .
  have eq: "maybe_clear_summary (put_bitmap a ord b) ord = Ret a'"
    using assms(4) len core_bitmap(1) [OF bs'] assms(2)
    by (simp add: maybe_clear_summary_def outcome_simps a'_def n_def put_bitmap_def)
  have fb: "free_blocks a' = free_blocks a - {(ord, i)}"
    unfolding a'_def core_congs free_blocks_put [OF bs assms(2)] assms(6)
    by (rule set_eqI) (simp add: in_free_blocks assms(2) split_paired_all, blast intro: assms(2))
  have mem: "(ord, i) \<in> free_blocks a" using assms(2,3) by (simp add: in_free_blocks)
  have sum: "summary_exact a'"
    unfolding a'_def summary_exact_put [OF bs assms(2)]
    using assms(2,3) by (auto simp: summary_exactD [OF se] n_def bit_facts)
  have "free_blocks a' \<union> insert (ord, i) L = free_blocks a \<union> L" unfolding fb using mem by blast
  moreover have "coalesced (bi_max_order a) (free_blocks a')"
    unfolding fb by (rule coalesced_subset [OF _ Diff_subset]) (use assms(1) in \<open>simp add: buddy_core_def\<close>)
  moreover have "free_blocks a' \<inter> insert (ord, i) L = {}"
    unfolding fb using assms(1) by (auto simp: buddy_core_def)
  moreover have "bitmaps_ok a'" "geo_ok a'" "buddy_scrub_wf a'" "bi_max_order a' = bi_max_order a"
    using assms(1) bs' by (simp_all add: a'_def buddy_core_def)
  ultimately have "buddy_core a' (insert (ord, i) L)"
    using assms(1) sum unfolding buddy_core_def by simp
  moreover have "same_rest a a'"
    unfolding a'_def by (rule same_rest_trans [OF same_rest_put same_rest_summary])
  ultimately show ?thesis using eq fb that by blast
qed

text \<open>Freeing a block in use whose buddy is not free.\<close>

lemma core_put:
  assumes "buddy_core a L" "(ord, i) \<in> L"
    and "ord < bi_max_order a \<Longrightarrow> buddy i \<notin> free_set (bi_free_bitmaps a ! ord)"
  defines "a1 \<equiv> a\<lparr>bi_nonempty_orders := bi_nonempty_orders a OR bit_at ord\<rparr>"
  obtains b b' where "bitmap_at a1 ord = Ret b" "free p b i = Ret b'"
    "buddy_core (put_bitmap a1 ord b') (L - {(ord, i)})"
    "free_blocks (put_bitmap a1 ord b') = insert (ord, i) (free_blocks a)"
    "same_rest a (put_bitmap a1 ord b')"
proof -
  let ?b = "bi_free_bitmaps a ! ord"
  let ?b' = "set_slot ?b i"
  let ?a' = "put_bitmap a1 ord ?b'"
  have v: "ord \<le> bi_max_order a" "i < 2 ^ (bi_max_order a - ord)"
    using core_validD [OF assms(1)] assms(2) by fastforce+
  have bs: "bitmaps_ok a" using assms(1) by (simp add: buddy_core_def)
  have se: "summary_exact a" using assms(1) by (simp add: buddy_core_def)
  note cb = core_bitmap [OF bs v(1)]
  have nf: "(ord, i) \<notin> free_blocks a" using assms(1,2) by (auto simp: buddy_core_def)
  then have ni: "i \<notin> free_set ?b" using v by (simp add: in_free_blocks)
  have b': "bm_inv ?b'" "free_set ?b' = insert i (free_set ?b)" "bm_slot_count ?b' = bm_slot_count ?b"
    using cb v by simp_all
  have bs1: "bitmaps_ok a1" by (simp add: a1_def bs)
  have bs': "bitmaps_ok ?a'" using b' cb v by (intro bitmaps_ok_put bs1) (auto simp: a1_def)
  have fb: "free_blocks ?a' = insert (ord, i) (free_blocks a)"
    using free_blocks_put [OF bs1, of ord ?b'] v(1) unfolding b'(2)
    by (intro set_eqI) (simp add: a1_def in_free_blocks split_paired_all, blast intro: v(1))
  have o64: "ord < 64" using core_maxD [of a] assms(1) v(1) by (simp add: buddy_core_def)
  have "?a' = (put_bitmap a ord ?b')\<lparr>bi_nonempty_orders := bi_nonempty_orders a OR bit_at ord\<rparr>"
    by (simp add: a1_def put_bitmap_def)
  then have sum: "summary_exact ?a'"
    using summary_exact_put [OF bs v(1)] b'(2) v(1) o64
    by (auto simp: summary_exactD [OF se] bit_facts)
  have un: "free_blocks ?a' \<union> (L - {(ord, i)}) = free_blocks a \<union> L"
    unfolding fb using assms(2) by blast
  have co: "coalesced (bi_max_order a) (free_blocks ?a')"
    unfolding fb using assms(1,3)
    by (intro coalesced_insert) (simp_all add: buddy_core_def in_free_blocks)
  have "free_blocks ?a' \<inter> (L - {(ord, i)}) = {}"
    unfolding fb using assms(1) by (auto simp: buddy_core_def)
  moreover have "geo_ok ?a'" "buddy_scrub_wf ?a'" "bi_max_order ?a' = bi_max_order a"
    using assms(1) by (simp_all add: a1_def buddy_core_def)
  ultimately have "buddy_core ?a' (L - {(ord, i)})"
    using assms(1) bs' sum co un unfolding buddy_core_def by simp
  moreover have "same_rest a ?a'"
    unfolding a1_def by (rule same_rest_trans [OF same_rest_summary same_rest_put])
  moreover have "bitmap_at a1 ord = Ret ?b" "free p ?b i = Ret ?b'"
    using cb v ni by (simp_all add: a1_def bitmap_at_def outcome_simps)
  ultimately show ?thesis using fb that by blast
qed

lemma core_split:
  assumes "buddy_core a L" "(Suc ord, i) \<in> L"
  shows "buddy_core a (insert (ord, 2 * i) (insert (ord, Suc (2 * i)) (L - {(Suc ord, i)})))"
    "(ord, 2 * i) \<notin> L" "(ord, Suc (2 * i)) \<notin> L"
proof -
  let ?S = "free_blocks a \<union> (L - {(Suc ord, i)})"
  have nf: "(Suc ord, i) \<notin> ?S" "free_blocks a \<inter> L = {}"
    using assms unfolding buddy_core_def by blast+
  have "insert (Suc ord, i) ?S = free_blocks a \<union> L" using assms(2) by blast
  with assms(1) have t: "tiles (bi_max_order a) (insert (Suc ord, i) ?S)"
    by (simp add: buddy_core_def)
  have "b \<notin> ?S" if "cover b \<subseteq> cover (Suc ord, i)" for b
  proof
    assume b: "b \<in> ?S"
    then have "b \<noteq> (Suc ord, i)" using nf(1) by blast
    with b have "cover b \<inter> cover (Suc ord, i) = {}" by (intro tiles_disjoint [OF t]) auto
    with that cover_nonempty [of b] show False by blast
  qed
  moreover have "cover (ord, 2 * i) \<subseteq> cover (Suc ord, i)" "cover (ord, Suc (2 * i)) \<subseteq> cover (Suc ord, i)"
    using cover_split [of ord i] by (simp_all only: Suc_eq_plus1 Un_upper1 Un_upper2)
  ultimately have new: "(ord, 2 * i) \<notin> ?S" "(ord, Suc (2 * i)) \<notin> ?S" by blast+
  then show "(ord, 2 * i) \<notin> L" "(ord, Suc (2 * i)) \<notin> L" by auto
  from new have "free_blocks a \<inter> insert (ord, 2 * i) (insert (ord, Suc (2 * i)) (L - {(Suc ord, i)})) = {}"
    using nf(2) by blast
  moreover have "insert (ord, 2 * i) (insert (ord, Suc (2 * i)) ?S) =
      free_blocks a \<union> insert (ord, 2 * i) (insert (ord, Suc (2 * i)) (L - {(Suc ord, i)}))" by blast
  ultimately show "buddy_core a (insert (ord, 2 * i) (insert (ord, Suc (2 * i)) (L - {(Suc ord, i)})))"
    using tiles_split [OF t nf(1)] assms(1) unfolding buddy_core_def by simp
qed

lemma core_merge:
  assumes "buddy_core a L" "(ord, i) \<in> L" "(ord, buddy i) \<in> L" "ord < bi_max_order a"
  shows "buddy_core a (insert (Suc ord, i div 2) (L - {(ord, i), (ord, buddy i)}))"
    "(Suc ord, i div 2) \<notin> L"
proof -
  let ?S = "free_blocks a \<union> (L - {(ord, i), (ord, buddy i)})"
  have t0: "tiles (bi_max_order a) (free_blocks a \<union> L)" and disj: "free_blocks a \<inter> L = {}"
    using assms(1) by (auto simp: buddy_core_def)
  have "insert (ord, i) (insert (ord, buddy i) ?S) = free_blocks a \<union> L" using assms(2,3) by blast
  with t0 have t: "tiles (bi_max_order a) (insert (ord, i) (insert (ord, buddy i) ?S))" by simp
  have parent: "(Suc ord, i div 2) \<notin> free_blocks a \<union> L"
  proof
    assume "(Suc ord, i div 2) \<in> free_blocks a \<union> L"
    then have "cover (Suc ord, i div 2) \<inter> cover (ord, i) = {}"
      using assms(2) by (intro tiles_disjoint [OF t0]) auto
    with cover_merge [of ord i] cover_nonempty [of "(ord, i)"] show False by blast
  qed
  have m: "tiles (bi_max_order a) (insert (Suc ord, i div 2) ?S)"
  proof (rule tiles_merge [OF t])
    show "(ord, i) \<notin> ?S" "(ord, buddy i) \<notin> ?S" using assms(2,3) disj by blast+
  qed (rule assms(4))
  have "insert (Suc ord, i div 2) ?S =
      free_blocks a \<union> insert (Suc ord, i div 2) (L - {(ord, i), (ord, buddy i)})" by blast
  moreover have "free_blocks a \<inter> insert (Suc ord, i div 2) (L - {(ord, i), (ord, buddy i)}) = {}"
    using parent disj by blast
  ultimately show "buddy_core a (insert (Suc ord, i div 2) (L - {(ord, i), (ord, buddy i)}))"
    using m assms(1) unfolding buddy_core_def by simp
  show "(Suc ord, i div 2) \<notin> L" using parent by blast
qed

end
