(* ===== verification/Buddy_Steps.thy ===== *)
theory Buddy_Steps
  imports Buddy_Invariant
begin

text \<open>
  The loops of the buddy arena keep the invariant and end where the code means them to end:
  the search finds the first order with a free block, splitting keeps the leftmost part,
  coalescing stops at a block whose buddy is not free, and a release puts that block back.
\<close>

subsection \<open>Search\<close>

text \<open>What a search over a list of orders returns: the first order of the list with a free block.\<close>

definition search_ok ::
    "'d BuddyArenaInner \<Rightarrow> block set \<Rightarrow> nat list \<Rightarrow> block option \<times> 'd BuddyArenaInner \<Rightarrow> bool" where
  "search_ok a L orders r \<longleftrightarrow>
     same_rest a (snd r) \<and>
     (case fst r of
        None \<Rightarrow>
          buddy_core (snd r) L \<and> free_blocks (snd r) = free_blocks a \<and>
          bi_nonempty_orders (snd r) = bi_nonempty_orders a \<and>
          fst ` free_blocks a \<inter> set orders = {}
      | Some blk \<Rightarrow>
          blk \<in> free_blocks a \<and> buddy_core (snd r) (insert blk L) \<and>
          free_blocks (snd r) = free_blocks a - {blk} \<and>
          (\<exists>xs ys. orders = xs @ fst blk # ys \<and> fst ` free_blocks a \<inter> set xs = {}))"

lemma search_ok_Cons:
  assumes "search_ok b L orders r" "free_blocks b = free_blocks a" "same_rest a b"
    and "bi_nonempty_orders b = bi_nonempty_orders a" "ord \<notin> fst ` free_blocks a"
  shows "search_ok a L (ord # orders) r"
proof (cases "fst r")
  case None
  with assms show ?thesis by (auto simp: search_ok_def intro: same_rest_trans)
next
  case (Some blk)
  with assms(1) obtain xs ys where "orders = xs @ fst blk # ys" "fst ` free_blocks b \<inter> set xs = {}"
    by (auto simp: search_ok_def)
  then have "ord # orders = (ord # xs) @ fst blk # ys" "fst ` free_blocks a \<inter> set (ord # xs) = {}"
    using assms(2,5) by auto
  then have "\<exists>xs ys. ord # orders = xs @ fst blk # ys \<and> fst ` free_blocks a \<inter> set xs = {}" by blast
  with Some assms same_rest_trans [OF assms(3)] show ?thesis unfolding search_ok_def by simp
qed

lemma no_free_at:
  "ord \<le> bi_max_order a \<Longrightarrow> ord \<in> fst ` free_blocks a \<longleftrightarrow> free_set (bi_free_bitmaps a ! ord) \<noteq> {}"
  by (force simp: free_blocks_def)

lemma try_orders_ok:
  assumes "buddy_core a L" "set orders \<subseteq> {..bi_max_order a}"
    and "summary = None \<or> summary = Some (bi_nonempty_orders a)"
  shows "\<exists>r. try_orders a summary orders = Ret r \<and> search_ok a L orders r"
  using assms
proof (induction orders arbitrary: a)
  case Nil
  then show ?case by (simp add: search_ok_def)
next
  case (Cons ord orders)
  have bs: "bitmaps_ok a" and se: "summary_exact a" using Cons.prems(1) by (simp_all add: buddy_core_def)
  have le: "ord \<le> bi_max_order a" using Cons.prems(2) by simp
  note cb = core_bitmap [OF bs le]
  let ?skip = "case summary of Some bits \<Rightarrow> bits AND bit_at ord = 0 | None \<Rightarrow> False"
  show ?case
  proof (cases ?skip)
    case True
    then have "ord \<notin> fst ` free_blocks a"
      using Cons.prems(3) le summary_exactD [OF se, of ord] no_free_at [OF le]
      by (auto simp: bit_facts)
    moreover obtain r where "try_orders a summary orders = Ret r" "search_ok a L orders r"
      using Cons.IH [of a] Cons.prems by auto
    ultimately show ?thesis using True search_ok_Cons [of a L orders r a ord] by simp
  next
    case False
    from cb(2) show ?thesis
    proof (cases rule: try_alloc_cases)
      case (full b')
      let ?a' = "put_bitmap a ord b'"
      have core: "buddy_core ?a' L" "free_blocks ?a' = free_blocks a"
        using full by (intro core_put_same [OF Cons.prems(1) le]; simp)+
      obtain r where r: "try_orders ?a' summary orders = Ret r" "search_ok ?a' L orders r"
        using Cons.IH [OF core(1)] Cons.prems(2,3) by auto
      have "ord \<notin> fst ` free_blocks a" using no_free_at [OF le] full by simp
      with search_ok_Cons [OF r(2) core(2)] r(1) False full(2) cb(1) show ?thesis by auto
    next
      case (claimed i b')
      obtain a' where a': "maybe_clear_summary (put_bitmap a ord b') ord = Ret a'"
          "buddy_core a' (insert (ord, i) L)" "free_blocks a' = free_blocks a - {(ord, i)}" "same_rest a a'"
        using core_take [OF Cons.prems(1) le claimed(1,3,5,4)] by blast
      have eq: "try_orders a summary (ord # orders) = Ret (Some (ord, i), a')"
        using False cb(1) claimed(2) a'(1) by simp
      have "search_ok a L (ord # orders) (Some (ord, i), a')"
        using a' claimed(1) le by (auto simp: search_ok_def in_free_blocks intro: exI [of _ "[]"])
      with eq show ?thesis by blast
    qed
  qed
qed

lemma upt_split_min:
  assumes "[t..<n] = xs @ ord # ys"
  shows "t \<le> ord" "ord < n" "set xs = {t..<ord}"
proof -
  have "length xs < length [t..<n]" unfolding assms by simp
  then have len: "t + length xs < n" by simp
  have "ord = [t..<n] ! length xs" unfolding assms by simp
  then have ord: "ord = t + length xs" using len by simp
  with len show "t \<le> ord" "ord < n" by auto
  have "xs = take (length xs) [t..<n]" unfolding assms by simp
  also have "\<dots> = [t..<ord]" using len ord by (simp add: take_upt)
  finally show "set xs = {t..<ord}" by simp
qed

text \<open>The smallest free order from \<open>target\<close> on, if there is one.\<close>

lemma search_from_target:
  assumes "buddy_core a L" "summary = None \<or> summary = Some (bi_nonempty_orders a)"
  obtains (none) a' where "try_allocate_from_orders a t summary = Ret (None, a')"
      "buddy_core a' L" "free_blocks a' = free_blocks a" "same_rest a a'"
      "bi_nonempty_orders a' = bi_nonempty_orders a" "\<forall>b \<in> free_blocks a. fst b < t"
  | (some) ord i a' where "try_allocate_from_orders a t summary = Ret (Some (ord, i), a')"
      "(ord, i) \<in> free_blocks a" "buddy_core a' (insert (ord, i) L)"
      "free_blocks a' = free_blocks a - {(ord, i)}" "same_rest a a'" "t \<le> ord"
      "\<forall>b \<in> free_blocks a. t \<le> fst b \<longrightarrow> ord \<le> fst b"
proof -
  have "set [t..<Suc (bi_max_order a)] \<subseteq> {..bi_max_order a}" by (auto simp del: upt_Suc)
  from try_orders_ok [OF assms(1) this assms(2)]
  obtain r where r: "try_allocate_from_orders a t summary = Ret r"
      "search_ok a L [t..<Suc (bi_max_order a)] r"
    unfolding try_allocate_from_orders_def by blast
  show ?thesis
  proof (cases "fst r")
    case None
    then have "\<forall>b \<in> free_blocks a. fst b < t"
      using r(2) unfolding search_ok_def by (force simp: free_blocks_def simp del: upt_Suc)
    with None r none [of "snd r"] show ?thesis
      by (cases r) (simp add: search_ok_def del: upt_Suc)
  next
    case (Some blk)
    with r(2) obtain xs ys where xs: "[t..<Suc (bi_max_order a)] = xs @ fst blk # ys"
        "fst ` free_blocks a \<inter> set xs = {}" by (auto simp: search_ok_def simp del: upt_Suc)
    note u = upt_split_min [OF xs(1)]
    have "\<forall>b \<in> free_blocks a. t \<le> fst b \<longrightarrow> fst blk \<le> fst b"
      using xs(2) unfolding u(3) by (metis atLeastLessThan_iff disjoint_iff image_eqI not_le)
    with Some r u(1) some [of "fst blk" "snd blk" "snd r"] show ?thesis
      by (cases r) (simp add: search_ok_def del: upt_Suc)
  qed
qed

subsection \<open>Splitting\<close>

text \<open>
  Splitting a held block down to the target keeps the leftmost part and frees every right
  sibling on the way.
\<close>

lemma split_loop_ok:
  assumes "buddy_core a L" "(ord, i) \<in> L" "t \<le> ord"
  shows "\<exists>a'. split_loop p a ord i t n = Ret ((t, i * 2 ^ (ord - t)), n + (ord - t), a') \<and>
    buddy_core a' (insert (t, i * 2 ^ (ord - t)) (L - {(ord, i)})) \<and> same_rest a a'"
  using assms
proof (induction "ord - t" arbitrary: a L ord i n)
  case 0
  then have "ord = t" by simp
  with 0 show ?case by (subst split_loop.simps) (auto simp: insert_absorb)
next
  case (Suc k)
  then obtain c where c: "ord = Suc c" "t \<le> c" "k = c - t" by (cases ord) auto
  let ?L = "insert (c, 2 * i) (insert (c, Suc (2 * i)) (L - {(ord, i)}))"
  have core: "buddy_core a ?L" using core_split [of a L c i] Suc.prems c by simp
  have nb: "(c, 2 * i) \<notin> free_blocks a" using core by (auto simp: buddy_core_def)
  have cM: "c \<le> bi_max_order a" using core_validD [OF core, of "(c, 2 * i)"] by simp
  have right: "(c, Suc (2 * i)) \<in> ?L" by simp
  have lone: "buddy (Suc (2 * i)) \<notin> free_set (bi_free_bitmaps a ! c)"
    using nb cM by (simp add: in_free_blocks)
  let ?a1 = "a\<lparr>bi_nonempty_orders := bi_nonempty_orders a OR bit_at c\<rparr>"
  obtain b b' where put: "bitmap_at ?a1 c = Ret b" "free p b (Suc (2 * i)) = Ret b'"
      "buddy_core (put_bitmap ?a1 c b') (?L - {(c, Suc (2 * i))})" "same_rest a (put_bitmap ?a1 c b')"
    using core_put [OF core right lone, where p = p] by metis
  let ?L1 = "?L - {(c, Suc (2 * i))}"
  obtain a' where a': "split_loop p (put_bitmap ?a1 c b') c (2 * i) t (n + 1) =
        Ret ((t, 2 * i * 2 ^ (c - t)), n + 1 + (c - t), a')"
      "buddy_core a' (insert (t, 2 * i * 2 ^ (c - t)) (?L1 - {(c, 2 * i)}))"
      "same_rest (put_bitmap ?a1 c b') a'"
    using Suc.hyps(1) [OF c(3) put(3) _ c(2), of "2 * i" "n + 1"] by auto
  have "(c, 2 * i) \<notin> L" "(c, Suc (2 * i)) \<notin> L" using core_split(2,3) [of a L c i] Suc.prems c by auto
  then have L: "?L1 - {(c, 2 * i)} = L - {(ord, i)}" by auto
  have e: "i * 2 ^ (ord - t) = 2 * i * 2 ^ (c - t)" "n + (ord - t) = n + 1 + (c - t)"
    using c by (simp_all add: Suc_diff_le)
  have "split_loop p a ord i t n = split_loop p (put_bitmap ?a1 c b') c (2 * i) t (n + 1)"
    using c put(1,2) by (subst split_loop.simps) (simp add: mult.commute)
  then show ?case unfolding e using a' L same_rest_trans [OF put(4) a'(3)] by auto
qed

subsection \<open>Coalescing\<close>

lemma xor_1_buddy: "(i :: nat) XOR 1 = buddy i"
  by (simp add: buddy_def xor_Suc_0_eq)

lemma buddy_slot_valid:
  assumes "buddy_core a L" "(ord, i) \<in> L" "ord < bi_max_order a"
  shows "buddy i < bm_slot_count (bi_free_bitmaps a ! ord)"
proof -
  have "valid_block (bi_max_order a) (ord, i)" using core_validD [OF assms(1)] assms(2) by blast
  moreover have "bitmaps_ok a" using assms(1) by (simp add: buddy_core_def)
  ultimately show ?thesis
    using valid_block_buddy [of "bi_max_order a" ord i] core_bitmap(3) [of a ord] assms(3) by simp
qed

text \<open>One round of the loop: the buddy is not free and the loop stops, or both are merged.\<close>

lemma coalesce_stop:
  assumes "buddy_core a L" "(ord, i) \<in> L" "ord < bi_max_order a"
    and "buddy i \<notin> free_set (bi_free_bitmaps a ! ord)"
  obtains a' where "coalesce_loop p a ord i = Ret ((ord, i), a')" "buddy_core a' L" "same_rest a a'"
    "buddy i \<notin> free_set (bi_free_bitmaps a' ! ord)"
proof -
  have bs: "bitmaps_ok a" using assms(1) by (simp add: buddy_core_def)
  note cb = core_bitmap [OF bs less_imp_le [OF assms(3)]]
  note vb = buddy_slot_valid [OF assms(1-3)]
  let ?b' = "clear_slot (bi_free_bitmaps a ! ord) (buddy i)"
  let ?a' = "put_bitmap a ord ?b'"
  have "buddy_core ?a' L"
    using cb vb assms(4) by (intro core_put_same [OF assms(1) less_imp_le [OF assms(3)]]; simp)
  moreover have "coalesce_loop p a ord i = Ret ((ord, i), ?a')"
    using assms(3,4) cb(1) try_claim_exact_Ret [OF cb(2) vb, of p]
    by (subst coalesce_loop.simps) (simp add: xor_1_buddy [simplified])
  moreover have "buddy i \<notin> free_set (bi_free_bitmaps ?a' ! ord)" using assms(4) cb(2,4) vb by simp
  ultimately show ?thesis using that by (metis same_rest_put)
qed

lemma coalesce_step:
  assumes "buddy_core a L" "(ord, i) \<in> L" "ord < bi_max_order a"
    and "buddy i \<in> free_set (bi_free_bitmaps a ! ord)"
  obtains a' where "coalesce_loop p a ord i = coalesce_loop p a' (Suc ord) (i div 2)"
    "buddy_core a' (insert (Suc ord, i div 2) (L - {(ord, i)}))" "(Suc ord, i div 2) \<notin> L" "same_rest a a'"
proof -
  have bs: "bitmaps_ok a" using assms(1) by (simp add: buddy_core_def)
  note cb = core_bitmap [OF bs less_imp_le [OF assms(3)]]
  note vb = buddy_slot_valid [OF assms(1-3)]
  let ?b' = "clear_slot (bi_free_bitmaps a ! ord) (buddy i)"
  obtain a1 where a1: "maybe_clear_summary (put_bitmap a ord ?b') ord = Ret a1"
      "buddy_core a1 (insert (ord, buddy i) L)" "same_rest a a1"
    using core_take [OF assms(1) less_imp_le [OF assms(3)] assms(4), of ?b'] cb(2) vb by auto
  let ?a2 = "a1\<lparr>bi_metrics := record_coalesce (bi_metrics a1)\<rparr>"
  have M: "bi_max_order a1 = bi_max_order a" using same_rest_simps(1) [OF a1(3)] .
  have "(ord, buddy i) \<in> free_blocks a" using assms(3,4) by (simp add: in_free_blocks)
  then have "(ord, buddy i) \<notin> L" using assms(1) unfolding buddy_core_def by blast
  then have L: "insert (ord, buddy i) L - {(ord, i), (ord, buddy i)} = L - {(ord, i)}" by auto
  have "buddy_core ?a2 (insert (Suc ord, i div 2) (L - {(ord, i)}))" "(Suc ord, i div 2) \<notin> L"
    using core_merge [OF a1(2), of ord i] assms(2,3) M L by auto
  moreover have "coalesce_loop p a ord i = coalesce_loop p ?a2 (Suc ord) (i div 2)"
    using assms(3,4) cb(1) try_claim_exact_Ret [OF cb(2) vb, of p] a1(1)
    by (subst coalesce_loop.simps) (simp add: xor_1_buddy [simplified])
  moreover have "same_rest a ?a2"
    using same_rest_trans [OF a1(3)] same_rest_metrics [of "record_coalesce (bi_metrics a1)" a1]
    by simp
  ultimately show ?thesis using that by blast
qed

text \<open>
  Coalescing ends with a held block that contains the released one and whose buddy, if it has
  one, is in use or split.
\<close>

lemma coalesce_loop_ok:
  assumes "buddy_core a L" "(ord, i) \<in> L"
  shows "\<exists>ord' i' a'. coalesce_loop p a ord i = Ret ((ord', i'), a') \<and>
    buddy_core a' (insert (ord', i') (L - {(ord, i)})) \<and> same_rest a a' \<and>
    ord \<le> ord' \<and> cover (ord, i) \<subseteq> cover (ord', i') \<and> (ord', i') \<notin> L - {(ord, i)} \<and>
    (ord' < bi_max_order a \<longrightarrow> buddy i' \<notin> free_set (bi_free_bitmaps a' ! ord'))"
  using assms
proof (induction "bi_max_order a - ord" arbitrary: a L ord i)
  case 0
  then have "coalesce_loop p a ord i = Ret ((ord, i), a)" by (subst coalesce_loop.simps) simp
  with 0 show ?case by (intro exI [of _ ord] exI [of _ i] exI [of _ a]) (auto simp: insert_absorb)
next
  case (Suc k)
  then have lt: "ord < bi_max_order a" by simp
  show ?case
  proof (cases "buddy i \<in> free_set (bi_free_bitmaps a ! ord)")
    case False
    obtain a' where "coalesce_loop p a ord i = Ret ((ord, i), a')" "buddy_core a' L" "same_rest a a'"
        "buddy i \<notin> free_set (bi_free_bitmaps a' ! ord)"
      using coalesce_stop [OF Suc.prems lt False] by blast
    with Suc.prems(2) show ?thesis
      by (intro exI [of _ ord] exI [of _ i] exI [of _ a']) (auto simp: insert_absorb)
  next
    case True
    let ?P = "(Suc ord, i div 2)"
    obtain a2 where a2: "coalesce_loop p a ord i = coalesce_loop p a2 (Suc ord) (i div 2)"
        "buddy_core a2 (insert ?P (L - {(ord, i)}))" "?P \<notin> L" "same_rest a a2"
      using coalesce_step [OF Suc.prems lt True] by blast
    have M: "bi_max_order a2 = bi_max_order a" using same_rest_simps(1) [OF a2(4)] .
    have "k = bi_max_order a2 - Suc ord" using Suc.hyps(2) M by simp
    moreover have "insert ?P (L - {(ord, i)}) - {?P} = L - {(ord, i)}" using a2(3) by auto
    ultimately obtain ord' i' a' where
      "coalesce_loop p a2 (Suc ord) (i div 2) = Ret ((ord', i'), a')"
      "buddy_core a' (insert (ord', i') (L - {(ord, i)}))" "same_rest a2 a'" "Suc ord \<le> ord'"
      "cover ?P \<subseteq> cover (ord', i')" "(ord', i') \<notin> L - {(ord, i)}"
      "ord' < bi_max_order a2 \<longrightarrow> buddy i' \<notin> free_set (bi_free_bitmaps a' ! ord')"
      using Suc.hyps(1) [OF _ a2(2) insertI1] by metis
    moreover have "cover (ord, i) \<subseteq> cover ?P" using cover_merge [of ord i] by blast
    ultimately show ?thesis using a2(1,4) M same_rest_trans [of a a2 a']
      by (intro exI [of _ ord'] exI [of _ i'] exI [of _ a']) auto
  qed
qed

subsection \<open>Memory\<close>

fun block_region :: "'d BuddyArenaInner \<Rightarrow> block \<Rightarrow> nat set" where
  "block_region a (ord, i) =
     (let sz = bi_min_block_size a * 2 ^ ord in {i * sz ..< i * sz + sz})"

text \<open>A byte belongs to a block when its order-0 unit does.\<close>

lemma in_block_region:
  assumes "0 < bi_min_block_size a"
  shows "x \<in> block_region a b \<longleftrightarrow> x div bi_min_block_size a \<in> cover b"
proof (cases b)
  case (Pair ord i)
  let ?s = "bi_min_block_size a * 2 ^ ord"
  have s: "0 < ?s" using assms by simp
  have "x \<in> block_region a b \<longleftrightarrow> x div ?s = i"
  proof
    assume "x \<in> block_region a b"
    then show "x div ?s = i" using Pair by (intro div_nat_eqI) (auto simp: Let_def mult.commute)
  next
    assume i: "x div ?s = i"
    have "x div ?s * ?s \<le> x" by (rule div_times_less_eq_dividend)
    moreover have "x < x div ?s * ?s + ?s" using dividend_less_div_times [OF s, of x] by simp
    ultimately show "x \<in> block_region a b" using Pair unfolding i by (simp add: Let_def)
  qed
  then show ?thesis using Pair by (simp add: div_mult2_eq)
qed

lemma geo_ok_pos: "geo_ok a \<Longrightarrow> 0 < bi_min_block_size a"
  by (simp add: geo_ok_def is_power_of_two_pos)

lemma block_regions_disjoint:
  assumes "buddy_core a L" "b \<in> L" "c \<in> L" "b \<noteq> c"
  shows "block_region a b \<inter> block_region a c = {}"
proof -
  have "0 < bi_min_block_size a" using assms(1) by (simp add: buddy_core_def geo_ok_pos)
  moreover have "cover b \<inter> cover c = {}"
    using assms by (intro tiles_disjoint [of "bi_max_order a" "free_blocks a \<union> L"]) (auto simp: buddy_core_def)
  ultimately show ?thesis by (auto simp: in_block_region)
qed

lemma block_region_in_arena:
  assumes "buddy_core a L" "b \<in> L"
  shows "block_region a b \<subseteq> {..<bi_total_size a}"
proof
  fix x assume x: "x \<in> block_region a b"
  have g: "geo_ok a" using assms(1) by (simp add: buddy_core_def)
  then have pos: "0 < bi_min_block_size a" by (rule geo_ok_pos)
  have "cover b \<subseteq> {..<2 ^ bi_max_order a}" using cover_valid core_validD [OF assms(1)] assms(2) by blast
  with x have "x div bi_min_block_size a < 2 ^ bi_max_order a" using in_block_region [OF pos] by blast
  then have "x < 2 ^ bi_max_order a * bi_min_block_size a" using pos by (simp add: div_less_iff_less_mult)
  then show "x \<in> {..<bi_total_size a}" using g by (simp add: geo_ok_def mult.commute)
qed

text \<open>The promise of the scrub bitmap: a scrubbed unit that is not in use holds only zeros.\<close>

definition buddy_scrubbed :: "'d BuddyArenaInner \<Rightarrow> block set \<Rightarrow> bool" where
  "buddy_scrubbed a L \<longleftrightarrow>
     (\<forall>z x. bi_zeroed_bitmap a = Some z \<and> x div bi_min_block_size a \<in> free_set z \<and>
        x div bi_min_block_size a \<notin> \<Union> (cover ` L) \<longrightarrow> bi_mem a x = 0)"

lemma block_size_Ret [outcome_simps]:
  assumes "geo_ok a" "ord \<le> bi_max_order a"
  shows "block_size p a ord = Ret (bi_min_block_size a * 2 ^ ord)"
proof -
  have "bi_min_block_size a * 2 ^ ord \<le> bi_min_block_size a * 2 ^ bi_max_order a"
    using assms(2) by (intro mult_left_mono power_increasing) auto
  also have "\<dots> < 2 ^ 64" using assms(1) unfolding geo_ok_def by metis
  finally show ?thesis
    unfolding block_size_def using assms core_maxD [OF assms(1)] by (intro shl_small) auto
qed

lemma block_offset_Ret [outcome_simps]:
  "geo_ok a \<Longrightarrow> ord \<le> bi_max_order a \<Longrightarrow>
     block_offset p a ord i = Ret (i * (bi_min_block_size a * 2 ^ ord))"
  by (simp add: block_offset_def block_size_Ret)

lemma cover_in_units:
  assumes "valid_block M (ord, i)"
  shows "i * 2 ^ ord + 2 ^ ord \<le> 2 ^ M" "{i * 2 ^ ord ..< i * 2 ^ ord + 2 ^ ord} = cover (ord, i)"
proof -
  show eq: "{i * 2 ^ ord ..< i * 2 ^ ord + 2 ^ ord} = cover (ord, i)" by (simp only: cover_interval)
  have "0 < (2::nat) ^ ord" by simp
  then have "i * 2 ^ ord + 2 ^ ord - 1 \<in> cover (ord, i)"
    unfolding cover_interval atLeastLessThan_iff by linarith
  then have "i * 2 ^ ord + 2 ^ ord - 1 < 2 ^ M" using cover_valid [OF assms] by blast
  then show "i * 2 ^ ord + 2 ^ ord \<le> 2 ^ M" by linarith
qed

lemma zero_block_on_alloc_Ret:
  assumes "buddy_scrub_wf a" "geo_ok a" "valid_block (bi_max_order a) (ord, i)"
  defines "R \<equiv> block_region a (ord, i)"
  shows "\<exists>m. zero_block_on_alloc E p a (ord, i) (i * (bi_min_block_size a * 2 ^ ord))
        (bi_min_block_size a * 2 ^ ord) = Ret (a\<lparr>bi_mem := m\<rparr>) \<and>
    (\<forall>x. x \<notin> R \<longrightarrow> m x = bi_mem a x) \<and>
    (bi_init_policy a = Zero \<and> zeroize_ok E \<and> buddy_scrubbed a L \<and>
       cover (ord, i) \<inter> \<Union> (cover ` L) = {} \<longrightarrow> (\<forall>x \<in> R. m x = 0))"
proof (cases "bi_zeroed_bitmap a")
  case None
  with assms(1) have "bi_init_policy a = Uninit" by (simp add: buddy_scrub_wf_def)
  with None show ?thesis by (intro exI [of _ "bi_mem a"]) (simp add: zero_block_on_alloc_def)
next
  case (Some z)
  with assms(1) have z: "bi_init_policy a = Zero" "bm_inv z" "bm_slot_count z = 2 ^ bi_max_order a"
    by (auto simp: buddy_scrub_wf_def)
  note u = cover_in_units [OF assms(3)]
  have r: "all_set_in_range p z (i * 2 ^ ord) (i * 2 ^ ord + 2 ^ ord) = Ret (cover (ord, i) \<subseteq> free_set z)"
    using all_set_in_range_Ret [OF z(2), of "i * 2 ^ ord" "i * 2 ^ ord + 2 ^ ord" p] u z(3) by simp
  have pos: "0 < bi_min_block_size a" using assms(2) by (rule geo_ok_pos)
  show ?thesis
  proof (cases "cover (ord, i) \<subseteq> free_set z")
    case True
    then have "\<forall>x \<in> R. bi_mem a x = 0"
      if "buddy_scrubbed a L" "cover (ord, i) \<inter> \<Union> (cover ` L) = {}"
      using that Some in_block_region [OF pos] unfolding R_def buddy_scrubbed_def by blast
    with True Some z r show ?thesis
      by (intro exI [of _ "bi_mem a"]) (simp add: zero_block_on_alloc_def)
  next
    case False
    let ?m = "zeroize_region E (bi_mem a) (i * (bi_min_block_size a * 2 ^ ord)) (bi_min_block_size a * 2 ^ ord)"
    have "?m x = bi_mem a x" if "x \<notin> R" for x
      using that by (intro zeroize_region_outside) (auto simp: R_def Let_def)
    moreover have "?m x = 0" if "x \<in> R" "zeroize_ok E" for x
      using that by (intro zeroize_region_inside) (auto simp: R_def Let_def)
    ultimately show ?thesis using False Some z r
      by (intro exI [of _ ?m]) (simp add: zero_block_on_alloc_def)
  qed
qed

lemma buddy_scrubbed_release:
  assumes "0 < bi_min_block_size a" "bi_zeroed_bitmap a = Some z" "free_set z' = free_set z \<union> cover b"
    and "\<forall>x \<in> block_region a b. m x = 0" "\<forall>x. x \<notin> block_region a b \<longrightarrow> m x = bi_mem a x"
    and "buddy_scrubbed a L"
  shows "buddy_scrubbed (a\<lparr>bi_mem := m, bi_zeroed_bitmap := Some z'\<rparr>) (L - {b})"
proof -
  have "m x = 0" if x: "x div bi_min_block_size a \<in> free_set z'"
      "x div bi_min_block_size a \<notin> \<Union> (cover ` (L - {b}))" for x
  proof (cases "x \<in> block_region a b")
    case False
    then have "x div bi_min_block_size a \<notin> cover b" using in_block_region [OF assms(1)] by blast
    with x assms(3) have "x div bi_min_block_size a \<in> free_set z"
        "x div bi_min_block_size a \<notin> \<Union> (cover ` L)" by blast+
    with assms(2,6) have "bi_mem a x = 0" unfolding buddy_scrubbed_def by blast
    with assms(5) False show ?thesis by simp
  qed (use assms(4) in blast)
  then show ?thesis by (simp add: buddy_scrubbed_def)
qed

lemma scrub_block_Ret:
  assumes "buddy_core a L" "(ord, i) \<in> L"
  obtains m z where "scrub_block E p a ord i = Ret (a\<lparr>bi_mem := m, bi_zeroed_bitmap := z\<rparr>)"
    "buddy_core (a\<lparr>bi_mem := m, bi_zeroed_bitmap := z\<rparr>) L"
    "\<forall>x. x \<notin> block_region a (ord, i) \<longrightarrow> m x = bi_mem a x"
    "zeroize_ok E \<Longrightarrow> buddy_scrubbed a L \<Longrightarrow>
       buddy_scrubbed (a\<lparr>bi_mem := m, bi_zeroed_bitmap := z\<rparr>) (L - {(ord, i)})"
proof -
  have g: "geo_ok a" and wf: "buddy_scrub_wf a" using assms(1) by (simp_all add: buddy_core_def)
  have v: "valid_block (bi_max_order a) (ord, i)" using core_validD [OF assms(1)] assms(2) by blast
  then have le: "ord \<le> bi_max_order a" by simp
  have pos: "0 < bi_min_block_size a" using g by (rule geo_ok_pos)
  show ?thesis
  proof (cases "bi_zeroed_bitmap a")
    case None
    with wf have "bi_init_policy a = Uninit" by (simp add: buddy_scrub_wf_def)
    moreover have id: "a\<lparr>bi_mem := bi_mem a, bi_zeroed_bitmap := None\<rparr> = a" using None by simp
    ultimately show ?thesis using None assms(1)
      by (intro that [where m = "bi_mem a" and z = None, unfolded id])
        (simp_all add: scrub_block_def buddy_scrubbed_def)
  next
    case (Some z)
    with wf have z: "bi_init_policy a = Zero" "bm_inv z" "bm_slot_count z = 2 ^ bi_max_order a"
      by (auto simp: buddy_scrub_wf_def)
    note u = cover_in_units [OF v]
    obtain z' where z': "set_range p z (i * 2 ^ ord) (i * 2 ^ ord + 2 ^ ord) = Ret z'" "bm_inv z'"
        "free_set z' = free_set z \<union> cover (ord, i)" "bm_slot_count z' = bm_slot_count z"
      using set_range_Ret [OF z(2), of "i * 2 ^ ord" "i * 2 ^ ord + 2 ^ ord" p] u z(3) by auto
    let ?s = "bi_min_block_size a * 2 ^ ord"
    let ?m = "zeroize_region E (bi_mem a) (i * ?s) ?s"
    let ?a' = "a\<lparr>bi_mem := ?m, bi_zeroed_bitmap := Some z'\<rparr>"
    have out: "?m x = bi_mem a x" if "x \<notin> block_region a (ord, i)" for x
      using that by (intro zeroize_region_outside) (auto simp: Let_def)
    have inn: "?m x = 0" if "x \<in> block_region a (ord, i)" "zeroize_ok E" for x
      using that by (intro zeroize_region_inside) (auto simp: Let_def)
    have "buddy_scrub_wf (a\<lparr>bi_zeroed_bitmap := Some z'\<rparr>)" using z z' by (simp add: buddy_scrub_wf_def)
    then have "buddy_core (a\<lparr>bi_zeroed_bitmap := Some z'\<rparr>) L"
      using assms(1) [unfolded buddy_core_def] unfolding core_zeroed by (elim conjE) (intro conjI)
    moreover have "?a' = (a\<lparr>bi_zeroed_bitmap := Some z'\<rparr>)\<lparr>bi_mem := ?m\<rparr>" by simp
    ultimately have "buddy_core ?a' L" by (simp only: core_congs)
    moreover have "scrub_block E p a ord i = Ret ?a'"
      using z Some z'(1) block_size_Ret [OF g le] by (simp add: scrub_block_def)
    moreover have "buddy_scrubbed ?a' (L - {(ord, i)})" if "zeroize_ok E" "buddy_scrubbed a L"
      using that inn out by (intro buddy_scrubbed_release [OF pos Some z'(3)]) auto
    ultimately show ?thesis using out that by blast
  qed
qed

subsection \<open>Release\<close>

text \<open>The parts of the state that no allocation or release changes.\<close>

definition same_arena :: "'d BuddyArenaInner \<Rightarrow> 'd BuddyArenaInner \<Rightarrow> bool" where
  "same_arena a a' \<longleftrightarrow>
     bi_max_order a' = bi_max_order a \<and> bi_min_block_size a' = bi_min_block_size a \<and>
     bi_total_size a' = bi_total_size a \<and> bi_init_policy a' = bi_init_policy a \<and>
     bi_cap_capacity a' = bi_cap_capacity a \<and> bi_auto_spill a' = bi_auto_spill a \<and>
     bi_ptr a' = bi_ptr a \<and> bi_wake_handle a' = bi_wake_handle a \<and>
     bi_dealloc a' = bi_dealloc a \<and> bi_dealloc_len a' = bi_dealloc_len a"

lemma same_rest_arena: "same_rest a a' \<Longrightarrow> same_arena a a'"
  by (simp add: same_arena_def same_rest_simps)

lemma same_arena_trans: "same_arena a b \<Longrightarrow> same_arena b c \<Longrightarrow> same_arena a c"
  by (simp add: same_arena_def)

lemma same_arena_upd [simp]:
  "same_arena a (a\<lparr>bi_mem := m\<rparr>)" "same_arena a (a\<lparr>bi_metrics := ms\<rparr>)"
  "same_arena a (a\<lparr>bi_mem := m, bi_zeroed_bitmap := z\<rparr>)"
  by (simp_all add: same_arena_def)

lemma same_arena_region: "same_arena a a' \<Longrightarrow> block_region a' b = block_region a b"
  by (cases b) (simp add: same_arena_def)

lemma same_arena_bytes: "same_arena a a' \<Longrightarrow> block_bytes a' b = block_bytes a b"
  by (cases b) (simp add: same_arena_def)

lemma buddy_scrubbed_same_rest: "same_rest a a' \<Longrightarrow> buddy_scrubbed a' L = buddy_scrubbed a L"
  by (simp add: buddy_scrubbed_def same_rest_simps)

lemma release_block_ok:
  assumes "buddy_core a L" "(ord, i) \<in> L"
  obtains w a' where "release_block E p a ord i = Ret (w, a')" "buddy_core a' (L - {(ord, i)})"
    "same_arena a a'" "\<And>c b. ledger (bi_metrics a') c b = ledger (bi_metrics a) c b"
    "\<forall>x. x \<notin> block_region a (ord, i) \<longrightarrow> bi_mem a' x = bi_mem a x"
    "zeroize_ok E \<Longrightarrow> buddy_scrubbed a L \<Longrightarrow> buddy_scrubbed a' (L - {(ord, i)})"
    "w = None \<longleftrightarrow> \<not> bi_wake_handle a" "\<And>n. w = Some n \<Longrightarrow> ord \<le> n \<and> n \<le> bi_max_order a"
    "\<exists>b \<in> free_blocks a'. cover (ord, i) \<subseteq> cover b \<and> (\<forall>n. w = Some n \<longrightarrow> n = fst b)"
proof -
  obtain m z where s: "scrub_block E p a ord i = Ret (a\<lparr>bi_mem := m, bi_zeroed_bitmap := z\<rparr>)"
    "buddy_core (a\<lparr>bi_mem := m, bi_zeroed_bitmap := z\<rparr>) L"
    "\<forall>x. x \<notin> block_region a (ord, i) \<longrightarrow> m x = bi_mem a x"
    "zeroize_ok E \<Longrightarrow> buddy_scrubbed a L \<Longrightarrow>
       buddy_scrubbed (a\<lparr>bi_mem := m, bi_zeroed_bitmap := z\<rparr>) (L - {(ord, i)})"
    using scrub_block_Ret [OF assms] by metis
  let ?a1 = "a\<lparr>bi_mem := m, bi_zeroed_bitmap := z\<rparr>"
  obtain o' i' a2 where c: "coalesce_loop p ?a1 ord i = Ret ((o', i'), a2)"
    "buddy_core a2 (insert (o', i') (L - {(ord, i)}))" "same_rest ?a1 a2" "ord \<le> o'"
    "cover (ord, i) \<subseteq> cover (o', i')" "(o', i') \<notin> L - {(ord, i)}"
    "o' < bi_max_order ?a1 \<longrightarrow> buddy i' \<notin> free_set (bi_free_bitmaps a2 ! o')"
    using coalesce_loop_ok [OF s(2) assms(2), of p] by blast
  have M: "bi_max_order a2 = bi_max_order a" "bi_wake_handle a2 = bi_wake_handle a"
    using same_rest_simps [OF c(3)] by simp_all
  let ?a3 = "a2\<lparr>bi_nonempty_orders := bi_nonempty_orders a2 OR bit_at o'\<rparr>"
  have lone: "o' < bi_max_order a2 \<Longrightarrow> buddy i' \<notin> free_set (bi_free_bitmaps a2 ! o')"
    using c(7) M by simp
  obtain b b' where put: "bitmap_at ?a3 o' = Ret b" "free p b i' = Ret b'"
    "buddy_core (put_bitmap ?a3 o' b') (insert (o', i') (L - {(ord, i)}) - {(o', i')})"
    "free_blocks (put_bitmap ?a3 o' b') = insert (o', i') (free_blocks a2)"
    "same_rest a2 (put_bitmap ?a3 o' b')"
    using core_put [OF c(2) insertI1 lone, where p = p] by metis
  let ?a' = "put_bitmap ?a3 o' b'"
  have L: "insert (o', i') (L - {(ord, i)}) - {(o', i')} = L - {(ord, i)}" using c(6) by auto
  have sr: "same_rest ?a1 ?a'" using same_rest_trans [OF c(3) put(5)] .
  have oM: "o' \<le> bi_max_order a"
    using core_validD [OF c(2), of "(o', i')"] M(1) by simp
  let ?w = "if bi_wake_handle a then Some o' else None"
  show ?thesis
  proof (rule that [of ?w ?a'])
    show "release_block E p a ord i = Ret (?w, ?a')"
      using s(1) c(1) put(1,2) M(2) by (simp add: release_block_def)
    show "buddy_core ?a' (L - {(ord, i)})" using put(3) L by simp
    show "same_arena a ?a'"
      by (rule same_arena_trans [OF _ same_rest_arena [OF sr]]) simp
    show "ledger (bi_metrics ?a') c b = ledger (bi_metrics a) c b" for c b
      using same_rest_simps(13) [OF sr, of c b] by simp
    show "\<forall>x. x \<notin> block_region a (ord, i) \<longrightarrow> bi_mem ?a' x = bi_mem a x"
      using s(3) same_rest_simps(4) [OF sr] by simp
    show "buddy_scrubbed ?a' (L - {(ord, i)})" if "zeroize_ok E" "buddy_scrubbed a L"
      using s(4) [OF that] buddy_scrubbed_same_rest [OF sr] by simp
    show "\<exists>b \<in> free_blocks ?a'. cover (ord, i) \<subseteq> cover b \<and> (\<forall>n. ?w = Some n \<longrightarrow> n = fst b)"
      using c(5) put(4) by (intro bexI [of _ "(o', i')"]) auto
  qed (use oM c(4) in \<open>auto split: if_splits\<close>)
qed

end
