(* ===== verification/Buddy_Correct.thy ===== *)
theory Buddy_Correct
  imports Buddy_Steps
begin

text \<open>
  The buddy arena is correct: what allocation and release guarantee, when allocation fails,
  that nothing is lost to fragmentation that could be merged, and what the builders return.
\<close>

subsection \<open>Allocation\<close>

text \<open>A request up to \<open>2 ^ 63\<close> bytes is rounded to the smallest order that holds it.\<close>

lemma order_for_request_ok:
  assumes "geo_ok a" "len \<le> 2 ^ 63"
  shows "(bi_total_size a < len \<and> order_for_request p a len = Ret None) \<or>
    (\<exists>t \<le> bi_max_order a. order_for_request p a len = Ret (Some t) \<and> len \<le> bi_total_size a \<and>
       len \<le> bi_min_block_size a * 2 ^ t \<and> (\<forall>u. len \<le> bi_min_block_size a * 2 ^ u \<longrightarrow> t \<le> u))"
proof -
  obtain k where k: "bi_min_block_size a = 2 ^ k" using assms(1) by (auto simp: geo_ok_def is_power_of_two_iff)
  have tot: "bi_total_size a = 2 ^ (k + bi_max_order a)" using assms(1) k by (simp add: geo_ok_def power_add)
  have lt: "bi_total_size a < 2 ^ 64" using assms(1) unfolding geo_ok_def by blast
  have "pow2_ceil (bi_total_size a) = bi_total_size a" unfolding tot by simp
  with lt have "bi_total_size a \<le> 2 ^ 63" using pow2_ceil_lt_iff [of "bi_total_size a"] by metis
  moreover have min_tot: "bi_min_block_size a \<le> bi_total_size a"
    unfolding tot k by (rule power_increasing) auto
  ultimately have "max len (bi_min_block_size a) \<le> 2 ^ 63" using assms(2) by linarith
  then have np: "next_power_of_two p (max len (bi_min_block_size a)) =
      Ret (pow2_ceil (max len (bi_min_block_size a)))" by (rule next_power_of_two_Ret)
  show ?thesis
  proof (cases "bi_total_size a < len")
    case True
    then have "bi_total_size a < pow2_ceil (max len (bi_min_block_size a))"
      using pow2_ceil_ge [of "max len (bi_min_block_size a)"] by linarith
    with True np show ?thesis by (simp add: order_for_request_def)
  next
    case False
    obtain j where j: "pow2_ceil (max len (bi_min_block_size a)) = 2 ^ j" using pow2_ceil_is_pow2 by blast
    have "(2::nat) ^ k \<le> 2 ^ j" using pow2_ceil_ge [of "max len (bi_min_block_size a)"] j k by simp
    then have kj: "k \<le> j" by simp
    have le: "2 ^ j \<le> bi_total_size a"
      using False min_tot pow2_ceil_least [of "max len (bi_min_block_size a)" "k + bi_max_order a"] j tot
      by simp
    then have jM: "j - k \<le> bi_max_order a" unfolding tot by simp
    have len: "len \<le> 2 ^ j" using pow2_ceil_ge [of "max len (bi_min_block_size a)"] j by simp
    have least: "j - k \<le> u" if "len \<le> bi_min_block_size a * 2 ^ u" for u
    proof -
      have "max len (bi_min_block_size a) \<le> 2 ^ (k + u)" using that k by (simp add: power_add)
      then have "(2::nat) ^ j \<le> 2 ^ (k + u)" unfolding j [symmetric] by (rule pow2_ceil_least)
      then show ?thesis by simp
    qed
    have eq: "order_for_request p a len = Ret (Some (j - k))"
      using np j k le by (simp add: order_for_request_def)
    have "bi_min_block_size a * 2 ^ (j - k) = 2 ^ j" using k kj by (simp flip: power_add)
    with len least eq jM False show ?thesis by (intro disjI2 exI [of _ "j - k"]) simp
  qed
qed

text \<open>The search finds a free block of the smallest sufficient order; one pass is enough.\<close>

lemma find_block_cases:
  assumes "buddy_core a L"
  obtains (none) a' where "find_block a t = Ret (None, a')" "buddy_core a' L"
      "free_blocks a' = free_blocks a" "same_rest a a'" "\<forall>b \<in> free_blocks a. fst b < t"
  | (some) ord i a' where "find_block a t = Ret (Some (ord, i), a')"
      "(ord, i) \<in> free_blocks a" "buddy_core a' (insert (ord, i) L)" "same_rest a a'" "t \<le> ord"
      "\<forall>b \<in> free_blocks a. t \<le> fst b \<longrightarrow> ord \<le> fst b"
proof -
  have "Some (bi_nonempty_orders a) = None \<or> Some (bi_nonempty_orders a) = Some (bi_nonempty_orders a)"
    by simp
  with assms show ?thesis
  proof (cases rule: search_from_target [where t = t])
    case (none a1)
    note first = none
    have "None = None \<or> None = Some (bi_nonempty_orders a1)" by simp
    with first(2) show ?thesis
    proof (cases rule: search_from_target [where t = t])
      case (none a2)
      with first show ?thesis using same_rest_trans [OF first(4) none(4)]
        by (intro that(1) [of a2]) (simp_all add: find_block_def try_allocate_from_summary_def
            try_allocate_from_full_scan_def)
    next
      case (some ord i a2)
      then have "fst (ord, i) < t" using first(3,6) by blast
      with some(6) show ?thesis by simp
    qed
  next
    case (some ord i a1)
    then show ?thesis
      by (intro that(2) [of ord i a1]) (simp_all add: find_block_def try_allocate_from_summary_def)
  qed
qed

lemma split_down_ok:
  assumes "buddy_core a L" "(ord, i) \<in> L" "t \<le> ord"
  obtains j a' where "split_down p a ord i t = Ret ((t, j), a')"
    "buddy_core a' (insert (t, j) (L - {(ord, i)}))" "same_rest a a'"
    "cover (t, j) \<subseteq> cover (ord, i)" "(t, j) \<notin> L - {(ord, i)}"
proof -
  let ?j = "i * 2 ^ (ord - t)"
  obtain a1 where a1: "split_loop p a ord i t 0 = Ret ((t, ?j), 0 + (ord - t), a1)"
    "buddy_core a1 (insert (t, ?j) (L - {(ord, i)}))" "same_rest a a1"
    using split_loop_ok [OF assms, of p 0] by blast
  let ?a' = "if 0 < ord - t then a1\<lparr>bi_metrics := record_splits (ord - t) (bi_metrics a1)\<rparr> else a1"
  have "?j * 2 ^ t = i * 2 ^ ord" using assms(3) by (simp add: mult.assoc flip: power_add)
  then have "i * 2 ^ ord \<in> cover (t, ?j)" by (metis in_cover nonzero_mult_div_cancel_right power_not_zero zero_neq_numeral)
  moreover have "i * 2 ^ ord \<in> cover (ord, i)" by simp
  ultimately have sub: "cover (t, ?j) \<subseteq> cover (ord, i)" using cover_nested assms(3) by blast
  have "(t, ?j) \<notin> L - {(ord, i)}"
  proof
    assume "(t, ?j) \<in> L - {(ord, i)}"
    then have "cover (t, ?j) \<inter> cover (ord, i) = {}"
      using assms(1,2) by (intro tiles_disjoint [of "bi_max_order a" "free_blocks a \<union> L"]) (auto simp: buddy_core_def)
    with sub cover_nonempty [of "(t, ?j)"] show False by blast
  qed
  moreover have "same_rest a ?a'"
    using a1(3) same_rest_trans [OF a1(3) same_rest_metrics [of "record_splits (ord - t) (bi_metrics a1)" a1]]
    by simp
  ultimately show ?thesis using a1 sub by (intro that [of ?j ?a']) (auto simp: split_down_def)
qed

lemma buddy_inv_same_rest:
  assumes "buddy_inv a L" "buddy_core a' L" "same_rest a a'"
  shows "buddy_inv a' L"
  using assms same_rest_simps(13) [OF assms(3)] same_arena_bytes [OF same_rest_arena [OF assms(3)]]
  by (simp add: buddy_inv_def)

lemma block_bytes_fst: "block_bytes a b = bi_min_block_size a * 2 ^ fst b"
  by (cases b) simp

text \<open>The byte count of the live blocks stays within the arena.\<close>

lemma core_bytes_le:
  assumes "buddy_core a L"
  shows "(\<Sum>b \<in> L. block_bytes a b) \<le> bi_total_size a"
proof -
  have t: "tiles (bi_max_order a) (free_blocks a \<union> L)" and g: "geo_ok a"
    using assms by (simp_all add: buddy_core_def)
  have "(\<Sum>b \<in> L. block_bytes a b) \<le> (\<Sum>b \<in> free_blocks a \<union> L. block_bytes a b)"
    using tiles_finite [OF t] by (intro sum_mono2) auto
  also have "\<dots> = bi_min_block_size a * (\<Sum>(ord, i) \<in> free_blocks a \<union> L. 2 ^ ord)"
    by (simp add: sum_distrib_left case_prod_beta block_bytes_fst)
  also have "\<dots> = bi_total_size a" using tiles_weight [OF t] g by (simp add: geo_ok_def)
  finally show ?thesis .
qed

text \<open>From a found block to the buffer: split, zero, account.\<close>

lemma allocate_buddy_found:
  fixes a :: "'d BuddyArenaInner"
  assumes inv: "buddy_inv a L" and t: "order_for_request p a len = Ret (Some t)" "t \<le> bi_max_order a"
    and found: "find_block a t = Ret (Some (ord, i), a1)" "(ord, i) \<in> free_blocks a"
    and a1: "buddy_core a1 (insert (ord, i) L)" "same_rest a a1" "t \<le> ord"
  obtains j a' where "(allocate_buddy E p a len :: ('h, 'd) buddy_result) = Ret (Inr (new_buddy (bi_ptr a) (bi_auto_spill a) t j
          (j * block_bytes a (t, j))
          (if bi_cap_capacity a then min len (block_bytes a (t, j)) else block_bytes a (t, j))), a')"
    "(t, j) \<notin> L" "buddy_inv a' (insert (t, j) L)" "same_arena a a'"
    "\<forall>x. x \<notin> block_region a (t, j) \<longrightarrow> bi_mem a' x = bi_mem a x" "cover (t, j) \<subseteq> cover (ord, i)"
    "buddy_scrubbed a L \<Longrightarrow> buddy_scrubbed a' (insert (t, j) L)"
    "zeroize_ok E \<Longrightarrow> buddy_scrubbed a L \<Longrightarrow> bi_init_policy a = Zero \<Longrightarrow>
       (\<forall>x \<in> block_region a (t, j). bi_mem a' x = 0)"
proof -
  have nL: "(ord, i) \<notin> L" using found(2) inv by (auto simp: buddy_inv_def buddy_core_def)
  then have L: "insert (ord, i) L - {(ord, i)} = L" by simp
  obtain j a2 where a2: "split_down p a1 ord i t = Ret ((t, j), a2)"
    "buddy_core a2 (insert (t, j) L)" "same_rest a1 a2" "cover (t, j) \<subseteq> cover (ord, i)" "(t, j) \<notin> L"
    using split_down_ok [OF a1(1) insertI1 a1(3), of p] unfolding L by metis
  have sr: "same_rest a a2" using same_rest_trans [OF a1(2) a2(3)] .
  note eq = same_rest_simps [OF sr]
  have g: "geo_ok a2" and wf: "buddy_scrub_wf a2" using a2(2) by (simp_all add: buddy_core_def)
  have v: "valid_block (bi_max_order a2) (t, j)" using core_validD [OF a2(2)] by blast
  let ?s = "bi_min_block_size a2 * 2 ^ t"
  obtain m where m: "zero_block_on_alloc E p a2 (t, j) (j * ?s) ?s = Ret (a2\<lparr>bi_mem := m\<rparr>)"
    "\<forall>x. x \<notin> block_region a2 (t, j) \<longrightarrow> m x = bi_mem a2 x"
    "bi_init_policy a2 = Zero \<and> zeroize_ok E \<and> buddy_scrubbed a2 L \<and>
       cover (t, j) \<inter> \<Union> (cover ` L) = {} \<longrightarrow> (\<forall>x \<in> block_region a2 (t, j). m x = 0)"
    using zero_block_on_alloc_Ret [OF wf g v, of E p L] by blast
  let ?a' = "a2\<lparr>bi_mem := m, bi_metrics := record_alloc_success ?s (bi_metrics a2)\<rparr>"
  have reg: "block_region a2 b = block_region a b" for b using same_arena_region [OF same_rest_arena [OF sr]] .
  have disj: "cover (t, j) \<inter> \<Union> (cover ` L) = {}"
    using a2(2,5) tiles_disjoint [of "bi_max_order a2" "free_blocks a2 \<union> insert (t, j) L" "(t, j)"]
    unfolding buddy_core_def by blast
  show ?thesis
  proof (rule that [of j ?a'])
    show "(allocate_buddy E p a len :: ('h, 'd) buddy_result) = Ret (Inr (new_buddy (bi_ptr a) (bi_auto_spill a) t j
          (j * block_bytes a (t, j))
          (if bi_cap_capacity a then min len (block_bytes a (t, j)) else block_bytes a (t, j))), ?a')"
      using t found(1) a2(1) m(1) eq g by (simp add: allocate_buddy_def outcome_simps)
    have "ledger (bi_metrics a2) (card L) (\<Sum>b \<in> L. block_bytes a2 b)"
      using inv eq(13) same_arena_bytes [OF same_rest_arena [OF sr]] by (simp add: buddy_inv_def)
    from ledger_insert [OF this _ a2(5)] a2(2) core_finite [OF a2(2)]
    show "buddy_inv ?a' (insert (t, j) L)"
      by (simp add: buddy_inv_def same_arena_bytes [of a2 ?a'] same_arena_def)
    show "same_arena a ?a'" using same_rest_arena [OF sr] by (simp add: same_arena_def)
    show "buddy_scrubbed ?a' (insert (t, j) L)" if "buddy_scrubbed a L"
    proof -
      have "buddy_scrubbed a2 L" using that buddy_scrubbed_same_rest [OF sr] by blast
      then have "m x = 0" if "bi_zeroed_bitmap a2 = Some z" "x div bi_min_block_size a2 \<in> free_set z"
          "x div bi_min_block_size a2 \<notin> \<Union> (cover ` insert (t, j) L)" for x z
        using that m(2) in_block_region [OF geo_ok_pos [OF g]] unfolding buddy_scrubbed_def
        by (metis UN_insert UnCI)
      then show ?thesis by (simp add: buddy_scrubbed_def)
    qed
    show "\<forall>x \<in> block_region a (t, j). bi_mem ?a' x = 0"
      if "zeroize_ok E" "buddy_scrubbed a L" "bi_init_policy a = Zero"
      using m(3) that disj eq buddy_scrubbed_same_rest [OF sr] reg by simp
  qed (use m(2) a2(4,5) eq reg in simp_all)
qed

lemma allocate_buddy_cases:
  fixes a :: "'d BuddyArenaInner"
  assumes "buddy_inv a L" "len \<le> 2 ^ 63"
  obtains (too_large) a' where "bi_total_size a < len"
      "(allocate_buddy E p a len :: ('h, 'd) buddy_result) = Ret (Inl RequestTooLarge, a')"
      "buddy_inv a' L" "same_arena a a'" "bi_mem a' = bi_mem a"
      "buddy_scrubbed a L \<Longrightarrow> buddy_scrubbed a' L"
  | (full) t a' where "len \<le> bi_total_size a" "order_for_request p a len = Ret (Some t)"
      "\<forall>b \<in> free_blocks a. fst b < t" "(allocate_buddy E p a len :: ('h, 'd) buddy_result) = Ret (Inl ArenaFull, a')"
      "buddy_inv a' L" "same_arena a a'" "bi_mem a' = bi_mem a"
      "buddy_scrubbed a L \<Longrightarrow> buddy_scrubbed a' L"
  | (ok) t j a' where "len \<le> bi_total_size a" "order_for_request p a len = Ret (Some t)"
      "(allocate_buddy E p a len :: ('h, 'd) buddy_result) = Ret (Inr (new_buddy (bi_ptr a) (bi_auto_spill a) t j
          (j * block_bytes a (t, j))
          (if bi_cap_capacity a then min len (block_bytes a (t, j)) else block_bytes a (t, j))), a')"
      "(t, j) \<notin> L" "buddy_inv a' (insert (t, j) L)" "same_arena a a'"
      "\<forall>x. x \<notin> block_region a (t, j) \<longrightarrow> bi_mem a' x = bi_mem a x"
      "buddy_scrubbed a L \<Longrightarrow> buddy_scrubbed a' (insert (t, j) L)"
      "zeroize_ok E \<Longrightarrow> buddy_scrubbed a L \<Longrightarrow> bi_init_policy a = Zero \<Longrightarrow>
         (\<forall>x \<in> block_region a (t, j). bi_mem a' x = 0)"
      "\<exists>b \<in> free_blocks a. cover (t, j) \<subseteq> cover b \<and> (\<forall>c \<in> free_blocks a. t \<le> fst c \<longrightarrow> fst b \<le> fst c)"
proof -
  have core: "buddy_core a L" and g: "geo_ok a" using assms(1) by (simp_all add: buddy_inv_def buddy_core_def)
  let ?fail = "\<lambda>a. a\<lparr>bi_metrics := record_alloc_failure (bi_metrics a)\<rparr>"
  have fail: "buddy_inv (?fail a') L" "same_arena a (?fail a')" if "buddy_core a' L" "same_rest a a'" for a'
    using buddy_inv_same_rest [OF assms(1) that] same_arena_trans [OF same_rest_arena [OF that(2)]]
    by (simp_all add: buddy_inv_def same_arena_bytes [of a' "?fail a'"])
  have sc: "buddy_scrubbed (?fail a') L = buddy_scrubbed a L" if "same_rest a a'" for a'
    using buddy_scrubbed_same_rest [OF that, of L] by (simp add: buddy_scrubbed_def)
  consider "bi_total_size a < len" "order_for_request p a len = Ret None"
    | t where "t \<le> bi_max_order a" "order_for_request p a len = Ret (Some t)" "len \<le> bi_total_size a"
    using order_for_request_ok [OF g assms(2), of p] by blast
  then show ?thesis
  proof cases
    case 1
    then show ?thesis using fail [OF core] sc [of a]
      by (intro that(1) [of "?fail a"]) (simp_all add: allocate_buddy_def)
  next
    case (2 t)
    from core show ?thesis
    proof (cases rule: find_block_cases [where t = t])
      case (none a')
      then show ?thesis using 2 fail [OF none(2,4)] sc [OF none(4)] same_rest_simps(4) [OF none(4)]
        by (intro that(2) [of t "?fail a'"]) (simp_all add: allocate_buddy_def)
    next
      case (some ord i a1)
      from allocate_buddy_found [OF assms(1) 2(2,1) some(1-5), of E] obtain j a' where r:
        "(allocate_buddy E p a len :: ('h, 'd) buddy_result) = Ret (Inr (new_buddy (bi_ptr a) (bi_auto_spill a) t j
            (j * block_bytes a (t, j))
            (if bi_cap_capacity a then min len (block_bytes a (t, j)) else block_bytes a (t, j))), a')"
        "(t, j) \<notin> L" "buddy_inv a' (insert (t, j) L)" "same_arena a a'"
        "\<forall>x. x \<notin> block_region a (t, j) \<longrightarrow> bi_mem a' x = bi_mem a x" "cover (t, j) \<subseteq> cover (ord, i)"
        "buddy_scrubbed a L \<Longrightarrow> buddy_scrubbed a' (insert (t, j) L)"
        "zeroize_ok E \<Longrightarrow> buddy_scrubbed a L \<Longrightarrow> bi_init_policy a = Zero \<Longrightarrow>
           (\<forall>x \<in> block_region a (t, j). bi_mem a' x = 0)" by metis
      have "\<exists>b \<in> free_blocks a. cover (t, j) \<subseteq> cover b \<and>
          (\<forall>c \<in> free_blocks a. t \<le> fst c \<longrightarrow> fst b \<le> fst c)"
        using some(2,6) r(6) by (intro bexI [of _ "(ord, i)"]) auto
      with r show ?thesis by (intro that(3) [OF 2(3,2) r(1-5)]) blast+
    qed
  qed
qed

subsection \<open>When allocation fails\<close>

lemma uncovered_is_free:
  assumes "buddy_core a L" "valid_block (bi_max_order a) b" "\<forall>l \<in> L. cover b \<inter> cover l = {}"
  shows "cover b \<subseteq> \<Union> (cover ` free_blocks a)"
proof -
  have "\<Union> (cover ` (free_blocks a \<union> L)) = {..<2 ^ bi_max_order a}"
    using assms(1) by (simp add: buddy_core_def tiles_def)
  with cover_valid [OF assms(2)] have "cover b \<subseteq> \<Union> (cover ` (free_blocks a \<union> L))" by blast
  with assms(3) show ?thesis by blast
qed

text \<open>
  There is a free block of order at least \<open>t\<close> exactly when some aligned region of that order
  is disjoint from every block in use: free buddies are always merged.
\<close>

lemma big_free_block_iff:
  assumes "buddy_core a L" "t \<le> bi_max_order a"
  shows "(\<exists>b \<in> free_blocks a. t \<le> fst b) \<longleftrightarrow>
    (\<exists>i < 2 ^ (bi_max_order a - t). \<forall>l \<in> L. cover (t, i) \<inter> cover l = {})"
proof
  assume "\<exists>b \<in> free_blocks a. t \<le> fst b"
  then obtain ord i where b: "(ord, i) \<in> free_blocks a" "t \<le> ord" by auto
  have v: "valid_block (bi_max_order a) (ord, i)" using core_validD [OF assms(1)] b(1) by blast
  let ?j = "i * 2 ^ (ord - t)"
  have e: "?j * 2 ^ t = i * 2 ^ ord" using b(2) by (simp add: mult.assoc flip: power_add)
  then have x: "i * 2 ^ ord \<in> cover (t, ?j)" "i * 2 ^ ord \<in> cover (ord, i)"
    by (metis in_cover nonzero_mult_div_cancel_right power_not_zero zero_neq_numeral, simp)
  then have sub: "cover (t, ?j) \<subseteq> cover (ord, i)" using cover_nested b(2) by blast
  have "?j < 2 ^ (bi_max_order a - t)"
  proof -
    have "i * 2 ^ (ord - t) < 2 ^ (bi_max_order a - ord) * 2 ^ (ord - t)" using v by simp
    also have "\<dots> = 2 ^ (bi_max_order a - t)" using v b(2) by (simp flip: power_add)
    finally show ?thesis .
  qed
  moreover have "\<forall>l \<in> L. cover (t, ?j) \<inter> cover l = {}"
    using assms(1) b(1) sub tiles_disjoint [of "bi_max_order a" "free_blocks a \<union> L" "(ord, i)"]
    unfolding buddy_core_def by blast
  ultimately show "\<exists>i < 2 ^ (bi_max_order a - t). \<forall>l \<in> L. cover (t, i) \<inter> cover l = {}" by blast
next
  assume "\<exists>i < 2 ^ (bi_max_order a - t). \<forall>l \<in> L. cover (t, i) \<inter> cover l = {}"
  then obtain i where i: "i < 2 ^ (bi_max_order a - t)" "\<forall>l \<in> L. cover (t, i) \<inter> cover l = {}" by blast
  then have "cover (t, i) \<subseteq> \<Union> (cover ` free_blocks a)"
    using uncovered_is_free [OF assms(1), of "(t, i)"] assms(2) by simp
  moreover have "coalesced (bi_max_order a) (free_blocks a)" using assms(1) by (simp add: buddy_core_def)
  ultimately show "\<exists>b \<in> free_blocks a. t \<le> fst b" using coalesced_single assms(2) by blast
qed

lemma cover_disjoint_region:
  assumes "geo_ok a"
  shows "cover b \<inter> cover c = {} \<longleftrightarrow> block_region a b \<inter> block_region a c = {}"
proof -
  have pos: "0 < bi_min_block_size a" using assms by (rule geo_ok_pos)
  have "x \<in> cover b \<and> x \<in> cover c \<longleftrightarrow>
      x * bi_min_block_size a \<in> block_region a b \<and> x * bi_min_block_size a \<in> block_region a c" for x
    using pos by (simp add: in_block_region)
  moreover have "y \<in> block_region a b \<and> y \<in> block_region a c \<longleftrightarrow>
      y div bi_min_block_size a \<in> cover b \<and> y div bi_min_block_size a \<in> cover c" for y
    using pos by (simp add: in_block_region)
  ultimately show ?thesis by blast
qed

lemma largest_free_from_eq:
  assumes "buddy_core a L" "\<forall>ord \<in> set orders. ord \<le> bi_max_order a"
  shows "largest_free_from p a orders =
    Ret (case find (\<lambda>ord. free_set (bi_free_bitmaps a ! ord) \<noteq> {}) orders of
           None \<Rightarrow> 0 | Some ord \<Rightarrow> bi_min_block_size a * 2 ^ ord)"
  using assms(2)
proof (induction orders)
  case (Cons ord orders)
  have "geo_ok a" "bitmaps_ok a" using assms(1) by (simp_all add: buddy_core_def)
  with Cons core_bitmap [of a ord] show ?case by (simp add: outcome_simps)
qed simp

lemma find_rev_upt:
  "find P (rev [0..<n]) = (if \<exists>k < n. P k then Some (Max {k. k < n \<and> P k}) else None)"
proof (induction n)
  case (Suc n)
  show ?case
  proof (cases "P n")
    case True
    then have "Max {k. k < Suc n \<and> P k} = n" by (intro Max_eqI) auto
    with True show ?thesis by auto
  next
    case False
    then have "{k. k < Suc n \<and> P k} = {k. k < n \<and> P k}" using less_Suc_eq by auto
    moreover have "(\<exists>k < Suc n. P k) = (\<exists>k < n. P k)" using False less_Suc_eq by auto
    ultimately show ?thesis using Suc False by simp
  qed
qed simp

lemma largest_free_block_eq:
  assumes "buddy_core a L"
  shows "largest_free_block p a =
    Ret (if free_blocks a = {} then 0 else bi_min_block_size a * 2 ^ Max (fst ` free_blocks a))"
proof -
  let ?P = "\<lambda>ord. free_set (bi_free_bitmaps a ! ord) \<noteq> {}"
  have eq: "fst ` free_blocks a = {k. k < Suc (bi_max_order a) \<and> ?P k}"
    by (force simp: free_blocks_def)
  then have "free_blocks a = {} \<longleftrightarrow> \<not> (\<exists>k < Suc (bi_max_order a). ?P k)" by blast
  with eq show ?thesis
    unfolding largest_free_block_def
    by (subst largest_free_from_eq [OF assms]) (auto simp: find_rev_upt simp del: upt_Suc)
qed

end
