(* ===== verification/Buddy_Build.thy ===== *)
theory Buddy_Build
  imports Buddy_Correct
begin

text \<open>
  What the builders of the buddy arena return, and the properties of the buddy arena as a
  whole: allocation, its failures, the largest-free-block metric, and request overflow.
\<close>

subsection \<open>A fresh arena\<close>

lemma empty_bitmaps_nth:
  "ord \<le> M \<Longrightarrow> empty_bitmaps M ! ord = new_empty (2 ^ (M - ord))" "length (empty_bitmaps M) = Suc M"
  by (simp_all add: empty_bitmaps_def blocks_at_order_def del: upt_Suc)

lemma initial_bitmaps_Ret:
  "initial_bitmaps p M = Ret ((empty_bitmaps M)[M := set_slot (new_empty 1) 0])"
  by (simp add: initial_bitmaps_def empty_bitmaps_nth outcome_simps)

lemma buddy_fresh:
  assumes "geo_ok a" "initial_bitmaps p (bi_max_order a) = Ret (bi_free_bitmaps a)"
    and "bi_nonempty_orders a = bit_at (bi_max_order a)" "bi_metrics a = new_metrics r"
    and "bi_zeroed_bitmap a = zeroed_bitmap_for (bi_init_policy a) (blocks_at_order (bi_max_order a) 0)"
  shows "buddy_inv a {}" "free_blocks a = {(bi_max_order a, 0)}" "buddy_scrubbed a {}"
proof -
  let ?M = "bi_max_order a"
  have bs: "bi_free_bitmaps a = (empty_bitmaps ?M)[?M := set_slot (new_empty 1) 0]"
    using assms(2) by (simp add: initial_bitmaps_Ret)
  have nth: "bi_free_bitmaps a ! ord = (if ord = ?M then set_slot (new_empty 1) 0 else new_empty (2 ^ (?M - ord)))"
    if "ord \<le> ?M" for ord
    using that by (simp add: bs nth_list_update empty_bitmaps_nth)
  have fs: "free_set (bi_free_bitmaps a ! ord) = (if ord = ?M then {0} else {})" if "ord \<le> ?M" for ord
    using nth [OF that] by simp
  show fb: "free_blocks a = {(?M, 0)}" using fs by (auto simp: free_blocks_def split: if_splits)
  have "length (bi_free_bitmaps a) = Suc ?M" by (simp add: bs empty_bitmaps_nth)
  then have ok: "bitmaps_ok a" using nth by (simp add: bitmaps_ok_def)
  have "?M < 64" using core_maxD [OF assms(1)] .
  then have sum: "summary_exact a" using assms(3) fs by (auto simp: summary_exact_def bit_facts)
  have "buddy_scrub_wf a"
    using assms(5) by (cases "bi_init_policy a") (simp_all add: buddy_scrub_wf_def zeroed_bitmap_for_def blocks_at_order_def)
  then have "buddy_core a {}"
    using assms(1) ok sum tiles_top fb by (simp add: buddy_core_def coalesced_def)
  then show "buddy_inv a {}" using assms(4) by (simp add: buddy_inv_def ledger_new)
  show "buddy_scrubbed a {}"
    using assms(5) by (cases "bi_init_policy a") (simp_all add: buddy_scrubbed_def zeroed_bitmap_for_def)
qed

lemma prefault_buddy_Ret:
  assumes "\<forall>n. ps = Some n \<longrightarrow> 0 < n"
  shows "\<exists>m. prefault_buddy ps a = Ret (a\<lparr>bi_mem := m\<rparr>) \<and> (ps = None \<longrightarrow> m = bi_mem a)"
proof (cases ps)
  case None
  then show ?thesis by (intro exI [of _ "bi_mem a"]) (simp add: prefault_buddy_def)
next
  case (Some n)
  with assms show ?thesis by (simp add: prefault_buddy_def prefault_region_def prefault_from_eq) blast
qed

subsection \<open>The builders\<close>

lemma build_raw_ok:
  assumes "geometry_ok (bb_geometry b)" "alloc_succeeds E"
    and fits: "bg_total_size (bb_geometry b) + (bg_alignment (bb_geometry b) - 1) \<le> isize_max"
  defines "g \<equiv> bb_geometry b"
  obtains a :: "'d BuddyArenaInner" where "build_raw E p b w = Ret (Inr a)" "bi_total_size a = bg_total_size g"
    "bi_min_block_size a = bg_min_block_size g" "bi_max_order a = bg_max_order g"
    "bi_cap_capacity a = bg_cap_capacity g" "bi_dealloc_len a = bg_total_size g"
    "bi_dealloc a = new_erased (HeapDealloc (bg_total_size g, bg_alignment g))"
    "\<And>m. buddy_inv (a\<lparr>bi_mem := m\<rparr>) {}" "\<And>m. free_blocks (a\<lparr>bi_mem := m\<rparr>) = {(bg_max_order g, 0)}"
    "\<And>m. buddy_scrubbed (a\<lparr>bi_mem := m\<rparr>) {}"
proof -
  obtain ptr m where m: "ext_alloc E (bg_total_size g, bg_alignment g) = (ptr, m)" "ptr \<noteq> 0"
    using assms(2) by (metis alloc_succeeds_def prod.collapse)
  have al: "is_power_of_two (bg_alignment g)" using assms(1) by (simp add: g_def geometry_ok_def)
  obtain bs where bs: "initial_bitmaps p (bg_max_order g) = Ret bs" by (simp add: initial_bitmaps_Ret)
  define a :: "'d BuddyArenaInner" where "a =
    \<lparr>bi_ptr = ptr, bi_total_size = bg_total_size g, bi_dealloc_len = bg_total_size g,
     bi_min_block_size = bg_min_block_size g, bi_max_order = bg_max_order g,
     bi_free_bitmaps = bs, bi_nonempty_orders = bit_at (bg_max_order g),
     bi_auto_spill = cfg_auto_spill (bb_config b), bi_cap_capacity = bg_cap_capacity g,
     bi_init_policy = cfg_init_policy (bb_config b), bi_metrics = new_metrics (bg_total_size g),
     bi_zeroed_bitmap = zeroed_bitmap_for (cfg_init_policy (bb_config b)) (blocks_at_order (bg_max_order g) 0),
     bi_dealloc = new_erased (HeapDealloc (bg_total_size g, bg_alignment g)), bi_wake_handle = w,
     bi_mem = m\<rparr>"
  have eq: "build_raw E p b w = Ret (Inr a)"
    using fits al m bs by (simp add: build_raw_def layout_from_size_align_def Let_def a_def flip: g_def)
  have geo: "geo_ok (a\<lparr>bi_mem := m'\<rparr>)" for m'
    using assms(1) by (simp add: geo_ok_def geometry_ok_def a_def g_def)
  have fresh: "buddy_inv (a\<lparr>bi_mem := m'\<rparr>) {}" "free_blocks (a\<lparr>bi_mem := m'\<rparr>) = {(bg_max_order g, 0)}"
    "buddy_scrubbed (a\<lparr>bi_mem := m'\<rparr>) {}" for m'
    using buddy_fresh [OF geo [of m'], of p "bg_total_size g"] bs by (simp_all add: a_def)
  show ?thesis by (rule that [OF eq _ _ _ _ _ _ fresh]) (simp_all add: a_def)
qed

text \<open>C27. Building a buddy arena from a valid geometry fails with \<open>SizeOverflow\<close> exactly when the layout
  exceeds \<open>isize::MAX\<close>; otherwise it returns an arena with no live block whose single free block is
  the whole memory, with the geometry's sizes and the layout's deallocation.\<close>

theorem build_buddy_correct:
  assumes "geometry_ok (bb_geometry b)" "page_size_ok (cfg_page_size (bb_config b))"
    and "sysconf_ok E" "alloc_succeeds E"
  defines "g \<equiv> bb_geometry b"
  shows "\<exists>r. build_buddy E p b = Ret r \<and>
    (case r of
       Inl e \<Rightarrow> e = SizeOverflow \<and> isize_max < bg_total_size g + (bg_alignment g - 1)
     | Inr a \<Rightarrow>
         buddy_inv a {} \<and> buddy_scrubbed a {} \<and> free_blocks a = {(bg_max_order g, 0)} \<and>
         bi_total_size a = bg_total_size g \<and> bi_min_block_size a = bg_min_block_size g \<and>
         bi_max_order a = bg_max_order g \<and> bi_cap_capacity a = bg_cap_capacity g \<and>
         bi_dealloc a = new_erased (HeapDealloc (bg_total_size g, bg_alignment g)) \<and>
         bi_dealloc_len a = bg_total_size g)"
proof -
  obtain ps where ps: "resolve_page_size E p (cfg_page_size (bb_config b)) = Ret ps"
      "\<forall>n. ps = Some n \<longrightarrow> 0 < n"
    using resolve_page_size_Ret [OF assms(3,2)] by metis
  have al: "is_power_of_two (bg_alignment g)" using assms(1) by (simp add: g_def geometry_ok_def)
  show ?thesis
  proof (cases "bg_total_size g + (bg_alignment g - 1) \<le> isize_max")
    case False
    then show ?thesis using ps
      by (simp add: build_buddy_def build_buddy_with_def build_raw_def layout_from_size_align_def Let_def
          flip: g_def)
  next
    case True
    with build_raw_ok [OF assms(1,4), folded g_def] obtain a :: "'a BuddyArenaInner" where
      a: "build_raw E p b False = Ret (Inr a)" "bi_total_size a = bg_total_size g"
        "bi_min_block_size a = bg_min_block_size g" "bi_max_order a = bg_max_order g"
        "bi_cap_capacity a = bg_cap_capacity g" "bi_dealloc_len a = bg_total_size g"
        "bi_dealloc a = new_erased (HeapDealloc (bg_total_size g, bg_alignment g))"
        "\<And>m. buddy_inv (a\<lparr>bi_mem := m\<rparr>) {}" "\<And>m. free_blocks (a\<lparr>bi_mem := m\<rparr>) = {(bg_max_order g, 0)}"
        "\<And>m. buddy_scrubbed (a\<lparr>bi_mem := m\<rparr>) {}" by blast
    obtain m where m: "prefault_buddy ps a = Ret (a\<lparr>bi_mem := m\<rparr>)"
      using prefault_buddy_Ret [OF ps(2)] by blast
    show ?thesis
      using ps(1) m a(1-7) a(8-10) [of m] by (simp add: build_buddy_def build_buddy_with_def)
  qed
qed

subsection \<open>A sample arena\<close>

text \<open>Eight blocks of 512 bytes under the \<open>Zero\<close> policy, for the witnesses below.\<close>

definition sample_buddy :: "unit BuddyArenaInner" where
  "sample_buddy =
    \<lparr>bi_ptr = 65536, bi_total_size = 4096, bi_dealloc_len = 4096, bi_min_block_size = 512,
     bi_max_order = 3, bi_free_bitmaps = (empty_bitmaps 3)[3 := set_slot (new_empty 1) 0],
     bi_nonempty_orders = bit_at 3, bi_auto_spill = False, bi_cap_capacity = False,
     bi_init_policy = Zero, bi_metrics = new_metrics 4096, bi_zeroed_bitmap = Some (new_empty 8),
     bi_dealloc = new_erased NoDealloc, bi_wake_handle = False, bi_mem = (\<lambda>i. 7)\<rparr>"

lemma sample_buddy_ok:
  "buddy_inv sample_buddy {}" "free_blocks sample_buddy = {(3, 0)}" "buddy_scrubbed sample_buddy {}"
proof -
  have g: "geo_ok sample_buddy"
    by (simp add: geo_ok_def sample_buddy_def is_power_of_two_def count_ones.simps)
  have z: "bi_zeroed_bitmap sample_buddy =
      zeroed_bitmap_for (bi_init_policy sample_buddy) (blocks_at_order (bi_max_order sample_buddy) 0)"
    by (simp add: sample_buddy_def zeroed_bitmap_for_def blocks_at_order_def)
  show "buddy_inv sample_buddy {}" "free_blocks sample_buddy = {(3, 0)}" "buddy_scrubbed sample_buddy {}"
    using buddy_fresh [OF g _ _ _ z, of Debug 4096] by (simp_all add: sample_buddy_def initial_bitmaps_Ret)
qed

lemma sample_buddy_simps [simp]:
  "bi_total_size sample_buddy = 4096" "bi_max_order sample_buddy = 3"
  "bi_min_block_size sample_buddy = 512" "bi_init_policy sample_buddy = Zero"
  by (simp_all add: sample_buddy_def)

theorem build_buddy_correct_witness:
  "\<exists>r. build_buddy sample_externals Debug
        (builder \<lparr>bg_total_size = 4096, bg_min_block_size = 512, bg_max_order = 3, bg_alignment = 1,
                  bg_cap_capacity = False\<rparr>) = Ret r \<and>
    (case r of Inl e \<Rightarrow> isize_max < 4096
     | Inr a \<Rightarrow> buddy_inv (a :: unit BuddyArenaInner) {} \<and> bi_total_size a = 4096)"
proof -
  let ?b = "builder \<lparr>bg_total_size = 4096, bg_min_block_size = 512, bg_max_order = 3, bg_alignment = 1,
                  bg_cap_capacity = False\<rparr>"
  have "geometry_ok (bb_geometry ?b)"
    by (simp add: builder_def geometry_ok_def is_power_of_two_def count_ones.simps)
  moreover have "page_size_ok (cfg_page_size (bb_config ?b))" by (simp add: builder_def new_config_def)
  ultimately show ?thesis
    using build_buddy_correct [of ?b sample_externals Debug, where ?'a = unit] sample_externals_ok
    by (auto simp: builder_def split: sum.splits)
qed

text \<open>C28. A buddy arena over caller memory never writes to it: it rejects a null pointer and a hint that
  does not fit, and otherwise returns a fresh arena within the region, with the caller's bytes and
  deallocation strategy and the full region length kept for deallocation.\<close>

theorem build_raw_backed_correct:
  fixes d :: "'d Dealloc" and ptr :: nat and policy :: InitPolicy
  assumes "0 < m" "m \<le> 2 ^ 63" "len \<le> isize_max"
  defines "b \<equiv> raw_buddy_init_policy policy (from_raw_buddy ptr len (MinAlloc m) d)"
  shows "\<exists>r. build_raw_backed E p contents b = Ret r \<and>
    (case r of
       Inl e \<Rightarrow> e = NullPointer \<and> ptr = 0 \<or> e = ZeroUsableSlots \<and> len < prev_power_of_two m
     | Inr a \<Rightarrow>
         buddy_inv a {} \<and> buddy_scrubbed a {} \<and> free_blocks a = {(bi_max_order a, 0)} \<and>
         bi_mem a = contents \<and> bi_total_size a \<le> len \<and> len < 2 * bi_total_size a \<and>
         bi_init_policy a = policy \<and> bi_dealloc a = new_erased d \<and> bi_dealloc_len a = len \<and>
         m < 2 * bi_min_block_size a \<and> bi_min_block_size a < 2 * m)"
proof (cases "ptr = 0")
  case True
  then show ?thesis by (simp add: b_def build_raw_backed_def raw_buddy_init_policy_def from_raw_buddy_def)
next
  case False
  have len63: "len < 2 ^ 63" using assms(3) by (simp add: isize_max_def)
  have cfg: "cfg_page_size new_raw_backed = Unknown" by (simp add: new_raw_backed_def)
  obtain r where r: "resolve_hint p (MinAlloc m) len = Ret r"
    "case r of Inl e \<Rightarrow> e = ZeroUsableSlots \<and> len < prev_power_of_two m
     | Inr (mb, mo) \<Rightarrow> is_power_of_two mb \<and> m < 2 * mb \<and> mb < 2 * m \<and> mb * 2 ^ mo \<le> len \<and> len < mb * 2 ^ Suc mo"
    using resolve_hint_cases [OF assms(1,2) len63] by blast
  show ?thesis
  proof (cases r)
    case (Inl e)
    with r False show ?thesis
      by (simp add: b_def build_raw_backed_def raw_buddy_init_policy_def from_raw_buddy_def cfg del: resolve_hint.simps)
  next
    case (Inr x)
    obtain mb mo where x: "x = (mb, mo)" by (cases x)
    have mb: "is_power_of_two mb" "m < 2 * mb" "mb < 2 * m" "mb * 2 ^ mo \<le> len" "len < mb * 2 ^ Suc mo"
      using r(2) Inr x by simp_all
    have lt: "mb * 2 ^ mo < 2 ^ 64" using mb(4) len63 by simp
    define a :: "'d BuddyArenaInner" where "a =
      \<lparr>bi_ptr = ptr, bi_total_size = mb * 2 ^ mo, bi_dealloc_len = len, bi_min_block_size = mb,
       bi_max_order = mo, bi_free_bitmaps = (empty_bitmaps mo)[mo := set_slot (new_empty 1) 0],
       bi_nonempty_orders = bit_at mo, bi_auto_spill = False, bi_cap_capacity = False,
       bi_init_policy = policy, bi_metrics = new_metrics (mb * 2 ^ mo),
       bi_zeroed_bitmap = zeroed_bitmap_for policy (blocks_at_order mo 0),
       bi_dealloc = new_erased d, bi_wake_handle = False, bi_mem = contents\<rparr>"
    have g: "geo_ok a" using mb(1) lt by (simp add: geo_ok_def a_def)
    have "mo < 64" using core_maxD [OF g] by (simp add: a_def)
    then have shl: "shl p mb mo = Ret (mb * 2 ^ mo)" using lt by (intro shl_small) auto
    have "build_raw_backed E p contents b = Ret (Inr a)"
      using r(1) Inr x False shl
      by (simp add: b_def build_raw_backed_def raw_buddy_init_policy_def from_raw_buddy_def cfg a_def
          initial_bitmaps_Ret prefault_buddy_def del: resolve_hint.simps)
    moreover have "buddy_inv a {}" "free_blocks a = {(mo, 0)}" "buddy_scrubbed a {}"
      using buddy_fresh [OF g, of p "mb * 2 ^ mo"] by (simp_all add: a_def initial_bitmaps_Ret)
    ultimately show ?thesis using mb by (simp add: a_def)
  qed
qed

theorem build_raw_backed_correct_witness:
  "\<exists>r. build_raw_backed sample_externals Release (\<lambda>i. 9)
        (raw_buddy_init_policy Zero (from_raw_buddy 4096 5000 (MinAlloc 500) (CustomDealloc ()))) = Ret r \<and>
    (case r of Inl e \<Rightarrow> 5000 < prev_power_of_two 500
     | Inr a \<Rightarrow> buddy_inv a {} \<and> bi_mem a = (\<lambda>i. 9) \<and> bi_total_size a \<le> 5000)"
  using build_raw_backed_correct [of 500 5000 sample_externals Release "\<lambda>i. 9" Zero 4096 "CustomDealloc ()"]
  by (auto simp: isize_max_def split: sum.splits)

end
