(* ===== verification/Buddy_Props.thy ===== *)
theory Buddy_Props
  imports Buddy_Build
begin

text \<open>
  What the buddy arena promises its callers: a granted request gets memory of its own, a request is
  refused exactly when it cannot be met, and the metrics say which requests can.
\<close>

abbreviation granted :: "'h Buffer \<Rightarrow> nat set" where
  "granted buf \<equiv> {buf_offset buf ..< buf_offset buf + buf_capacity buf}"

lemma cover_subset_order:
  assumes "cover (t, j) \<subseteq> cover b"
  shows "t \<le> fst b"
proof -
  have "card (cover (t, j)) \<le> card (cover (fst b, snd b))" using assms by (intro card_mono) simp_all
  then show ?thesis by (simp only: cover_card) simp
qed

text \<open>C1. A request of up to 2^63 bytes always returns. A granted buffer names a block that was not in
  use, has room for the request, lies within that block and within the arena, at an offset that is a
  multiple of the block's size, overlaps no other block in use, and is all zeros under the \<open>Zero\<close>
  policy; no byte outside the block changes. A refused request leaves the memory alone and says
  \<open>RequestTooLarge\<close> exactly when it exceeds the arena. The invariant holds afterwards in every case.\<close>

theorem allocate_buddy_correct:
  fixes a :: "'d BuddyArenaInner"
  assumes "buddy_inv a L" "buddy_scrubbed a L" "zeroize_ok E" "0 < len" "len \<le> 2 ^ 63"
  shows "\<exists>r a'. (allocate_buddy E p a len :: ('h, 'd) buddy_result) = Ret (r, a') \<and>
    (case r of
       Inl e \<Rightarrow> buddy_inv a' L \<and> buddy_scrubbed a' L \<and> bi_mem a' = bi_mem a \<and>
         e = (if bi_total_size a < len then RequestTooLarge else ArenaFull)
     | Inr buf \<Rightarrow> \<exists>t j. buf_allocation buf = BuddyBlock t j \<and> (t, j) \<notin> L \<and>
         buddy_inv a' (insert (t, j) L) \<and> buddy_scrubbed a' (insert (t, j) L) \<and>
         len \<le> buf_capacity buf \<and> granted buf \<subseteq> block_region a (t, j) \<and>
         block_bytes a (t, j) dvd buf_offset buf \<and>
         block_region a (t, j) \<subseteq> {..<bi_total_size a} \<and>
         (\<forall>l \<in> L. block_region a (t, j) \<inter> block_region a l = {}) \<and>
         (\<forall>x. x \<notin> block_region a (t, j) \<longrightarrow> bi_mem a' x = bi_mem a x) \<and>
         (bi_init_policy a = Zero \<longrightarrow> (\<forall>x \<in> granted buf. bi_mem a' x = 0)))"
  using assms(1,5)
proof (cases rule: allocate_buddy_cases [where E = E and p = p and ?'h = 'h])
  case (ok t j a')
  let ?buf = "new_buddy (bi_ptr a) (bi_auto_spill a) t j (j * block_bytes a (t, j))
    (if bi_cap_capacity a then min len (block_bytes a (t, j)) else block_bytes a (t, j)) :: 'h Buffer"
  have core: "buddy_core a' (insert (t, j) L)" using ok(5) by (simp add: buddy_inv_def)
  have geo: "geo_ok a" using assms(1) by (simp add: buddy_inv_def buddy_core_def)
  have len: "len \<le> block_bytes a (t, j)"
    using order_for_request_ok [OF geo assms(5), of p] ok(1,2) by auto
  have region: "granted ?buf \<subseteq> block_region a (t, j)" by (auto simp: Let_def)
  have "block_region a (t, j) \<subseteq> {..<bi_total_size a}"
    using block_region_in_arena [OF core, of "(t, j)"] ok(6) same_arena_region [OF ok(6)]
    by (simp add: same_arena_def)
  moreover have "\<forall>l \<in> L. block_region a (t, j) \<inter> block_region a l = {}"
    using block_regions_disjoint [OF core, of "(t, j)"] ok(4) same_arena_region [OF ok(6)]
    by (metis insert_iff)
  moreover have "bi_init_policy a = Zero \<longrightarrow> (\<forall>x \<in> granted ?buf. bi_mem a' x = 0)"
    using ok(9) [OF assms(3,2)] region by blast
  moreover have "len \<le> buf_capacity ?buf" "block_bytes a (t, j) dvd buf_offset ?buf" using len by simp_all
  ultimately show ?thesis
    using ok(3,4,5,7) ok(8) [OF assms(2)] region by (intro exI conjI) (auto simp del: block_region.simps)
qed (use assms(2) in \<open>auto\<close>)

theorem allocate_buddy_correct_witness:
  "\<exists>r a'. (allocate_buddy sample_externals Debug sample_buddy 600 :: (unit, unit) buddy_result) = Ret (r, a') \<and>
    (case r of Inl e \<Rightarrow> e = ArenaFull
     | Inr buf \<Rightarrow> 600 \<le> buf_capacity buf \<and> (\<forall>x \<in> granted buf. bi_mem a' x = 0))"
  using allocate_buddy_correct [OF sample_buddy_ok(1,3), of sample_externals 600 Debug, where ?'h = unit]
    sample_externals_ok by (fastforce split: sum.splits)

text \<open>C23. Nothing is lost to fragmentation: a request that fits the arena is refused exactly when every
  aligned block of the request's order overlaps a block in use.\<close>

theorem buddy_full_iff:
  fixes a :: "'d BuddyArenaInner"
  assumes "buddy_inv a L" "len \<le> bi_total_size a" "len \<le> 2 ^ 63" "order_for_request p a len = Ret (Some t)"
  shows "(\<exists>a'. (allocate_buddy E p a len :: ('h, 'd) buddy_result) = Ret (Inl ArenaFull, a')) \<longleftrightarrow>
    (\<forall>i < 2 ^ (bi_max_order a - t). \<exists>l \<in> L. block_region a (t, i) \<inter> block_region a l \<noteq> {})"
proof -
  have core: "buddy_core a L" and geo: "geo_ok a" using assms(1) by (simp_all add: buddy_inv_def buddy_core_def)
  have t: "t \<le> bi_max_order a" using order_for_request_ok [OF geo assms(3), of p] assms(4) by auto
  have big: "(\<exists>b \<in> free_blocks a. t \<le> fst b) \<longleftrightarrow>
      \<not> (\<forall>i < 2 ^ (bi_max_order a - t). \<exists>l \<in> L. block_region a (t, i) \<inter> block_region a l \<noteq> {})"
    using big_free_block_iff [OF core t] cover_disjoint_region [OF geo] by metis
  show ?thesis
    using assms(1,3)
  proof (cases rule: allocate_buddy_cases [where E = E and p = p and ?'h = 'h])
    case too_large
    with assms(2) show ?thesis by simp
  next
    case (full t' a')
    then have "\<not> (\<exists>b \<in> free_blocks a. t \<le> fst b)" using assms(4) by auto
    with full(4) big show ?thesis by blast
  next
    case (ok t' j a')
    from ok(10) obtain b where b: "b \<in> free_blocks a" "cover (t', j) \<subseteq> cover b" by blast
    have "t \<le> fst b" using cover_subset_order [OF b(2)] ok(2) assms(4) by simp
    with b(1) big have "\<not> (\<forall>i < 2 ^ (bi_max_order a - t). \<exists>l \<in> L. block_region a (t, i) \<inter> block_region a l \<noteq> {})"
      by blast
    then show ?thesis using ok(3) by simp
  qed
qed

theorem buddy_full_iff_witness:
  "(\<exists>a'. (allocate_buddy sample_externals Debug sample_buddy 600 :: (unit, unit) buddy_result) =
       Ret (Inl ArenaFull, a')) \<longleftrightarrow>
    (\<forall>i < 2 ^ 2. \<exists>l \<in> {}. block_region sample_buddy (1, i) \<inter> block_region sample_buddy l \<noteq> {})"
proof -
  have "geo_ok sample_buddy" using sample_buddy_ok(1) by (simp add: buddy_inv_def buddy_core_def)
  from order_for_request_ok [OF this, of 600 Debug]
  obtain t where t: "order_for_request Debug sample_buddy 600 = Ret (Some t)" "600 \<le> 512 * (2 :: nat) ^ t"
    "\<And>u. 600 \<le> 512 * (2 :: nat) ^ u \<Longrightarrow> t \<le> u" by auto
  have "t \<noteq> 0" using t(2) by (intro notI) simp
  moreover have "t \<le> 1" using t(3) [of 1] by simp
  ultimately have "t = 1" by simp
  with t(1) have "order_for_request Debug sample_buddy 600 = Ret (Some 1)" by simp
  from buddy_full_iff [OF sample_buddy_ok(1) _ _ this, of sample_externals, where ?'h = unit]
  show ?thesis by (simp del: block_region.simps)
qed

text \<open>C24. The metric \<open>largest_free_block\<close> is exact: a request is granted if and only if it does not exceed
  the size the metric reports.\<close>

theorem largest_free_block_exact:
  fixes a :: "'d BuddyArenaInner"
  assumes "buddy_inv a L" "0 < len" "len \<le> 2 ^ 63"
  shows "\<exists>m. buddy_metrics p a = Ret m \<and>
    ((\<exists>buf a'. (allocate_buddy E p a len :: ('h, 'd) buddy_result) = Ret (Inr buf, a')) \<longleftrightarrow>
      len \<le> fm_largest_free_block m)"
proof -
  have core: "buddy_core a L" and geo: "geo_ok a" using assms(1) by (simp_all add: buddy_inv_def buddy_core_def)
  define n where "n = (if free_blocks a = {} then 0 else bi_min_block_size a * 2 ^ Max (fst ` free_blocks a))"
  have fin: "finite (free_blocks a)"
    using core tiles_finite [of "bi_max_order a" "free_blocks a \<union> L"] by (simp add: buddy_core_def)
  have m: "buddy_metrics p a = Ret (buddy_snapshot n (bi_metrics a))"
    using largest_free_block_eq [OF core, of p] by (simp add: buddy_metrics_def n_def)
  have le_n: "bi_min_block_size a * 2 ^ u \<le> n \<longleftrightarrow> (\<exists>b \<in> free_blocks a. u \<le> fst b)" for u
  proof -
    have pos: "0 < bi_min_block_size a" using geo by (rule geo_ok_pos)
    show ?thesis
      using pos fin Max_ge_iff [of "fst ` free_blocks a" u] by (auto simp: n_def)
  qed
  have n_pow: "\<exists>b \<in> free_blocks a. n = bi_min_block_size a * 2 ^ fst b" if "0 < n"
  proof -
    have ne: "free_blocks a \<noteq> {}" using that by (auto simp: n_def)
    with fin have "Max (fst ` free_blocks a) \<in> fst ` free_blocks a" by (intro Max_in) auto
    with ne show ?thesis by (auto simp: n_def)
  qed
  have "(\<exists>buf a'. (allocate_buddy E p a len :: ('h, 'd) buddy_result) = Ret (Inr buf, a')) \<longleftrightarrow> len \<le> n"
    using assms(1,3)
  proof (cases rule: allocate_buddy_cases [where E = E and p = p and ?'h = 'h])
    case (too_large a')
    have "n \<le> bi_total_size a"
    proof (cases "0 < n")
      case True
      then obtain b where b: "b \<in> free_blocks a" "n = bi_min_block_size a * 2 ^ fst b" using n_pow by blast
      then have "fst b \<le> bi_max_order a" using core_validD [OF core, of b] by (cases b) auto
      then show ?thesis using geo b(2) by (simp add: geo_ok_def)
    qed simp
    with too_large show ?thesis by simp
  next
    case (full t a')
    have "n < len"
    proof (rule ccontr)
      assume "\<not> n < len"
      then obtain b where b: "b \<in> free_blocks a" "n = bi_min_block_size a * 2 ^ fst b"
        using n_pow assms(2) by (meson gr0I less_le_trans not_less)
      then have "t \<le> fst b"
        using order_for_request_ok [OF geo assms(3), of p] full(2) \<open>\<not> n < len\<close> by auto
      with b(1) full(3) show False by fastforce
    qed
    with full(4) show ?thesis by simp
  next
    case (ok t j a')
    from ok(10) obtain b where b: "b \<in> free_blocks a" "cover (t, j) \<subseteq> cover b" by blast
    then have "bi_min_block_size a * 2 ^ t \<le> n" using le_n cover_subset_order [OF b(2)] by blast
    moreover have "len \<le> bi_min_block_size a * 2 ^ t"
      using order_for_request_ok [OF geo assms(3), of p] ok(1,2) by auto
    ultimately show ?thesis using ok(3) by simp
  qed
  then show ?thesis using m by (simp add: buddy_snapshot_def)
qed

theorem largest_free_block_exact_witness:
  "\<exists>m. buddy_metrics Release sample_buddy = Ret m \<and>
    ((\<exists>buf a'. (allocate_buddy sample_externals Release sample_buddy 3000 :: (unit, unit) buddy_result) =
        Ret (Inr buf, a')) \<longleftrightarrow> 3000 \<le> fm_largest_free_block m)"
  using largest_free_block_exact [OF sample_buddy_ok(1), of 3000 Release sample_externals, where ?'h = unit]
  by simp

lemma overflowing_request:
  fixes a :: "'d BuddyArenaInner"
  assumes "buddy_inv a L" "2 ^ 63 < len"
  shows "\<exists>msg. order_for_request Debug a len = Panic msg"
    "\<exists>t. order_for_request Release a len = Ret (Some t)"
    "\<exists>msg. (allocate_buddy E Debug a len :: ('h, 'd) buddy_result) = Panic msg"
    "(allocate_buddy E Release a len :: ('h, 'd) buddy_result) =
       Ret (Inl ArenaFull, a\<lparr>bi_metrics := record_alloc_failure (bi_metrics a)\<rparr>)"
proof -
  have geo: "geo_ok a" using assms(1) by (simp add: buddy_inv_def buddy_core_def)
  obtain k where k: "bi_min_block_size a = 2 ^ k" using geo by (auto simp: geo_ok_def is_power_of_two_iff)
  have "(2 :: nat) ^ (k + bi_max_order a) < 2 ^ 64" using geo k by (simp add: geo_ok_def power_add)
  then have kM: "k + bi_max_order a < 64" by (rule power_less_imp_less_exp [rotated]) simp
  have big: "\<not> pow2_ceil (max len (bi_min_block_size a)) < 2 ^ 64"
    using assms(2) pow2_ceil_lt_iff [of "max len (bi_min_block_size a)"] by simp
  have rel: "order_for_request Release a len = Ret (Some (64 - k))"
    using big k by (simp add: order_for_request_def next_power_of_two_def checked_next_power_of_two_def)
  have "find_block a (64 - k) = Ret (None, a)"
    using kM by (simp add: find_block_def try_allocate_from_summary_def try_allocate_from_full_scan_def
        try_allocate_from_orders_def del: upt_Suc)
  then show "(allocate_buddy E Release a len :: ('h, 'd) buddy_result) =
       Ret (Inl ArenaFull, a\<lparr>bi_metrics := record_alloc_failure (bi_metrics a)\<rparr>)"
    using rel by (simp add: allocate_buddy_def)
  show "\<exists>t. order_for_request Release a len = Ret (Some t)" using rel by blast
  show dbg: "\<exists>msg. order_for_request Debug a len = Panic msg"
    using big by (simp add: order_for_request_def next_power_of_two_def checked_next_power_of_two_def)
  then show "\<exists>msg. (allocate_buddy E Debug a len :: ('h, 'd) buddy_result) = Panic msg" by (auto simp: allocate_buddy_def)
qed

text \<open>C25. A request above 2^63 bytes does not get the documented \<open>RequestTooLarge\<close>: rounding it to a power
  of two overflows, which panics in debug builds; in release builds the rounded size is 0 and the order
  computed from it lies beyond the arena, so that the caller is told the arena is full.\<close>

theorem request_overflow:
  fixes a :: "'d BuddyArenaInner"
  assumes "buddy_inv a L" "2 ^ 63 < len" "len < 2 ^ 64"
  shows "(\<exists>msg. (allocate_buddy E Debug a len :: ('h, 'd) buddy_result) = Panic msg) \<and>
    (\<exists>a'. (allocate_buddy E Release a len :: ('h, 'd) buddy_result) = Ret (Inl ArenaFull, a'))"
  using overflowing_request(3,4) [OF assms(1,2), of E] by blast

theorem request_overflow_witness:
  "(\<exists>msg. (allocate_buddy sample_externals Debug sample_buddy (2 ^ 63 + 1) :: (unit, unit) buddy_result) = Panic msg) \<and>
    (\<exists>a'. (allocate_buddy sample_externals Release sample_buddy (2 ^ 63 + 1) :: (unit, unit) buddy_result) =
        Ret (Inl ArenaFull, a'))"
  using request_overflow [OF sample_buddy_ok(1), of "2 ^ 63 + 1" sample_externals, where ?'h = unit] by simp

end
