(* ===== verification/Allocation.thy ===== *)
theory Allocation
  imports Buddy_Props
begin

text \<open>
  The owner of an allocation: \<open>ArenaRef\<close> of \<^verbatim>\<open>src/src/allocation.rs\<close>, which is either kind of arena, with
  the release of an allocation and the two counters a buffer reports to. The Rust type shares the arena
  through an \<^verbatim>\<open>Arc\<close>; here it is the arena's state, passed through the operations.

  The locales \<open>arena_owner\<close> and \<open>arena_allocator\<close> are the contract that buffers, frozen handles and raw
  regions rely on; both are interpreted on \<open>ArenaRef\<close>.
\<close>

datatype 'd ArenaRef = Fixed "'d ArenaInner" | Buddy "'d BuddyArenaInner"

text \<open>The call of a wake handle that a release makes, if the arena has one.\<close>

datatype Wake = WakeSlot | WakeOrder nat

definition scrub_slot :: "externals \<Rightarrow> profile \<Rightarrow> 'd ArenaInner \<Rightarrow> nat \<Rightarrow> 'd ArenaInner outcome" where
  "scrub_slot E p a slot_idx =
     (if ai_init_policy a = Zero then
        let offset = slot_idx * ai_slot_capacity a;
            a1 = a\<lparr>ai_mem := zeroize_region E (ai_mem a) offset (ai_slot_capacity a)\<rparr>
        in case ai_zeroed_bitmap a1 of
             None \<Rightarrow> Ret a1
           | Some zeroed_bm \<Rightarrow>
               obind (set_range p zeroed_bm slot_idx (slot_idx + 1)) (\<lambda>z.
                 Ret (a1\<lparr>ai_zeroed_bitmap := Some z\<rparr>))
      else Ret a)"

definition release_slot :: "externals \<Rightarrow> profile \<Rightarrow> 'd ArenaInner \<Rightarrow> nat \<Rightarrow> (bool \<times> 'd ArenaInner) outcome" where
  "release_slot E p a slot_idx =
     obind (scrub_slot E p a slot_idx) (\<lambda>a1.
     obind (free p (ai_bitmap a1) slot_idx) (\<lambda>bm.
       Ret (ai_wake_handle a1,
            a1\<lparr>ai_bitmap := bm, ai_metrics := record_free (ai_slot_capacity a1) (ai_metrics a1)\<rparr>)))"

fun release ::
    "externals \<Rightarrow> profile \<Rightarrow> 'd ArenaRef \<Rightarrow> AllocationKind \<Rightarrow> (Wake option \<times> 'd ArenaRef) outcome" where
  "release E p (Fixed a) (FixedSlot slot_idx) =
     obind (release_slot E p a slot_idx) (\<lambda>(wake, a').
       Ret (if wake then Some WakeSlot else None, Fixed a'))"
| "release E p (Buddy a) (BuddyBlock order block_idx) =
     obind (block_size p a order) (\<lambda>sz.
     obind (release_block E p (a\<lparr>bi_metrics := record_free sz (bi_metrics a)\<rparr>) order block_idx) (\<lambda>(wake, a').
       Ret (map_option WakeOrder wake, Buddy a')))"
| "release E p s k = Panic ''internal error: entered unreachable code: allocation kind must match owning arena''"

fun ref_metrics :: "'d ArenaRef \<Rightarrow> MetricsState" where
  "ref_metrics (Fixed a) = ai_metrics a"
| "ref_metrics (Buddy a) = bi_metrics a"

fun ref_record_frozen :: "'d ArenaRef \<Rightarrow> 'd ArenaRef" where
  "ref_record_frozen (Fixed a) = Fixed (a\<lparr>ai_metrics := record_frozen (ai_metrics a)\<rparr>)"
| "ref_record_frozen (Buddy a) = Buddy (a\<lparr>bi_metrics := record_frozen (bi_metrics a)\<rparr>)"

fun ref_record_spill :: "'d ArenaRef \<Rightarrow> 'd ArenaRef" where
  "ref_record_spill (Fixed a) = Fixed (a\<lparr>ai_metrics := record_spill (ai_metrics a)\<rparr>)"
| "ref_record_spill (Buddy a) = Buddy (a\<lparr>bi_metrics := record_spill (bi_metrics a)\<rparr>)"

text \<open>\<open>allocate\<close> of the arena the reference belongs to; a fixed arena takes no length.\<close>

type_synonym ('h, 'd) alloc_result = "((AllocError + 'h Buffer) \<times> 'd ArenaRef) outcome"

fun ref_allocate :: "externals \<Rightarrow> profile \<Rightarrow> 'd ArenaRef \<Rightarrow> nat \<Rightarrow> ('h, 'd) alloc_result" where
  "ref_allocate E p (Fixed a) len = obind (allocate_fixed E p a) (\<lambda>(r, a'). Ret (r, Fixed a'))"
| "ref_allocate E p (Buddy a) len = obind (allocate_buddy E p a len) (\<lambda>(r, a'). Ret (r, Buddy a'))"

text \<open>The \<^verbatim>\<open>Drop\<close> of the state behind the last reference.\<close>

fun ref_drop :: "'d ArenaRef \<Rightarrow> 'd dealloc_event list outcome" where
  "ref_drop (Fixed a) = drop_ArenaInner a"
| "ref_drop (Buddy a) = drop_BuddyArenaInner a"

subsection \<open>The memory behind a reference\<close>

fun ref_mem :: "'d ArenaRef \<Rightarrow> mem" where
  "ref_mem (Fixed a) = ai_mem a"
| "ref_mem (Buddy a) = bi_mem a"

fun set_ref_mem :: "mem \<Rightarrow> 'd ArenaRef \<Rightarrow> 'd ArenaRef" where
  "set_ref_mem m (Fixed a) = Fixed (a\<lparr>ai_mem := m\<rparr>)"
| "set_ref_mem m (Buddy a) = Buddy (a\<lparr>bi_mem := m\<rparr>)"

fun ref_region :: "'d ArenaRef \<Rightarrow> AllocationKind \<Rightarrow> nat set" where
  "ref_region (Fixed a) (FixedSlot s) = slot_region a s"
| "ref_region (Buddy a) (BuddyBlock ord i) = block_region a (ord, i)"
| "ref_region _ _ = {}"

fun ref_size :: "'d ArenaRef \<Rightarrow> nat" where
  "ref_size (Fixed a) = ai_total_size a"
| "ref_size (Buddy a) = bi_total_size a"

fun same_ref :: "'d ArenaRef \<Rightarrow> 'd ArenaRef \<Rightarrow> bool" where
  "same_ref (Fixed a) (Fixed a') = same_fixed a a'"
| "same_ref (Buddy a) (Buddy a') = same_arena a a'"
| "same_ref _ _ = False"

abbreviation block_kind :: "block \<Rightarrow> AllocationKind" where
  "block_kind b \<equiv> BuddyBlock (fst b) (snd b)"

text \<open>\<open>arena_ok E s L\<close>: the arena is well formed and the allocations \<open>L\<close> are the ones in use.\<close>

fun arena_ok :: "externals \<Rightarrow> 'd ArenaRef \<Rightarrow> AllocationKind set \<Rightarrow> bool" where
  "arena_ok E (Fixed a) L \<longleftrightarrow>
     zeroize_ok E \<and> (\<exists>S. L = FixedSlot ` S \<and> fixed_inv a S \<and> fixed_scrubbed a S)"
| "arena_ok E (Buddy a) L \<longleftrightarrow>
     zeroize_ok E \<and> (\<exists>S. L = block_kind ` S \<and> buddy_inv a S \<and> buddy_scrubbed a S)"

definition request_ok :: "nat \<Rightarrow> bool" where
  "request_ok len \<longleftrightarrow> 0 < len \<and> len \<le> 2 ^ 63"

subsection \<open>The contract of an owner\<close>

text \<open>A fold over operations that may panic.\<close>

primrec ofold :: "('s \<Rightarrow> 'k \<Rightarrow> ('w \<times> 's) outcome) \<Rightarrow> 's \<Rightarrow> 'k list \<Rightarrow> 's outcome" where
  "ofold f s [] = Ret s"
| "ofold f s (k # ks) = obind (f s k) (\<lambda>(w, s'). ofold f s' ks)"

locale arena_owner =
  fixes inv :: "'s \<Rightarrow> 'k set \<Rightarrow> bool"
    and region :: "'s \<Rightarrow> 'k \<Rightarrow> nat set"
    and size_of :: "'s \<Rightarrow> nat"
    and mem_of :: "'s \<Rightarrow> mem"
    and set_mem :: "mem \<Rightarrow> 's \<Rightarrow> 's"
    and same :: "'s \<Rightarrow> 's \<Rightarrow> bool"
    and rel :: "'s \<Rightarrow> 'k \<Rightarrow> ('w \<times> 's) outcome"
    and frozen :: "'s \<Rightarrow> 's"
    and spill :: "'s \<Rightarrow> 's"
  assumes finite_live: "inv s L \<Longrightarrow> finite L"
    and regions_disjoint: "inv s L \<Longrightarrow> k \<in> L \<Longrightarrow> l \<in> L \<Longrightarrow> k \<noteq> l \<Longrightarrow> region s k \<inter> region s l = {}"
    and region_bound: "inv s L \<Longrightarrow> k \<in> L \<Longrightarrow> region s k \<subseteq> {..<size_of s}"
    and size_bound: "inv s L \<Longrightarrow> size_of s < 2 ^ 64"
    and same_region: "same s s' \<Longrightarrow> region s' k = region s k"
    and same_size: "same s s' \<Longrightarrow> size_of s' = size_of s"
    and same_refl: "same s s"
    and same_trans: "same s s' \<Longrightarrow> same s' s'' \<Longrightarrow> same s s''"
    and write_law: "inv s L \<Longrightarrow> k \<in> L \<Longrightarrow> (\<forall>x. x \<notin> region s k \<longrightarrow> m x = mem_of s x) \<Longrightarrow>
      inv (set_mem m s) L"
    and set_mem_law: "mem_of (set_mem m s) = m" "same s (set_mem m s)"
    and rel_law: "inv s L \<Longrightarrow> k \<in> L \<Longrightarrow>
      \<exists>w s'. rel s k = Ret (w, s') \<and> inv s' (L - {k}) \<and> same s s' \<and>
        (\<forall>x. x \<notin> region s k \<longrightarrow> mem_of s' x = mem_of s x)"
    and frozen_law: "inv (frozen s) L = inv s L" "mem_of (frozen s) = mem_of s" "same s (frozen s)"
    and spill_law: "inv (spill s) L = inv s L" "mem_of (spill s) = mem_of s" "same s (spill s)"
begin

text \<open>A change confined to one allocation's region leaves every other allocation's bytes alone.\<close>

lemma isolated:
  assumes "inv s L" "k \<in> L" "l \<in> L" "k \<noteq> l" "\<forall>x. x \<notin> region s k \<longrightarrow> m x = mem_of s x"
    "{off ..< off + n} \<subseteq> region s l"
  shows "mem_slice m off n = mem_slice (mem_of s) off n"
proof -
  have "m x = mem_of s x" if "x \<in> {off ..< off + n}" for x
    using that assms(5,6) regions_disjoint [OF assms(1-4)] by blast
  then show ?thesis by (auto simp: mem_slice_def)
qed

text \<open>Releasing the allocations in any order, each once, always returns and leaves none in use.\<close>

lemma release_in_any_order:
  "inv s L \<Longrightarrow> distinct ks \<Longrightarrow> set ks \<subseteq> L \<Longrightarrow>
     \<exists>s'. ofold rel s ks = Ret s' \<and> inv s' (L - set ks) \<and> same s s' \<and>
       (\<forall>x. x \<notin> \<Union> (region s ` set ks) \<longrightarrow> mem_of s' x = mem_of s x)"
proof (induction ks arbitrary: s L)
  case Nil
  then show ?case by (simp add: same_refl)
next
  case (Cons k ks)
  from Cons.prems obtain w s1 where s1: "rel s k = Ret (w, s1)" "inv s1 (L - {k})" "same s s1"
    "\<forall>x. x \<notin> region s k \<longrightarrow> mem_of s1 x = mem_of s x" using rel_law [of s L k] by auto
  moreover have "set ks \<subseteq> L - {k}" using Cons.prems by auto
  ultimately obtain s2 where s2: "ofold rel s1 ks = Ret s2" "inv s2 (L - {k} - set ks)" "same s1 s2"
    "\<forall>x. x \<notin> \<Union> (region s1 ` set ks) \<longrightarrow> mem_of s2 x = mem_of s1 x"
    using Cons.IH [of s1 "L - {k}"] Cons.prems(2) by auto
  have "L - {k} - set ks = L - set (k # ks)" by auto
  with s1 s2 same_trans [OF s1(3) s2(3)] show ?case by (simp add: same_region [OF s1(3)])
qed

end

locale arena_allocator = arena_owner inv region size_of mem_of set_mem same rel frozen spill
  for inv :: "'s \<Rightarrow> AllocationKind set \<Rightarrow> bool"
    and region :: "'s \<Rightarrow> AllocationKind \<Rightarrow> nat set"
    and size_of :: "'s \<Rightarrow> nat"
    and mem_of :: "'s \<Rightarrow> mem"
    and set_mem :: "mem \<Rightarrow> 's \<Rightarrow> 's"
    and same :: "'s \<Rightarrow> 's \<Rightarrow> bool"
    and rel :: "'s \<Rightarrow> AllocationKind \<Rightarrow> ('w \<times> 's) outcome"
    and frozen :: "'s \<Rightarrow> 's"
    and spill :: "'s \<Rightarrow> 's" +
  fixes alloc :: "'s \<Rightarrow> 'r \<Rightarrow> ((AllocError + 'h Buffer) \<times> 's) outcome"
    and req_ok :: "'r \<Rightarrow> bool"
  assumes alloc_law: "inv s L \<Longrightarrow> req_ok r \<Longrightarrow>
      \<exists>res s'. alloc s r = Ret (res, s') \<and> same s s' \<and>
        (case res of
           Inl e \<Rightarrow> inv s' L \<and> mem_of s' = mem_of s
         | Inr buf \<Rightarrow> buf_allocation buf \<notin> L \<and> inv s' (insert (buf_allocation buf) L) \<and>
             buf_len buf = 0 \<and> \<not> buf_released buf \<and> buf_spilled buf = None \<and>
             granted buf \<subseteq> region s (buf_allocation buf) \<and>
             (\<forall>x. x \<notin> region s (buf_allocation buf) \<longrightarrow> mem_of s' x = mem_of s x))"
begin

text \<open>An allocation changes no byte of an allocation already in use.\<close>

lemma alloc_isolated:
  assumes "inv s L" "req_ok r" "alloc s r = Ret (res, s')" "l \<in> L" "{off ..< off + n} \<subseteq> region s l"
  shows "mem_slice (mem_of s') off n = mem_slice (mem_of s) off n"
proof (cases res)
  case (Inl e)
  then show ?thesis using alloc_law [OF assms(1,2)] assms(3) by auto
next
  case (Inr buf)
  let ?k = "buf_allocation buf"
  have k: "?k \<notin> L" "inv s' (insert ?k L)" "same s s'" "\<forall>x. x \<notin> region s ?k \<longrightarrow> mem_of s' x = mem_of s x"
    using alloc_law [OF assms(1,2)] assms(3) Inr by auto
  have "region s ?k \<inter> region s l = {}"
    using regions_disjoint [OF k(2), of ?k l] k(1) assms(4) by (auto simp: same_region [OF k(3)])
  with k(4) assms(5) have "mem_of s' x = mem_of s x" if "x \<in> {off ..< off + n}" for x
    using that by blast
  then show ?thesis by (auto simp: mem_slice_def)
qed

end

subsection \<open>Releasing a slot\<close>

lemma scrub_slot_Ret:
  assumes "fixed_inv a S" "s \<in> S"
  obtains m z where "scrub_slot E p a s = Ret (a\<lparr>ai_mem := m, ai_zeroed_bitmap := z\<rparr>)"
    "fixed_inv (a\<lparr>ai_mem := m, ai_zeroed_bitmap := z\<rparr>) S"
    "\<forall>x. x \<notin> slot_region a s \<longrightarrow> m x = ai_mem a x"
    "zeroize_ok E \<Longrightarrow> fixed_scrubbed a S \<Longrightarrow>
       fixed_scrubbed (a\<lparr>ai_mem := m, ai_zeroed_bitmap := z\<rparr>) (S - {s})"
proof (cases "ai_zeroed_bitmap a")
  case None
  then have pol: "ai_init_policy a = Uninit" using assms(1) by (simp add: fixed_inv_def scrub_wf_def)
  have eq: "a\<lparr>ai_mem := ai_mem a, ai_zeroed_bitmap := None\<rparr> = a" using None by (cases a) simp
  show ?thesis
    by (rule that [where m = "ai_mem a" and z = None], unfold eq)
      (use assms(1) None pol in \<open>simp_all add: scrub_slot_def fixed_scrubbed_def\<close>)
next
  case (Some z)
  let ?m = "zeroize_region E (ai_mem a) (s * ai_slot_capacity a) (ai_slot_capacity a)"
  have z: "ai_init_policy a = Zero" "bm_inv z" "bm_slot_count z = ai_slot_count a" "s < ai_slot_count a"
    using assms Some by (auto simp: fixed_inv_def scrub_wf_def)
  then obtain z' where z': "set_range p z s (s + 1) = Ret z'" "bm_inv z'" "bm_slot_count z' = ai_slot_count a"
    "free_set z' = insert s (free_set z)"
    using set_range_Ret [of z s "s + 1" p] by auto
  let ?a = "a\<lparr>ai_mem := ?m, ai_zeroed_bitmap := Some z'\<rparr>"
  have scrub: "fixed_scrubbed ?a (S - {s})" if "zeroize_ok E" "fixed_scrubbed a S"
    unfolding fixed_scrubbed_def
  proof (intro allI impI)
    fix y t i
    assume h: "ai_zeroed_bitmap ?a = Some y \<and> t \<in> free_set y \<and> t \<notin> S - {s} \<and> i \<in> slot_region ?a t"
    show "ai_mem ?a i = 0"
    proof (cases "i \<in> slot_region a s")
      case True
      then show ?thesis using that(1) by (simp add: slot_region_def zeroize_region_inside)
    next
      case False
      then have "t \<noteq> s" "t \<notin> S" "t \<in> free_set z" "i \<in> slot_region a t" using h z'(4) by auto
      then have "ai_mem a i = 0" using that(2) Some unfolding fixed_scrubbed_def by blast
      moreover have "i < s * ai_slot_capacity a \<or> s * ai_slot_capacity a + ai_slot_capacity a \<le> i"
        using False by (auto simp: slot_region_def)
      ultimately show ?thesis by simp
    qed
  qed
  show ?thesis
    using assms Some z z' scrub
    by (intro that [where m = ?m and z = "Some z'"])
      (auto simp: scrub_slot_def fixed_inv_def scrub_wf_def slot_region_def)
qed

lemma release_slot_Ret:
  assumes "fixed_inv a S" "s \<in> S"
  obtains a' where "release_slot E p a s = Ret (ai_wake_handle a, a')" "fixed_inv a' (S - {s})" "same_fixed a a'"
    "\<forall>x. x \<notin> slot_region a s \<longrightarrow> ai_mem a' x = ai_mem a x"
    "zeroize_ok E \<Longrightarrow> fixed_scrubbed a S \<Longrightarrow> fixed_scrubbed a' (S - {s})"
    "free_set (ai_bitmap a') = insert s (free_set (ai_bitmap a))"
proof -
  obtain m z where mz: "scrub_slot E p a s = Ret (a\<lparr>ai_mem := m, ai_zeroed_bitmap := z\<rparr>)"
    "fixed_inv (a\<lparr>ai_mem := m, ai_zeroed_bitmap := z\<rparr>) S" "\<forall>x. x \<notin> slot_region a s \<longrightarrow> m x = ai_mem a x"
    "zeroize_ok E \<Longrightarrow> fixed_scrubbed a S \<Longrightarrow>
       fixed_scrubbed (a\<lparr>ai_mem := m, ai_zeroed_bitmap := z\<rparr>) (S - {s})"
    using scrub_slot_Ret [OF assms] by blast
  let ?b = "ai_bitmap a" and ?c = "ai_slot_capacity a"
  let ?a = "a\<lparr>ai_mem := m, ai_zeroed_bitmap := z, ai_bitmap := set_slot ?b s,
    ai_metrics := record_free ?c (ai_metrics a)\<rparr>"
  have b: "bm_inv ?b" "s < bm_slot_count ?b" "s \<notin> free_set ?b" using assms by (auto simp: fixed_inv_def)
  have fin: "finite S" using assms(1) by (rule fixed_inv_finite)
  have led: "ledger (record_free ?c (ai_metrics a)) (card (S - {s})) (card (S - {s}) * ?c)"
    using ledger_remove [of "ai_metrics a" S "\<lambda>_. ?c" s] assms fin by (simp add: fixed_inv_def)
  have "scrub_wf (a\<lparr>ai_mem := m, ai_zeroed_bitmap := z\<rparr>)" using mz(2) unfolding fixed_inv_def by blast
  then have scr: "scrub_wf ?a" unfolding scrub_wf_def by (cases z) simp_all
  have inv: "fixed_inv ?a (S - {s})"
    using assms b led scr unfolding fixed_inv_def by auto
  have "zeroize_ok E \<Longrightarrow> fixed_scrubbed a S \<Longrightarrow> fixed_scrubbed ?a (S - {s})"
    using mz(4) by (simp add: fixed_scrubbed_def)
  with inv show ?thesis
    using mz(1,3) b by (intro that [of ?a]) (simp_all add: release_slot_def outcome_simps same_fixed_def)
qed

subsection \<open>The contract holds\<close>

lemma same_ref_laws:
  "same_ref s s" "same_ref s s' \<Longrightarrow> same_ref s' s'' \<Longrightarrow> same_ref s s''"
  "same_ref s s' \<Longrightarrow> ref_region s' k = ref_region s k" "same_ref s s' \<Longrightarrow> ref_size s' = ref_size s"
  subgoal by (cases s) (simp_all add: same_fixed_def same_arena_def)
  subgoal by (cases s; cases s'; cases s'') (simp_all add: same_fixed_def same_arena_def)
  subgoal by (cases s; cases s'; cases k)
      (simp_all add: same_fixed_region same_arena_region del: block_region.simps)
  subgoal by (cases s; cases s') (simp_all add: same_fixed_def same_arena_def)
  done

lemma set_ref_mem_laws [simp]: "ref_mem (set_ref_mem m s) = m" "same_ref s (set_ref_mem m s)"
  by (cases s, simp_all add: same_fixed_def same_arena_def)+

lemma block_kind_eq_iff [simp]: "block_kind b = block_kind c \<longleftrightarrow> b = c"
  by (auto simp: prod_eq_iff)

lemma inj_block_kind: "inj block_kind"
  by (auto intro: injI simp: prod_eq_iff)

lemma ref_region_block [simp]: "ref_region (Buddy a) (block_kind b) = block_region a b"
  by (cases b) simp

lemma arena_okE:
  assumes "arena_ok E s L"
  obtains (fixed) a S where "s = Fixed a" "zeroize_ok E" "L = FixedSlot ` S" "fixed_inv a S" "fixed_scrubbed a S"
  | (buddy) a S where "s = Buddy a" "zeroize_ok E" "L = block_kind ` S" "buddy_core a S" "buddy_inv a S"
      "buddy_scrubbed a S"
proof (cases s)
  case (Fixed a)
  with assms obtain S where "zeroize_ok E" "L = FixedSlot ` S" "fixed_inv a S" "fixed_scrubbed a S"
    unfolding Fixed arena_ok.simps by blast
  with Fixed show ?thesis by (rule fixed)
next
  case (Buddy a)
  with assms obtain S where "zeroize_ok E" "L = block_kind ` S" "buddy_inv a S" "buddy_scrubbed a S"
    unfolding Buddy arena_ok.simps by blast
  moreover from this(3) have "buddy_core a S" unfolding buddy_inv_def by blast
  ultimately show ?thesis using Buddy by (intro buddy)
qed

lemma arena_ok_finite:
  assumes "arena_ok E s L"
  shows "finite L"
  using assms by (cases rule: arena_okE) (simp_all add: fixed_inv_finite core_finite)

lemma arena_ok_disjoint:
  assumes "arena_ok E s L" "k \<in> L" "l \<in> L" "k \<noteq> l"
  shows "ref_region s k \<inter> ref_region s l = {}"
  using assms(1)
proof (cases rule: arena_okE)
  case (fixed a S)
  obtain i where i: "k = FixedSlot i" using assms(2) unfolding fixed(3) by blast
  obtain j where j: "l = FixedSlot j" using assms(3) unfolding fixed(3) by blast
  have "i \<noteq> j" using assms(4) i j by blast
  then show ?thesis unfolding fixed(1) i j ref_region.simps by (rule slot_regions_disjoint)
next
  case (buddy a S)
  obtain b where b: "b \<in> S" "k = block_kind b" using assms(2) unfolding buddy(3) by blast
  obtain c where c: "c \<in> S" "l = block_kind c" using assms(3) unfolding buddy(3) by blast
  have "b \<noteq> c" using assms(4) b(2) c(2) by blast
  then show ?thesis unfolding buddy(1) b(2) c(2) ref_region_block
    by (rule block_regions_disjoint [OF buddy(4) b(1) c(1)])
qed

lemma arena_ok_bound:
  assumes "arena_ok E s L" "k \<in> L"
  shows "ref_region s k \<subseteq> {..<ref_size s}"
  using assms(1)
proof (cases rule: arena_okE)
  case (fixed a S)
  obtain i where i: "i \<in> S" "k = FixedSlot i" using assms(2) unfolding fixed(3) by blast
  then have "i < ai_slot_count a" using fixed(4) unfolding fixed_inv_def by blast
  then show ?thesis using fixed(1) i(2) slot_region_in_arena [OF fixed(4)] by simp
next
  case (buddy a S)
  obtain b where b: "b \<in> S" "k = block_kind b" using assms(2) unfolding buddy(3) by blast
  show ?thesis unfolding buddy(1) b(2) ref_region_block ref_size.simps
    by (rule block_region_in_arena [OF buddy(4) b(1)])
qed

lemma arena_ok_size:
  assumes "arena_ok E s L"
  shows "ref_size s < 2 ^ 64"
  using assms
proof (cases rule: arena_okE)
  case (fixed a S)
  then show ?thesis unfolding fixed_inv_def by simp
next
  case (buddy a S)
  then show ?thesis unfolding buddy_core_def geo_ok_def by simp
qed

lemma buddy_scrubbed_frame:
  assumes "buddy_core a L" "buddy_scrubbed a L" "b \<in> L" "\<forall>x. x \<notin> block_region a b \<longrightarrow> m x = bi_mem a x"
  shows "buddy_scrubbed (a\<lparr>bi_mem := m\<rparr>) L"
  unfolding buddy_scrubbed_def
proof (intro allI impI, goal_cases)
  case (1 z x)
  have "0 < bi_min_block_size a" using assms(1) geo_ok_pos by (auto simp: buddy_core_def)
  with 1 assms(3) have "x \<notin> block_region a b" by (auto simp: in_block_region)
  moreover have "bi_mem a x = 0" using 1 assms(2) unfolding buddy_scrubbed_def by auto
  ultimately show ?case using assms(4) by simp
qed

lemma buddy_inv_mem [simp]: "buddy_inv (a\<lparr>bi_mem := m\<rparr>) S = buddy_inv a S"
proof -
  have "block_bytes (a\<lparr>bi_mem := m\<rparr>) b = block_bytes a b" for b by (cases b) simp
  then show ?thesis by (simp add: buddy_inv_def)
qed

lemma arena_ok_write:
  assumes "arena_ok E s L" "k \<in> L" "\<forall>x. x \<notin> ref_region s k \<longrightarrow> m x = ref_mem s x"
  shows "arena_ok E (set_ref_mem m s) L"
  using assms(1)
proof (cases rule: arena_okE)
  case (fixed a S)
  obtain i where i: "i \<in> S" "k = FixedSlot i" using assms(2) unfolding fixed(3) by blast
  have "fixed_scrubbed (a\<lparr>ai_mem := m\<rparr>) S"
    using fixed_scrubbed_frame [OF fixed(5), of "a\<lparr>ai_mem := m\<rparr>" S i] i assms(3) fixed(1)
    by (simp add: same_fixed_def)
  with fixed show ?thesis by auto
next
  case (buddy a S)
  obtain b where b: "b \<in> S" "k = block_kind b" using assms(2) unfolding buddy(3) by blast
  have "buddy_scrubbed (a\<lparr>bi_mem := m\<rparr>) S"
    using buddy_scrubbed_frame [OF buddy(4,6) b(1)] assms(3) buddy(1) b(2) by simp
  with buddy(2,3,5) show ?thesis unfolding buddy(1) set_ref_mem.simps arena_ok.simps buddy_inv_mem by blast
qed

lemma release_Ret:
  assumes "arena_ok E s L" "k \<in> L"
  shows "\<exists>w s'. release E p s k = Ret (w, s') \<and> arena_ok E s' (L - {k}) \<and> same_ref s s' \<and>
    (\<forall>x. x \<notin> ref_region s k \<longrightarrow> ref_mem s' x = ref_mem s x)"
  using assms(1)
proof (cases rule: arena_okE)
  case (fixed a S)
  obtain i where i: "i \<in> S" "k = FixedSlot i" using assms(2) unfolding fixed(3) by blast
  obtain a' where a': "release_slot E p a i = Ret (ai_wake_handle a, a')" "fixed_inv a' (S - {i})" "same_fixed a a'"
    "\<forall>x. x \<notin> slot_region a i \<longrightarrow> ai_mem a' x = ai_mem a x"
    "zeroize_ok E \<Longrightarrow> fixed_scrubbed a S \<Longrightarrow> fixed_scrubbed a' (S - {i})"
    by (rule release_slot_Ret [OF fixed(4) i(1), of E p]) blast
  have "L - {k} = FixedSlot ` (S - {i})" using fixed(3) i by auto
  then have "arena_ok E (Fixed a') (L - {k})" using a'(2,5) fixed(2,5) unfolding arena_ok.simps by blast
  then show ?thesis using a'(1,3,4) unfolding fixed(1) i(2) by (simp del: arena_ok.simps)
next
  case (buddy a S)
  obtain b where "b \<in> S" "k = block_kind b" using assms(2) unfolding buddy(3) by blast
  with buddy have S: "zeroize_ok E" "L = block_kind ` S" "buddy_inv a S" "buddy_scrubbed a S" "b \<in> S"
    "k = block_kind b" by simp_all
  obtain ord i where b: "b = (ord, i)" by (cases b)
  note core = buddy(4) and Buddy = buddy(1)
  let ?m = "record_free (block_bytes a b) (bi_metrics a)"
  let ?a = "a\<lparr>bi_metrics := ?m\<rparr>"
  have sz: "block_size p a ord = Ret (block_bytes a b)"
    using core_validD [OF core, of b] S(5) core b by (simp add: block_size_Ret buddy_core_def)
  have pre: "buddy_core ?a S" "(ord, i) \<in> S" "buddy_scrubbed ?a S"
    using core S(4,5) b by (simp_all add: buddy_scrubbed_def)
  obtain w a' where r: "release_block E p ?a ord i = Ret (w, a')" "buddy_core a' (S - {(ord, i)})"
    "same_arena ?a a'" "\<And>c n. ledger (bi_metrics a') c n = ledger (bi_metrics ?a) c n"
    "\<forall>x. x \<notin> block_region ?a (ord, i) \<longrightarrow> bi_mem a' x = bi_mem ?a x"
    "zeroize_ok E \<Longrightarrow> buddy_scrubbed ?a S \<Longrightarrow> buddy_scrubbed a' (S - {(ord, i)})"
    by (rule release_block_ok [OF pre(1,2), of E p]) blast
  have "ledger ?m (card (S - {b})) (\<Sum>c \<in> S - {b}. block_bytes a c)"
    using ledger_remove [of "bi_metrics a" S "block_bytes a" b] S(3,5) core_finite [OF core]
    by (simp add: buddy_inv_def)
  moreover have same: "same_arena a a'" using r(3) by (simp add: same_arena_def)
  ultimately have "buddy_inv a' (S - {b})"
    using r(2,4) b by (simp add: buddy_inv_def same_arena_bytes)
  moreover have "L - {k} = block_kind ` (S - {b})" using S(2,6) by auto
  moreover have "buddy_scrubbed a' (S - {b})" using r(6) S(1) pre(3) b by simp
  moreover have "\<forall>x. x \<notin> block_region a b \<longrightarrow> bi_mem a' x = bi_mem a x" using r(5) b by simp
  moreover have "release E p s k = Ret (map_option WakeOrder w, Buddy a')"
    using r(1) sz Buddy S(6) b by simp
  ultimately have "release E p s k = Ret (map_option WakeOrder w, Buddy a') \<and> arena_ok E (Buddy a') (L - {k}) \<and>
      same_ref s (Buddy a') \<and> (\<forall>x. x \<notin> ref_region s k \<longrightarrow> ref_mem (Buddy a') x = ref_mem s x)"
    unfolding arena_ok.simps using same Buddy S(1,6) by (simp del: release.simps) blast
  then show ?thesis by blast
qed

lemma counters_ok:
  "arena_ok E (ref_record_frozen s) L = arena_ok E s L" "arena_ok E (ref_record_spill s) L = arena_ok E s L"
  "ref_mem (ref_record_frozen s) = ref_mem s" "ref_mem (ref_record_spill s) = ref_mem s"
  "same_ref s (ref_record_frozen s)" "same_ref s (ref_record_spill s)"
proof -
  have f: "fixed_inv (a\<lparr>ai_metrics := m\<rparr>) S = fixed_inv a S"
    if "\<And>c n. ledger m c n = ledger (ai_metrics a) c n" for a :: "'b ArenaInner" and m S
    using that by (simp add: fixed_inv_def)
  have b: "buddy_inv (a\<lparr>bi_metrics := m\<rparr>) S = buddy_inv a S"
    if "\<And>c n. ledger m c n = ledger (bi_metrics a) c n" for a :: "'b BuddyArenaInner" and m S
  proof -
    have "block_bytes (a\<lparr>bi_metrics := m\<rparr>) x = block_bytes a x" for x by (cases x) simp
    then show ?thesis using that by (simp add: buddy_inv_def)
  qed
  have fs: "fixed_scrubbed (a\<lparr>ai_metrics := m\<rparr>) S = fixed_scrubbed a S" for a :: "'b ArenaInner" and m S
    by (simp add: fixed_scrubbed_def)
  have bs: "buddy_scrubbed (a\<lparr>bi_metrics := m\<rparr>) S = buddy_scrubbed a S" for a :: "'b BuddyArenaInner" and m S
    by (simp add: buddy_scrubbed_def)
  show "arena_ok E (ref_record_frozen s) L = arena_ok E s L" "arena_ok E (ref_record_spill s) L = arena_ok E s L"
    by (cases s; simp add: f b fs bs)+
  show "ref_mem (ref_record_frozen s) = ref_mem s" "ref_mem (ref_record_spill s) = ref_mem s"
    by (cases s; simp)+
  show "same_ref s (ref_record_frozen s)" "same_ref s (ref_record_spill s)"
    by (cases s; simp add: same_fixed_def same_arena_def)+
qed

lemma ref_allocate_fixed:
  fixes a :: "'d ArenaInner"
  assumes "fixed_inv a S" "fixed_scrubbed a S" "zeroize_ok E"
  shows "\<exists>r a'. (allocate_fixed E p a :: ('h, 'd) fixed_result) = Ret (r, a') \<and> same_fixed a a' \<and>
    (case r of
       Inl e \<Rightarrow> e = ArenaFull \<and> S = {..<ai_slot_count a} \<and> fixed_inv a' S \<and> fixed_scrubbed a' S \<and> ai_mem a' = ai_mem a
     | Inr buf \<Rightarrow> \<exists>i. i < ai_slot_count a \<and> i \<notin> S \<and> fixed_inv a' (insert i S) \<and> fixed_scrubbed a' (insert i S) \<and>
         buf = new_fixed (ai_ptr a) (ai_auto_spill a) i (i * ai_slot_capacity a) (ai_slot_capacity a) \<and>
         (\<forall>x. x \<notin> slot_region a i \<longrightarrow> ai_mem a' x = ai_mem a x) \<and>
         (ai_init_policy a = Zero \<longrightarrow> (\<forall>x \<in> slot_region a i. ai_mem a' x = 0)))"
  using assms(1)
proof (cases rule: allocate_fixed_cases [where E = E and p = p and ?'h = 'h])
  case (full a')
  then have "fixed_scrubbed a' S"
    using assms(2) same_fixed_region [OF full(9)] by (simp add: fixed_scrubbed_def)
  with full show ?thesis by (intro exI [of _ "Inl ArenaFull"] exI [of _ a']) simp
next
  case (claimed i a')
  have "fixed_scrubbed a' (insert i S)"
    by (rule fixed_scrubbed_frame [OF assms(2) claimed(11,8)]) (use claimed(5) in auto)
  let ?buf = "new_fixed (ai_ptr a) (ai_auto_spill a) i (i * ai_slot_capacity a) (ai_slot_capacity a) :: 'h Buffer"
  show ?thesis
    by (intro exI [of _ "Inr ?buf"] exI [of _ a'])
      (use claimed(1-5,11) claimed(10) [OF assms(3,2)] \<open>fixed_scrubbed a' (insert i S)\<close>
       in \<open>auto intro!: exI [of _ i]\<close>)
qed

lemma ref_allocate_Ret:
  fixes s :: "'d ArenaRef"
  assumes "arena_ok E s L" "request_ok len"
  shows "\<exists>res s'. (ref_allocate E p s len :: ('h, 'd) alloc_result) = Ret (res, s') \<and> same_ref s s' \<and>
    (case res of
       Inl e \<Rightarrow> arena_ok E s' L \<and> ref_mem s' = ref_mem s
     | Inr buf \<Rightarrow> buf_allocation buf \<notin> L \<and> arena_ok E s' (insert (buf_allocation buf) L) \<and>
         buf_len buf = 0 \<and> \<not> buf_released buf \<and> buf_spilled buf = None \<and>
         granted buf \<subseteq> ref_region s (buf_allocation buf) \<and>
         (\<forall>x. x \<notin> ref_region s (buf_allocation buf) \<longrightarrow> ref_mem s' x = ref_mem s x))"
  using assms(1)
proof (cases rule: arena_okE)
  case (fixed a S)
  from ref_allocate_fixed [OF fixed(4,5,2), of p, where ?'h = 'h]
  obtain r a' where r: "(allocate_fixed E p a :: ('h, 'd) fixed_result) = Ret (r, a')" "same_fixed a a'"
    and post: "case r of
       Inl e \<Rightarrow> e = ArenaFull \<and> S = {..<ai_slot_count a} \<and> fixed_inv a' S \<and> fixed_scrubbed a' S \<and> ai_mem a' = ai_mem a
     | Inr buf \<Rightarrow> \<exists>i. i < ai_slot_count a \<and> i \<notin> S \<and> fixed_inv a' (insert i S) \<and> fixed_scrubbed a' (insert i S) \<and>
         buf = new_fixed (ai_ptr a) (ai_auto_spill a) i (i * ai_slot_capacity a) (ai_slot_capacity a) \<and>
         (\<forall>x. x \<notin> slot_region a i \<longrightarrow> ai_mem a' x = ai_mem a x) \<and>
         (ai_init_policy a = Zero \<longrightarrow> (\<forall>x \<in> slot_region a i. ai_mem a' x = 0))" by blast
  have eq: "ref_allocate E p s len = Ret (r, Fixed a')" using r(1) fixed(1) by simp
  show ?thesis
  proof (cases r)
    case (Inl e)
    then have "arena_ok E (Fixed a') L" using post fixed(2,3) by auto
    with eq r(2) post Inl fixed(1) show ?thesis by simp
  next
    case (Inr buf)
    with post obtain i where i: "i \<notin> S" "fixed_inv a' (insert i S)" "fixed_scrubbed a' (insert i S)"
      "buf = new_fixed (ai_ptr a) (ai_auto_spill a) i (i * ai_slot_capacity a) (ai_slot_capacity a)"
      "\<forall>x. x \<notin> slot_region a i \<longrightarrow> ai_mem a' x = ai_mem a x" by auto
    have "insert (FixedSlot i) L = FixedSlot ` insert i S" "FixedSlot i \<notin> L" using fixed(3) i(1) by auto
    moreover from this(1) i(2,3) fixed(2) have "arena_ok E (Fixed a') (insert (FixedSlot i) L)"
      unfolding arena_ok.simps by blast
    moreover have "granted buf \<subseteq> slot_region a i" "buf_allocation buf = FixedSlot i" "buf_len buf = 0"
      "\<not> buf_released buf" "buf_spilled buf = None"
      unfolding i(4) by (simp_all add: slot_region_def)
    ultimately show ?thesis unfolding eq Inr using r(2) i(5) fixed(1) by (simp del: arena_ok.simps)
  qed
next
  case (buddy a S)
  have len: "len \<le> 2 ^ 63" using assms(2) by (simp add: request_ok_def)
  from buddy(5) len show ?thesis
  proof (cases rule: allocate_buddy_cases [where E = E and p = p and ?'h = 'h])
    case (too_large a')
    then have "arena_ok E (Buddy a') L" using buddy(2,3,6) unfolding arena_ok.simps by blast
    with too_large buddy(1) show ?thesis by (simp del: arena_ok.simps)
  next
    case (full t a')
    then have "arena_ok E (Buddy a') L" using buddy(2,3,6) unfolding arena_ok.simps by blast
    with full buddy(1) show ?thesis by (simp del: arena_ok.simps)
  next
    case (ok t j a')
    have "insert (BuddyBlock t j) L = block_kind ` insert (t, j) S" using buddy(3) by simp
    then have inv: "arena_ok E (Buddy a') (insert (BuddyBlock t j) L)"
      using buddy(2) ok(5) ok(8) [OF buddy(6)] unfolding arena_ok.simps by blast
    have "BuddyBlock t j \<notin> L" using buddy(3) ok(4) by force
    with inv ok(3,6,7) buddy(1) show ?thesis by (auto simp: Let_def simp del: arena_ok.simps)
  qed
qed

interpretation own: arena_owner "arena_ok E" ref_region ref_size ref_mem set_ref_mem same_ref "release E p"
    ref_record_frozen ref_record_spill for E p
  by unfold_locales
    (auto simp: counters_ok arena_ok_finite arena_ok_write release_Ret same_ref_laws
      dest: arena_ok_disjoint arena_ok_bound arena_ok_size simp del: arena_ok.simps release.simps)

interpretation aa: arena_allocator "arena_ok E" ref_region ref_size ref_mem set_ref_mem same_ref "release E p"
    ref_record_frozen ref_record_spill "ref_allocate E p" request_ok for E p
  by unfold_locales (rule ref_allocate_Ret)

subsection \<open>A sample arena\<close>

text \<open>Three slots of eight bytes under the \<open>Zero\<close> policy, the first one in use.\<close>

definition sample_fixed :: "unit ArenaInner" where
  "sample_fixed =
    \<lparr>ai_ptr = 4096, ai_total_size = 24, ai_slot_capacity = 8, ai_slot_count = 3,
     ai_bitmap = clear_slot (new_bitmap 3) 0, ai_auto_spill = False, ai_init_policy = Zero,
     ai_metrics = record_alloc_success 8 (new_metrics 24), ai_zeroed_bitmap = Some (new_empty 3),
     ai_dealloc = new_erased NoDealloc, ai_wake_handle = False, ai_mem = (\<lambda>i. 7)\<rparr>"

lemma sample_fixed_ok: "fixed_inv sample_fixed {0}" "fixed_scrubbed sample_fixed {0}"
proof -
  have "ledger (record_alloc_success 8 (new_metrics 24)) 1 8"
    using ledger_alloc [OF ledger_new, of 8 24] by simp
  then show "fixed_inv sample_fixed {0}"
    by (auto simp: fixed_inv_def sample_fixed_def scrub_wf_def)
  show "fixed_scrubbed sample_fixed {0}" by (simp add: fixed_scrubbed_def sample_fixed_def)
qed

lemma sample_fixed_arena_ok: "arena_ok sample_externals (Fixed sample_fixed) {FixedSlot 0}"
  using sample_fixed_ok sample_externals_ok by (auto intro!: exI [of _ "{0}"])

text \<open>C2. Allocation from a fixed arena always returns. It fails exactly when every slot is in use; otherwise
  the buffer is a slot that was free, whole and within the arena, disjoint from every slot in use, and
  all zeros under the \<open>Zero\<close> policy whatever an earlier owner wrote. No byte outside the slot changes
  and the invariant holds afterwards.\<close>

theorem allocate_fixed_correct:
  fixes a :: "'d ArenaInner"
  assumes "fixed_inv a S" "fixed_scrubbed a S" "zeroize_ok E"
  shows "\<exists>r a'. (allocate_fixed E p a :: ('h, 'd) fixed_result) = Ret (r, a') \<and>
    (case r of
       Inl e \<Rightarrow> e = ArenaFull \<and> S = {..<ai_slot_count a} \<and> fixed_inv a' S \<and> fixed_scrubbed a' S \<and> ai_mem a' = ai_mem a
     | Inr buf \<Rightarrow> \<exists>i. buf_allocation buf = FixedSlot i \<and> i \<notin> S \<and> fixed_inv a' (insert i S) \<and>
         fixed_scrubbed a' (insert i S) \<and> granted buf = slot_region a i \<and>
         buf_capacity buf = ai_slot_capacity a \<and> slot_region a i \<subseteq> {..<ai_total_size a} \<and>
         (\<forall>j \<in> S. slot_region a i \<inter> slot_region a j = {}) \<and>
         (\<forall>x. x \<notin> slot_region a i \<longrightarrow> ai_mem a' x = ai_mem a x) \<and>
         (ai_init_policy a = Zero \<longrightarrow> (\<forall>x \<in> granted buf. ai_mem a' x = 0)))"
proof -
  from ref_allocate_fixed [OF assms, of p, where ?'h = 'h]
  obtain r a' where r: "(allocate_fixed E p a :: ('h, 'd) fixed_result) = Ret (r, a')" "same_fixed a a'"
    and post: "case r of
       Inl e \<Rightarrow> e = ArenaFull \<and> S = {..<ai_slot_count a} \<and> fixed_inv a' S \<and> fixed_scrubbed a' S \<and> ai_mem a' = ai_mem a
     | Inr buf \<Rightarrow> \<exists>i. i < ai_slot_count a \<and> i \<notin> S \<and> fixed_inv a' (insert i S) \<and> fixed_scrubbed a' (insert i S) \<and>
         buf = new_fixed (ai_ptr a) (ai_auto_spill a) i (i * ai_slot_capacity a) (ai_slot_capacity a) \<and>
         (\<forall>x. x \<notin> slot_region a i \<longrightarrow> ai_mem a' x = ai_mem a x) \<and>
         (ai_init_policy a = Zero \<longrightarrow> (\<forall>x \<in> slot_region a i. ai_mem a' x = 0))" by blast
  show ?thesis
  proof (cases r)
    case (Inl e)
    with r(1) post show ?thesis by auto
  next
    case (Inr buf)
    with post obtain i where i: "i < ai_slot_count a" "i \<notin> S" "fixed_inv a' (insert i S)" "fixed_scrubbed a' (insert i S)"
      "buf = new_fixed (ai_ptr a) (ai_auto_spill a) i (i * ai_slot_capacity a) (ai_slot_capacity a)"
      "\<forall>x. x \<notin> slot_region a i \<longrightarrow> ai_mem a' x = ai_mem a x"
      "ai_init_policy a = Zero \<longrightarrow> (\<forall>x \<in> slot_region a i. ai_mem a' x = 0)" by auto
    have "granted buf = slot_region a i" "buf_allocation buf = FixedSlot i" "buf_capacity buf = ai_slot_capacity a"
      unfolding i(5) by (simp_all add: slot_region_def)
    moreover have "\<forall>j \<in> S. slot_region a i \<inter> slot_region a j = {}" using i(2) slot_regions_disjoint by metis
    ultimately show ?thesis
      using r(1) Inr i(2-4,6,7) slot_region_in_arena [OF assms(1) i(1)] by (intro exI conjI) auto
  qed
qed

theorem allocate_fixed_correct_witness:
  "\<exists>r a'. (allocate_fixed sample_externals Debug sample_fixed :: (unit, unit) fixed_result) = Ret (r, a') \<and>
    (case r of Inl e \<Rightarrow> {0} = {..<3 :: nat}
     | Inr buf \<Rightarrow> buf_capacity buf = 8 \<and> (\<forall>x \<in> granted buf. ai_mem a' x = 0))"
proof -
  have "ai_slot_count sample_fixed = 3" "ai_slot_capacity sample_fixed = 8" "ai_init_policy sample_fixed = Zero"
    by (simp_all add: sample_fixed_def)
  then show ?thesis
    using allocate_fixed_correct [OF sample_fixed_ok, of sample_externals Debug, where ?'h = unit] sample_externals_ok
    by (fastforce split: sum.splits)
qed

text \<open>C3. Releasing every allocation in use, in any order and each once, always returns and restores the
  arena: no bytes are live, the counters balance, every slot of a fixed arena is free, and the blocks of
  a buddy arena have merged back into the single block of the whole arena.\<close>

theorem release_all_restores:
  fixes s :: "'d ArenaRef"
  assumes "arena_ok E s L" "distinct ks" "set ks = L"
  shows "\<exists>s'. ofold (release E p) s ks = Ret s' \<and> arena_ok E s' {} \<and> same_ref s s' \<and>
    ms_bytes_live (ref_metrics s') = 0 \<and> ms_allocations_ok (ref_metrics s') = ms_frees (ref_metrics s') \<and>
    (case s' of Fixed a \<Rightarrow> free_set (ai_bitmap a) = {..<ai_slot_count a}
     | Buddy a \<Rightarrow> free_blocks a = {(bi_max_order a, 0)})"
proof -
  from own.release_in_any_order [OF assms(1,2), of p] assms(3)
  obtain s' where s': "ofold (release E p) s ks = Ret s'" "arena_ok E s' {}" "same_ref s s'" by auto
  from s'(2) have "ms_bytes_live (ref_metrics s') = 0 \<and> ms_allocations_ok (ref_metrics s') = ms_frees (ref_metrics s') \<and>
    (case s' of Fixed a \<Rightarrow> free_set (ai_bitmap a) = {..<ai_slot_count a}
     | Buddy a \<Rightarrow> free_blocks a = {(bi_max_order a, 0)})"
  proof (cases rule: arena_okE)
    case (fixed a S)
    then show ?thesis by (simp add: fixed_inv_def ledger_def)
  next
    case (buddy a S)
    then have "S = {}" by simp
    with buddy(4) have "tiles (bi_max_order a) (free_blocks a)" "coalesced (bi_max_order a) (free_blocks a)"
      by (simp_all add: buddy_core_def)
    then have "free_blocks a = {(bi_max_order a, 0)}" by (rule coalesced_full)
    with buddy(1,5) \<open>S = {}\<close> show ?thesis by (simp add: buddy_inv_def ledger_def)
  qed
  with s' show ?thesis by blast
qed

theorem release_all_restores_witness:
  "\<exists>s'. ofold (release sample_externals Debug) (Fixed sample_fixed) [FixedSlot 0] = Ret s' \<and>
    arena_ok sample_externals s' {} \<and> ms_bytes_live (ref_metrics s') = 0"
  using release_all_restores [OF sample_fixed_arena_ok, of "[FixedSlot 0]" Debug]
  by (auto simp del: arena_ok.simps)

end
