(* ===== verification/Buffer.thy ===== *)
theory Buffer
  imports Allocation
begin

text \<open>
  Writable buffers and frozen handles: \<^verbatim>\<open>src/src/buffer.rs\<close>, \<^verbatim>\<open>src/src/handle.rs\<close> and
  \<^verbatim>\<open>src/src/ext.rs\<close>. A buffer writes into its allocation through the \<^verbatim>\<open>BufMut\<close> protocol, moves to
  the heap when it overflows and its arena was built with \<^verbatim>\<open>auto_spill\<close>, and ends by being frozen into
  immutable bytes or dropped.

  Two parts of the \<^verbatim>\<open>bytes\<close> crate are parameters. \<open>bytes_mut\<close> is the heap buffer \<^verbatim>\<open>BytesMut\<close>, of which
  \<open>bytes_mut_ok\<close> states the documented behaviour. The provided method \<^verbatim>\<open>BufMut::put_slice\<close>, which
  \<^verbatim>\<open>try_put_slice\<close> calls, is a function of which \<open>put_slice_ok\<close> states the documented behaviour: it moves
  the bytes through \<^verbatim>\<open>chunk_mut\<close> and \<^verbatim>\<open>advance_mut\<close> and fails only for want of room.
\<close>

subsection \<open>Heap buffers\<close>

record 'h bytes_mut =
  hm_with_capacity :: "nat \<Rightarrow> 'h"
  hm_from :: "bytes \<Rightarrow> 'h"
  hm_extend_from_slice :: "'h \<Rightarrow> bytes \<Rightarrow> 'h"
  hm_contents :: "'h \<Rightarrow> bytes"
  hm_len :: "'h \<Rightarrow> nat"
  hm_is_empty :: "'h \<Rightarrow> bool"
  hm_remaining_mut :: "'h \<Rightarrow> nat"
  hm_chunk_mut :: "'h \<Rightarrow> nat \<times> 'h"
  hm_write_chunk :: "'h \<Rightarrow> bytes \<Rightarrow> 'h"
  hm_advance_mut :: "'h \<Rightarrow> nat \<Rightarrow> 'h outcome"
  hm_freeze :: "'h \<Rightarrow> bytes"

text \<open>
  The documented behaviour of \<^verbatim>\<open>BytesMut\<close>: it is a growable byte sequence; \<open>hm_chunk_mut\<close> gives the
  length of a spare chunk, which is never empty while the buffer can grow, and bytes written to the
  start of that chunk become part of the sequence when the cursor advances over them.
\<close>

definition bytes_mut_ok :: "'h bytes_mut \<Rightarrow> bool" where
  "bytes_mut_ok H \<longleftrightarrow>
     (\<forall>n. hm_contents H (hm_with_capacity H n) = []) \<and>
     (\<forall>xs. hm_contents H (hm_from H xs) = xs) \<and>
     (\<forall>h xs. hm_contents H (hm_extend_from_slice H h xs) = hm_contents H h @ xs) \<and>
     (\<forall>h. hm_len H h = length (hm_contents H h)) \<and>
     (\<forall>h. hm_is_empty H h \<longleftrightarrow> hm_contents H h = []) \<and>
     (\<forall>h. hm_freeze H h = hm_contents H h) \<and>
     (\<forall>h. hm_remaining_mut H h = usize_max - hm_len H h) \<and>
     (\<forall>h. hm_contents H (snd (hm_chunk_mut H h)) = hm_contents H h) \<and>
     (\<forall>h. 0 < hm_remaining_mut H h \<longrightarrow> 0 < fst (hm_chunk_mut H h)) \<and>
     (\<forall>h xs. length xs \<le> fst (hm_chunk_mut H h) \<longrightarrow>
        (\<exists>h'. hm_advance_mut H (hm_write_chunk H (snd (hm_chunk_mut H h)) xs) (length xs) = Ret h' \<and>
           hm_contents H h' = hm_contents H h @ xs))"

subsection \<open>Operations of a buffer\<close>

text \<open>The buffer together with its arena and the wake calls made so far.\<close>

record ('d, 'h) bstate =
  bs_arena :: "'d ArenaRef"
  bs_buf :: "'h Buffer"
  bs_wakes :: "Wake list"

definition start_buffer :: "'d ArenaRef \<Rightarrow> 'h Buffer \<Rightarrow> ('d, 'h) bstate" where
  "start_buffer s buf = \<lparr>bs_arena = s, bs_buf = buf, bs_wakes = []\<rparr>"

definition capacity :: "'h Buffer \<Rightarrow> nat" where
  "capacity buf = buf_capacity buf"

definition buffer_len :: "'h bytes_mut \<Rightarrow> 'h Buffer \<Rightarrow> nat" where
  "buffer_len H buf = (case buf_spilled buf of Some h \<Rightarrow> hm_len H h | None \<Rightarrow> buf_len buf)"

definition is_empty :: "'h bytes_mut \<Rightarrow> 'h Buffer \<Rightarrow> bool" where
  "is_empty H buf = (case buf_spilled buf of Some h \<Rightarrow> hm_is_empty H h | None \<Rightarrow> buf_len buf = 0)"

definition is_spilled :: "'h Buffer \<Rightarrow> bool" where
  "is_spilled buf = (buf_spilled buf \<noteq> None)"

definition remaining_mut :: "'h bytes_mut \<Rightarrow> profile \<Rightarrow> 'h Buffer \<Rightarrow> nat outcome" where
  "remaining_mut H p buf =
     (case buf_spilled buf of
        Some h \<Rightarrow> Ret (hm_remaining_mut H h)
      | None \<Rightarrow> if buf_auto_spill buf then Ret usize_max else usize_sub p (buf_capacity buf) (buf_len buf))"

definition will_fit :: "'h bytes_mut \<Rightarrow> profile \<Rightarrow> 'h Buffer \<Rightarrow> nat \<Rightarrow> bool outcome" where
  "will_fit H p buf len = obind (remaining_mut H p buf) (\<lambda>remaining. Ret (len \<le> remaining))"

definition release_buffer ::
    "externals \<Rightarrow> profile \<Rightarrow> ('d, 'h) bstate \<Rightarrow> ('d, 'h) bstate outcome" where
  "release_buffer E p st =
     obind (release E p (bs_arena st) (buf_allocation (bs_buf st))) (\<lambda>(wake, s).
       Ret (st\<lparr>bs_arena := s, bs_wakes := bs_wakes st @ (case wake of None \<Rightarrow> [] | Some w \<Rightarrow> [w])\<rparr>))"

definition do_spill ::
    "externals \<Rightarrow> 'h bytes_mut \<Rightarrow> profile \<Rightarrow> ('d, 'h) bstate \<Rightarrow> ('d, 'h) bstate outcome" where
  "do_spill E H p st =
     (let buf = bs_buf st in
      obind (usize_mul p (buf_len buf) 2) (\<lambda>cap.
        let buffer = hm_with_capacity H cap;
            src = mem_slice (ref_mem (bs_arena st)) (buf_offset buf) (buf_len buf);
            buffer = hm_extend_from_slice H buffer src;
            st1 = st\<lparr>bs_arena := ref_record_spill (bs_arena st)\<rparr>
        in obind (release_buffer E p st1) (\<lambda>st2.
             Ret (st2\<lparr>bs_buf := buf\<lparr>buf_released := True, buf_spilled := Some buffer\<rparr>\<rparr>))))"

text \<open>\<open>chunk_mut\<close> returns the length of the chunk; \<open>write_chunk\<close> is the caller's store to its start.\<close>

definition chunk_mut ::
    "externals \<Rightarrow> 'h bytes_mut \<Rightarrow> profile \<Rightarrow> ('d, 'h) bstate \<Rightarrow> (nat \<times> ('d, 'h) bstate) outcome" where
  "chunk_mut E H p st =
     obind (if buf_spilled (bs_buf st) = None \<and> buf_auto_spill (bs_buf st) \<and>
               buf_capacity (bs_buf st) \<le> buf_len (bs_buf st)
            then do_spill E H p st else Ret st) (\<lambda>st1.
       let buf = bs_buf st1 in
       case buf_spilled buf of
         Some h \<Rightarrow>
           (let (c, h') = hm_chunk_mut H h
            in Ret (c, st1\<lparr>bs_buf := buf\<lparr>buf_spilled := Some h'\<rparr>\<rparr>))
       | None \<Rightarrow> obind (usize_sub p (buf_capacity buf) (buf_len buf)) (\<lambda>remaining. Ret (remaining, st1)))"

definition write_chunk :: "'h bytes_mut \<Rightarrow> ('d, 'h) bstate \<Rightarrow> bytes \<Rightarrow> ('d, 'h) bstate" where
  "write_chunk H st xs =
     (let buf = bs_buf st in
      case buf_spilled buf of
        Some h \<Rightarrow> st\<lparr>bs_buf := buf\<lparr>buf_spilled := Some (hm_write_chunk H h xs)\<rparr>\<rparr>
      | None \<Rightarrow>
          st\<lparr>bs_arena := set_ref_mem
               (mem_store (ref_mem (bs_arena st)) (buf_offset buf + buf_len buf) (length xs) xs) (bs_arena st)\<rparr>)"

definition advance_mut ::
    "'h bytes_mut \<Rightarrow> profile \<Rightarrow> ('d, 'h) bstate \<Rightarrow> nat \<Rightarrow> ('d, 'h) bstate outcome" where
  "advance_mut H p st cnt =
     (let buf = bs_buf st in
      case buf_spilled buf of
        Some h \<Rightarrow> obind (hm_advance_mut H h cnt) (\<lambda>h'. Ret (st\<lparr>bs_buf := buf\<lparr>buf_spilled := Some h'\<rparr>\<rparr>))
      | None \<Rightarrow>
          obind (usize_add p (buf_len buf) cnt) (\<lambda>n.
            if n \<le> buf_capacity buf then Ret (st\<lparr>bs_buf := buf\<lparr>buf_len := n\<rparr>\<rparr>)
            else Panic (''arena buffer overflow: '' @ show_nat (buf_len buf) @ '' + '' @ show_nat cnt @ '' > ''
                        @ show_nat (buf_capacity buf))))"

text \<open>
  The protocol a \<^verbatim>\<open>BufMut\<close> caller follows: ask for a chunk, write bytes to its start, advance the cursor
  over them. \<open>transfer E H p st xs st'\<close>: some sequence of such rounds moves \<open>xs\<close> into the buffer.
\<close>

inductive transfer ::
    "externals \<Rightarrow> 'h bytes_mut \<Rightarrow> profile \<Rightarrow> ('d, 'h) bstate \<Rightarrow> bytes \<Rightarrow> ('d, 'h) bstate \<Rightarrow> bool"
  for E H p where
  stop: "transfer E H p st [] st"
| round: "chunk_mut E H p st = Ret (c, st1) \<Longrightarrow> xs \<noteq> [] \<Longrightarrow> length xs \<le> c \<Longrightarrow>
    advance_mut H p (write_chunk H st1 xs) (length xs) = Ret st2 \<Longrightarrow> transfer E H p st2 ys st' \<Longrightarrow>
    transfer E H p st (xs @ ys) st'"

text \<open>The implementor is at fault after moving some of the bytes: no chunk, or an advance that fails.\<close>

definition stuck :: "externals \<Rightarrow> 'h bytes_mut \<Rightarrow> profile \<Rightarrow> ('d, 'h) bstate \<Rightarrow> bool" where
  "stuck E H p st \<longleftrightarrow>
     (case chunk_mut E H p st of
        Ret (c, st1) \<Rightarrow> c = 0 \<or>
          (\<exists>xs. xs \<noteq> [] \<and> length xs \<le> c \<and> (\<forall>st2. advance_mut H p (write_chunk H st1 xs) (length xs) \<noteq> Ret st2))
      | _ \<Rightarrow> True)"

definition put_slice_ok ::
    "externals \<Rightarrow> 'h bytes_mut \<Rightarrow> profile \<Rightarrow> (('d, 'h) bstate \<Rightarrow> bytes \<Rightarrow> ('d, 'h) bstate outcome) \<Rightarrow> bool" where
  "put_slice_ok E H p put \<longleftrightarrow>
     (\<forall>st src. case put st src of
        Ret st' \<Rightarrow> transfer E H p st src st'
      | _ \<Rightarrow> (\<forall>r. remaining_mut H p (bs_buf st) = Ret r \<longrightarrow> r < length src) \<or>
          (\<exists>xs ys st1. src = xs @ ys \<and> ys \<noteq> [] \<and> transfer E H p st xs st1 \<and> stuck E H p st1))"

definition try_put_slice ::
    "'h bytes_mut \<Rightarrow> profile \<Rightarrow> (('d, 'h) bstate \<Rightarrow> bytes \<Rightarrow> ('d, 'h) bstate outcome) \<Rightarrow>
     ('d, 'h) bstate \<Rightarrow> bytes \<Rightarrow> ((BufferFullError + unit) \<times> ('d, 'h) bstate) outcome" where
  "try_put_slice H p put st data =
     obind (remaining_mut H p (bs_buf st)) (\<lambda>remaining.
       if remaining < length data
       then Ret (Inl \<lparr>bf_remaining = remaining, bf_requested = length data\<rparr>, st)
       else obind (put st data) (\<lambda>st'. Ret (Inr (), st')))"

subsection \<open>The end of a buffer\<close>

text \<open>The owner of frozen arena memory.\<close>

record BufferHandle =
  bh_allocation :: AllocationKind
  bh_ptr :: nat
  bh_offset :: nat
  bh_len :: nat

definition new_handle :: "AllocationKind \<Rightarrow> nat \<Rightarrow> nat \<Rightarrow> nat \<Rightarrow> BufferHandle" where
  "new_handle allocation ptr offset len =
     \<lparr>bh_allocation = allocation, bh_ptr = ptr, bh_offset = offset, bh_len = len\<rparr>"

definition handle_as_ref :: "'d ArenaRef \<Rightarrow> BufferHandle \<Rightarrow> bytes" where
  "handle_as_ref s h = mem_slice (ref_mem s) (bh_offset h) (bh_len h)"

definition drop_handle ::
    "externals \<Rightarrow> profile \<Rightarrow> 'd ArenaRef \<Rightarrow> BufferHandle \<Rightarrow> (Wake option \<times> 'd ArenaRef) outcome" where
  "drop_handle E p s h = release E p s (bh_allocation h)"

text \<open>\<^verbatim>\<open>Bytes\<close>: on the heap, or over arena memory through its owner (\<^verbatim>\<open>Bytes::from_owner\<close>).\<close>

datatype Bytes = HeapBytes bytes | ArenaBytes BufferHandle

fun bytes_as_ref :: "'d ArenaRef \<Rightarrow> Bytes \<Rightarrow> bytes" where
  "bytes_as_ref s (HeapBytes xs) = xs"
| "bytes_as_ref s (ArenaBytes h) = handle_as_ref s h"

text \<open>The \<^verbatim>\<open>Drop\<close> of the last \<^verbatim>\<open>Bytes\<close> over an owner.\<close>

fun drop_bytes ::
    "externals \<Rightarrow> profile \<Rightarrow> 'd ArenaRef \<Rightarrow> Bytes \<Rightarrow> (Wake option \<times> 'd ArenaRef) outcome" where
  "drop_bytes E p s (HeapBytes xs) = Ret (None, s)"
| "drop_bytes E p s (ArenaBytes h) = drop_handle E p s h"

definition drop_buffer ::
    "externals \<Rightarrow> profile \<Rightarrow> ('d, 'h) bstate \<Rightarrow> ('d, 'h) bstate outcome" where
  "drop_buffer E p st = (if buf_released (bs_buf st) then Ret st else release_buffer E p st)"

definition abandon :: "externals \<Rightarrow> profile \<Rightarrow> ('d, 'h) bstate \<Rightarrow> ('d, 'h) bstate outcome" where
  "abandon E p st = drop_buffer E p st"

text \<open>Freezing a spilled buffer drops what is left of it; otherwise the buffer is forgotten.\<close>

definition freeze ::
    "externals \<Rightarrow> 'h bytes_mut \<Rightarrow> profile \<Rightarrow> ('d, 'h) bstate \<Rightarrow> (Bytes \<times> ('d, 'h) bstate) outcome" where
  "freeze E H p st =
     (let buf = bs_buf st in
      case buf_spilled buf of
        Some spilled \<Rightarrow>
          obind (drop_buffer E p (st\<lparr>bs_buf := buf\<lparr>buf_spilled := None\<rparr>\<rparr>)) (\<lambda>st'.
            Ret (HeapBytes (hm_freeze H spilled), st'))
      | None \<Rightarrow>
          Ret (ArenaBytes (new_handle (buf_allocation buf) (buf_ptr buf) (buf_offset buf) (buf_len buf)),
               st\<lparr>bs_arena := ref_record_frozen (bs_arena st)\<rparr>))"

text \<open>\<^verbatim>\<open>BytesExt::into_owned\<close> on the last handle: copy, then drop.\<close>

definition into_owned ::
    "externals \<Rightarrow> 'h bytes_mut \<Rightarrow> profile \<Rightarrow> 'd ArenaRef \<Rightarrow> Bytes \<Rightarrow> ('h \<times> Wake option \<times> 'd ArenaRef) outcome" where
  "into_owned E H p s b =
     (let copied = hm_from H (bytes_as_ref s b)
      in obind (drop_bytes E p s b) (\<lambda>(w, s'). Ret (copied, w, s')))"

subsection \<open>What a buffer holds\<close>

text \<open>
  \<open>holds E H L st data\<close>: the buffer has \<open>data\<close> written to it, in its own allocation or, after a spill, on
  the heap; \<open>L\<close> are the other allocations in use.
\<close>

definition holds ::
    "externals \<Rightarrow> 'h bytes_mut \<Rightarrow> AllocationKind set \<Rightarrow> ('d, 'h) bstate \<Rightarrow> bytes \<Rightarrow> bool" where
  "holds E H L st data \<longleftrightarrow>
     ref_size (bs_arena st) \<le> isize_max \<and>
     (let buf = bs_buf st; s = bs_arena st; k = buf_allocation buf in
      case buf_spilled buf of
        None \<Rightarrow> \<not> buf_released buf \<and> k \<notin> L \<and> arena_ok E s (insert k L) \<and> granted buf \<subseteq> ref_region s k \<and>
          length data \<le> buf_capacity buf \<and> buf_len buf = length data \<and>
          mem_slice (ref_mem s) (buf_offset buf) (length data) = data
      | Some h \<Rightarrow> buf_released buf \<and> arena_ok E s L \<and> hm_contents H h = data)"

text \<open>The room for a buffer's data: heap memory is limited only by the length of a slice.\<close>

definition room :: "'h Buffer \<Rightarrow> nat" where
  "room buf = (if buf_auto_spill buf \<or> buf_spilled buf \<noteq> None then usize_max else buf_capacity buf)"

text \<open>\<open>kept L s s'\<close>: the arena's fixed parts and the bytes of the allocations \<open>L\<close> are the same.\<close>

definition kept :: "AllocationKind set \<Rightarrow> 'd ArenaRef \<Rightarrow> 'd ArenaRef \<Rightarrow> bool" where
  "kept L s s' \<longleftrightarrow> same_ref s s' \<and> (\<forall>l \<in> L. \<forall>x \<in> ref_region s l. ref_mem s' x = ref_mem s x)"

lemma kept_refl [simp]: "kept L s s"
  by (simp add: kept_def same_ref_laws)

lemma kept_trans: "kept L s s' \<Longrightarrow> kept L s' s'' \<Longrightarrow> kept L s s''"
  unfolding kept_def using same_ref_laws(2,3) by metis

lemma kept_change:
  assumes "arena_ok E s (insert k L)" "k \<notin> L" "same_ref s s'"
    "\<forall>x. x \<notin> ref_region s k \<longrightarrow> ref_mem s' x = ref_mem s x"
  shows "kept L s s'"
  unfolding kept_def
proof (intro conjI ballI)
  fix l x
  assume "l \<in> L" "x \<in> ref_region s l"
  moreover from this assms(2) have "ref_region s k \<inter> ref_region s l = {}"
    by (intro arena_ok_disjoint [OF assms(1)]) auto
  ultimately show "ref_mem s' x = ref_mem s x" using assms(4) by blast
qed (rule assms(3))

lemma holds_heap:
  "buf_spilled (bs_buf st) = Some h \<Longrightarrow> holds E H L st data \<longleftrightarrow>
     ref_size (bs_arena st) \<le> isize_max \<and> buf_released (bs_buf st) \<and> arena_ok E (bs_arena st) L \<and> hm_contents H h = data"
  by (simp add: holds_def)

lemma holds_arena:
  "buf_spilled (bs_buf st) = None \<Longrightarrow> holds E H L st data \<longleftrightarrow>
     ref_size (bs_arena st) \<le> isize_max \<and> \<not> buf_released (bs_buf st) \<and> buf_allocation (bs_buf st) \<notin> L \<and>
     arena_ok E (bs_arena st) (insert (buf_allocation (bs_buf st)) L) \<and>
     granted (bs_buf st) \<subseteq> ref_region (bs_arena st) (buf_allocation (bs_buf st)) \<and>
     length data \<le> buf_capacity (bs_buf st) \<and> buf_len (bs_buf st) = length data \<and>
     mem_slice (ref_mem (bs_arena st)) (buf_offset (bs_buf st)) (length data) = data"
  by (simp add: holds_def Let_def)

lemma granted_bound:
  assumes "arena_ok E s (insert k L)" "granted buf \<subseteq> ref_region s k" "ref_size s \<le> isize_max"
  shows "buf_capacity buf \<le> isize_max"
proof -
  have "{buf_offset buf ..< buf_offset buf + buf_capacity buf} \<subseteq> {..<ref_size s}"
    using assms(2) arena_ok_bound [OF assms(1), of k] by auto
  then have "card {buf_offset buf ..< buf_offset buf + buf_capacity buf} \<le> card {..<ref_size s}"
    by (rule card_mono [rotated]) simp
  with assms(3) show ?thesis by simp
qed

lemma holds_capacity:
  assumes "holds E H L st data" "buf_spilled (bs_buf st) = None"
  shows "buf_capacity (bs_buf st) < 2 ^ 63"
proof -
  have "buf_capacity (bs_buf st) \<le> isize_max"
    using assms(1) granted_bound unfolding holds_arena [OF assms(2)] by blast
  then show ?thesis by (simp add: isize_max_def)
qed

lemma remaining_mut_eq:
  assumes "bytes_mut_ok H" "holds E H L st data"
  shows "remaining_mut H p (bs_buf st) =
    Ret (if buf_spilled (bs_buf st) = None \<and> buf_auto_spill (bs_buf st) then usize_max
         else room (bs_buf st) - length data)"
proof (cases "buf_spilled (bs_buf st)")
  case None
  have "buf_capacity (bs_buf st) < 2 ^ 64" using holds_capacity [OF assms(2) None] by simp
  with None assms(2) show ?thesis
    unfolding holds_arena [OF None] by (simp add: remaining_mut_def room_def usize_sub_Ret)
next
  case (Some h)
  with assms show ?thesis
    unfolding holds_heap [OF Some] by (simp add: remaining_mut_def room_def bytes_mut_ok_def)
qed

lemma mem_slice_store:
  assumes "length xs = n"
  shows "mem_slice (mem_store m (off + k) n xs) off (k + n) = mem_slice m off k @ xs"
  using assms by (intro nth_equalityI) (auto simp: mem_slice_def mem_store_def nth_append)

text \<open>Spilling copies the data to the heap and releases the allocation.\<close>

lemma do_spill_ok:
  assumes "bytes_mut_ok H" "holds E H L st data" "buf_spilled (bs_buf st) = None"
  obtains st' h where "do_spill E H p st = Ret st'" "holds E H L st' data" "kept L (bs_arena st) (bs_arena st')"
    "bs_buf st' = (bs_buf st)\<lparr>buf_released := True, buf_spilled := Some h\<rparr>" "hm_contents H h = data"
proof -
  let ?s = "bs_arena st" and ?buf = "bs_buf st"
  let ?k = "buf_allocation ?buf"
  note h = assms(2) [unfolded holds_arena [OF assms(3)]]
  have "buf_len ?buf \<le> buf_capacity ?buf" using h by metis
  then have "buf_len ?buf * 2 < 2 ^ 64" using holds_capacity [OF assms(2,3)] by simp
  then have cap: "usize_mul p (buf_len ?buf) 2 = Ret (buf_len ?buf * 2)" by (rule usize_mul_Ret)
  have ok: "arena_ok E (ref_record_spill ?s) (insert ?k L)" using h by (simp add: counters_ok del: arena_ok.simps)
  obtain w s' where s': "release E p (ref_record_spill ?s) ?k = Ret (w, s')"
    "arena_ok E s' (insert ?k L - {?k})" "same_ref (ref_record_spill ?s) s'"
    "\<forall>x. x \<notin> ref_region (ref_record_spill ?s) ?k \<longrightarrow> ref_mem s' x = ref_mem (ref_record_spill ?s) x"
    using release_Ret [OF ok, of ?k p] by blast
  have same: "same_ref ?s s'" using counters_ok(6) s'(3) same_ref_laws(2) by blast
  have kept: "kept L ?s s'"
    using h s'(4) same by (intro kept_change) (auto simp: counters_ok same_ref_laws(3) [OF counters_ok(6)] simp del: arena_ok.simps)
  let ?h = "hm_extend_from_slice H (hm_with_capacity H (buf_len ?buf * 2))
    (mem_slice (ref_mem ?s) (buf_offset ?buf) (buf_len ?buf))"
  let ?st' = "st\<lparr>bs_arena := s', bs_wakes := bs_wakes st @ (case w of None \<Rightarrow> [] | Some w \<Rightarrow> [w]),
    bs_buf := ?buf\<lparr>buf_released := True, buf_spilled := Some ?h\<rparr>\<rparr>"
  have data: "hm_contents H ?h = data" using assms(1) h by (simp add: bytes_mut_ok_def)
  have "do_spill E H p st = Ret ?st'"
    using cap s'(1) by (simp add: do_spill_def release_buffer_def Let_def)
  moreover have "insert ?k L - {?k} = L" using h by auto
  ultimately show ?thesis
    using data s'(2) h same_ref_laws(4) [OF same] kept by (intro that [of ?st' ?h]) (auto simp: holds_def simp del: arena_ok.simps)
qed

text \<open>One round of the protocol: \<open>offers\<close> says what the caller may do with the chunk it was given.\<close>

definition offers ::
    "externals \<Rightarrow> 'h bytes_mut \<Rightarrow> profile \<Rightarrow> AllocationKind set \<Rightarrow> nat \<Rightarrow> ('d, 'h) bstate \<Rightarrow> bytes \<Rightarrow> bool" where
  "offers E H p L c st data \<longleftrightarrow>
     (\<forall>xs. length xs \<le> c \<longrightarrow>
        (\<exists>st'. advance_mut H p (write_chunk H st xs) (length xs) = Ret st' \<and> holds E H L st' (data @ xs) \<and>
           kept L (bs_arena st) (bs_arena st') \<and> room (bs_buf st') = room (bs_buf st)))"

lemma offers_heap:
  assumes "bytes_mut_ok H" "holds E H L st data" "buf_spilled (bs_buf st) = Some h"
  shows "offers E H p L (fst (hm_chunk_mut H h)) (st\<lparr>bs_buf := (bs_buf st)\<lparr>buf_spilled := Some (snd (hm_chunk_mut H h))\<rparr>\<rparr>) data"
  unfolding offers_def
proof (intro allI impI)
  fix xs :: bytes
  let ?h = "snd (hm_chunk_mut H h)"
  let ?st = "st\<lparr>bs_buf := (bs_buf st)\<lparr>buf_spilled := Some ?h\<rparr>\<rparr>"
  assume "length xs \<le> fst (hm_chunk_mut H h)"
  then obtain h' where h': "hm_advance_mut H (hm_write_chunk H ?h xs) (length xs) = Ret h'"
    "hm_contents H h' = hm_contents H h @ xs" using assms(1) unfolding bytes_mut_ok_def by blast
  then show "\<exists>st'. advance_mut H p (write_chunk H ?st xs) (length xs) = Ret st' \<and> holds E H L st' (data @ xs) \<and>
      kept L (bs_arena ?st) (bs_arena st') \<and> room (bs_buf st') = room (bs_buf ?st)"
    using assms(2) unfolding holds_heap [OF assms(3)]
    by (auto simp: advance_mut_def write_chunk_def holds_def room_def simp del: arena_ok.simps)
qed

lemma offers_arena:
  assumes "holds E H L st data" "buf_spilled (bs_buf st) = None"
  shows "offers E H p L (buf_capacity (bs_buf st) - buf_len (bs_buf st)) st data"
  unfolding offers_def
proof (intro allI impI)
  fix xs :: bytes
  let ?s = "bs_arena st" and ?buf = "bs_buf st"
  let ?k = "buf_allocation ?buf"
  note h = assms(1) [unfolded holds_arena [OF assms(2)]]
  assume le: "length xs \<le> buf_capacity ?buf - buf_len ?buf"
  let ?m = "mem_store (ref_mem ?s) (buf_offset ?buf + buf_len ?buf) (length xs) xs"
  let ?n = "buf_len ?buf + length xs"
  let ?st' = "st\<lparr>bs_arena := set_ref_mem ?m ?s, bs_buf := ?buf\<lparr>buf_len := ?n\<rparr>\<rparr>"
  have "buf_len ?buf \<le> buf_capacity ?buf" using h by metis
  then have n: "?n \<le> buf_capacity ?buf" using le by linarith
  then have "?n < 2 ^ 64" using holds_capacity [OF assms] by simp
  with n have adv: "advance_mut H p (write_chunk H st xs) (length xs) = Ret ?st'"
    using assms(2) by (simp add: advance_mut_def write_chunk_def usize_add_Ret Let_def)
  have frame: "\<forall>x. x \<notin> ref_region ?s ?k \<longrightarrow> ?m x = ref_mem ?s x"
  proof (intro allI impI)
    fix x
    assume "x \<notin> ref_region ?s ?k"
    then have "x \<notin> granted ?buf" using h by blast
    with n show "?m x = ref_mem ?s x" by (auto simp: mem_store_def)
  qed
  have "arena_ok E (set_ref_mem ?m ?s) (insert ?k L)"
    using h frame by (intro arena_ok_write) (auto simp del: arena_ok.simps)
  moreover have "mem_slice ?m (buf_offset ?buf) (length data + length xs) = data @ xs"
    using mem_slice_store [of xs "length xs" "ref_mem ?s" "buf_offset ?buf" "buf_len ?buf"] h by simp
  ultimately have "holds E H L ?st' (data @ xs)"
    using h n assms(2) same_ref_laws(3,4) [OF set_ref_mem_laws(2) [of ?s ?m]]
    by (simp add: holds_arena del: arena_ok.simps)
  moreover have "kept L ?s (set_ref_mem ?m ?s)" using h frame by (intro kept_change) auto
  moreover have "room (bs_buf ?st') = room ?buf" by (simp add: room_def)
  ultimately show "\<exists>st'. advance_mut H p (write_chunk H st xs) (length xs) = Ret st' \<and> holds E H L st' (data @ xs) \<and>
      kept L (bs_arena st) (bs_arena st') \<and> room (bs_buf st') = room (bs_buf st)"
    using adv by (intro exI [of _ ?st']) (simp del: arena_ok.simps)
qed

lemma chunk_mut_heap:
  assumes "bytes_mut_ok H" "holds E H L st data" "buf_spilled (bs_buf st) = Some h"
  shows "\<exists>c st1. chunk_mut E H p st = Ret (c, st1) \<and> holds E H L st1 data \<and> bs_arena st1 = bs_arena st \<and>
    room (bs_buf st1) = room (bs_buf st) \<and> offers E H p L c st1 data \<and> (length data < usize_max \<longrightarrow> 0 < c)"
proof -
  let ?st = "st\<lparr>bs_buf := (bs_buf st)\<lparr>buf_spilled := Some (snd (hm_chunk_mut H h))\<rparr>\<rparr>"
  have "chunk_mut E H p st = Ret (fst (hm_chunk_mut H h), ?st)"
    using assms(3) by (simp add: chunk_mut_def case_prod_beta)
  moreover have "holds E H L ?st data"
    using assms unfolding holds_heap [OF assms(3)] by (simp add: holds_def bytes_mut_ok_def del: arena_ok.simps)
  moreover have "length data < usize_max \<longrightarrow> 0 < fst (hm_chunk_mut H h)"
    using assms unfolding holds_heap [OF assms(3)] by (auto simp: bytes_mut_ok_def)
  moreover have "room (bs_buf ?st) = room (bs_buf st)" using assms(3) by (simp add: room_def)
  ultimately show ?thesis using offers_heap [OF assms, of p] by (intro exI conjI) simp_all
qed

lemma chunk_mut_ok:
  assumes "bytes_mut_ok H" "holds E H L st data"
  obtains c st1 where "chunk_mut E H p st = Ret (c, st1)" "holds E H L st1 data"
    "kept L (bs_arena st) (bs_arena st1)" "room (bs_buf st1) = room (bs_buf st)" "offers E H p L c st1 data"
    "length data < room (bs_buf st) \<Longrightarrow> length data < usize_max \<Longrightarrow> 0 < c"
proof (cases "buf_spilled (bs_buf st)")
  case (Some h)
  from chunk_mut_heap [OF assms Some, of p] show ?thesis using that by (metis kept_refl)
next
  case None
  note h = assms(2) [unfolded holds_arena [OF None]]
  show ?thesis
  proof (cases "buf_auto_spill (bs_buf st) \<and> buf_capacity (bs_buf st) \<le> buf_len (bs_buf st)")
    case False
    have cap: "buf_capacity (bs_buf st) < 2 ^ 64" using holds_capacity [OF assms(2) None] by simp
    have len: "buf_len (bs_buf st) = length data" "length data \<le> buf_capacity (bs_buf st)" using h by blast+
    have "chunk_mut E H p st = Ret (buf_capacity (bs_buf st) - buf_len (bs_buf st), st)"
      using None False len cap by (auto simp: chunk_mut_def usize_sub_Ret)
    moreover have "0 < buf_capacity (bs_buf st) - buf_len (bs_buf st)" if "length data < room (bs_buf st)"
      using that False None len by (auto simp: room_def split: if_splits)
    ultimately show ?thesis using that assms(2) offers_arena [OF assms(2) None] by auto
  next
    case True
    obtain st' h where st': "do_spill E H p st = Ret st'" "holds E H L st' data" "kept L (bs_arena st) (bs_arena st')"
      "bs_buf st' = (bs_buf st)\<lparr>buf_released := True, buf_spilled := Some h\<rparr>"
      using do_spill_ok [OF assms None] by metis
    have sp: "buf_spilled (bs_buf st') = Some h" using st'(4) by simp
    have "chunk_mut E H p st = chunk_mut E H p st'"
      using st'(1) sp None True by (simp add: chunk_mut_def)
    moreover have "room (bs_buf st') = room (bs_buf st)" using True st'(4) by (simp add: room_def)
    ultimately show ?thesis using chunk_mut_heap [OF assms(1) st'(2) sp, of p] st'(3) that by metis
  qed
qed

text \<open>Any use of the protocol appends exactly the bytes written and disturbs no other allocation.\<close>

lemma transfer_appends:
  assumes "transfer E H p st xs st'" "bytes_mut_ok H" "holds E H L st data"
  shows "holds E H L st' (data @ xs) \<and> kept L (bs_arena st) (bs_arena st') \<and> room (bs_buf st') = room (bs_buf st)"
  using assms(1,3)
proof (induction arbitrary: data rule: transfer.induct)
  case (stop st)
  then show ?case by simp
next
  case (round st c st1 xs st2 ys st')
  obtain c' st1' where c: "chunk_mut E H p st = Ret (c', st1')" "kept L (bs_arena st) (bs_arena st1')"
    "room (bs_buf st1') = room (bs_buf st)" "offers E H p L c' st1' data"
    by (rule chunk_mut_ok [OF assms(2) round.prems, of p]) blast
  with round.hyps(1) have eq: "c' = c" "st1' = st1" by simp_all
  then have st2: "holds E H L st2 (data @ xs)" "kept L (bs_arena st1) (bs_arena st2)" "room (bs_buf st2) = room (bs_buf st1)"
    using c(4) round.hyps(3,4) unfolding offers_def by auto
  moreover have "kept L (bs_arena st) (bs_arena st2)" using kept_trans c(2) eq st2(2) by blast
  ultimately show ?case using round.IH [OF st2(1)] c(3) eq kept_trans by (metis append_assoc)
qed

lemma not_stuck:
  assumes "bytes_mut_ok H" "holds E H L st data" "length data < room (bs_buf st)" "length data < usize_max"
  shows "\<not> stuck E H p st"
proof -
  obtain c st1 where c: "chunk_mut E H p st = Ret (c, st1)" "offers E H p L c st1 data" "0 < c"
    using chunk_mut_ok [OF assms(1,2), of p] assms(3,4) by metis
  then show ?thesis by (fastforce simp: stuck_def offers_def)
qed

lemma put_slice_appends:
  assumes "bytes_mut_ok H" "put_slice_ok E H p put" "holds E H L st data"
    "length data + length src \<le> room (bs_buf st)" "length data + length src \<le> usize_max"
  shows "\<exists>st'. put st src = Ret st' \<and> holds E H L st' (data @ src) \<and> kept L (bs_arena st) (bs_arena st') \<and>
    room (bs_buf st') = room (bs_buf st)"
proof -
  have room: "\<exists>r. remaining_mut H p (bs_buf st) = Ret r \<and> length src \<le> r"
    using remaining_mut_eq [OF assms(1,3), of p] assms(4,5) by auto
  have "\<not> stuck E H p st1" if "src = xs @ ys" "ys \<noteq> []" "transfer E H p st xs st1" for xs ys st1
  proof -
    have "0 < length ys" using that(2) by simp
    then have "length (data @ xs) < length data + length src" using that(1) by simp
    then show ?thesis
      using transfer_appends [OF that(3) assms(1,3)] assms(4,5)
      by (intro not_stuck [OF assms(1), where data = "data @ xs" and L = L]) auto
  qed
  with room have possible: "\<not> ((\<forall>r. remaining_mut H p (bs_buf st) = Ret r \<longrightarrow> r < length src) \<or>
      (\<exists>xs ys st1. src = xs @ ys \<and> ys \<noteq> [] \<and> transfer E H p st xs st1 \<and> stuck E H p st1))"
    using not_le by blast
  have "case put st src of
        Ret st' \<Rightarrow> transfer E H p st src st'
      | _ \<Rightarrow> (\<forall>r. remaining_mut H p (bs_buf st) = Ret r \<longrightarrow> r < length src) \<or>
          (\<exists>xs ys st1. src = xs @ ys \<and> ys \<noteq> [] \<and> transfer E H p st xs st1 \<and> stuck E H p st1)"
    using assms(2) unfolding put_slice_ok_def by blast
  with possible have "\<exists>st'. put st src = Ret st' \<and> transfer E H p st src st'"
    by (cases "put st src") (simp_all only: outcome.case outcome.inject, blast+)
  then obtain st' where st': "put st src = Ret st'" "transfer E H p st src st'" by blast
  with transfer_appends [OF st'(2) assms(1,3)] show ?thesis by blast
qed

subsection \<open>Releasing and freezing\<close>

lemma drop_buffer_ok:
  assumes "holds E H L st data"
  obtains st' where "drop_buffer E p st = Ret st'" "arena_ok E (bs_arena st') L" "kept L (bs_arena st) (bs_arena st')"
proof (cases "buf_spilled (bs_buf st)")
  case (Some h)
  then show ?thesis using assms that [of st] unfolding holds_heap [OF Some] by (simp add: drop_buffer_def)
next
  case None
  let ?k = "buf_allocation (bs_buf st)"
  note h = assms [unfolded holds_arena [OF None]]
  obtain w s' where s': "release E p (bs_arena st) ?k = Ret (w, s')" "arena_ok E s' (insert ?k L - {?k})"
    "same_ref (bs_arena st) s'" "\<forall>x. x \<notin> ref_region (bs_arena st) ?k \<longrightarrow> ref_mem s' x = ref_mem (bs_arena st) x"
    using release_Ret [of E "bs_arena st" "insert ?k L" ?k p] h by blast
  have "insert ?k L - {?k} = L" using h by blast
  moreover have "kept L (bs_arena st) s'" using h s'(3,4) by (intro kept_change) blast+
  ultimately show ?thesis
    using s'(1,2) h that by (simp add: drop_buffer_def release_buffer_def del: arena_ok.simps)
qed

text \<open>The allocations a frozen value keeps in use.\<close>

fun pinned :: "Bytes \<Rightarrow> AllocationKind set" where
  "pinned (HeapBytes xs) = {}"
| "pinned (ArenaBytes h) = {bh_allocation h}"

lemma freeze_ok:
  assumes "bytes_mut_ok H" "holds E H L st data"
  obtains b st' where "freeze E H p st = Ret (b, st')" "arena_ok E (bs_arena st') (pinned b \<union> L)" "pinned b \<inter> L = {}"
    "bytes_as_ref (bs_arena st') b = data" "kept L (bs_arena st) (bs_arena st')"
    "\<And>s. kept (pinned b) (bs_arena st') s \<Longrightarrow> bytes_as_ref s b = data"
proof (cases "buf_spilled (bs_buf st)")
  case (Some h)
  have f: "freeze E H p st = Ret (HeapBytes data, st\<lparr>bs_buf := (bs_buf st)\<lparr>buf_spilled := None\<rparr>\<rparr>)"
    using assms Some unfolding holds_heap [OF Some] by (simp add: freeze_def drop_buffer_def bytes_mut_ok_def)
  show ?thesis
    by (rule that [OF f]) (use assms(2) [unfolded holds_heap [OF Some]] in \<open>simp_all del: arena_ok.simps\<close>)
next
  case None
  let ?buf = "bs_buf st" and ?s = "ref_record_frozen (bs_arena st)"
  let ?h = "new_handle (buf_allocation ?buf) (buf_ptr ?buf) (buf_offset ?buf) (buf_len ?buf)"
  note h = assms(2) [unfolded holds_arena [OF None]]
  have len: "buf_len ?buf = length data" "mem_slice (ref_mem (bs_arena st)) (buf_offset ?buf) (length data) = data"
    using h by blast+
  have f: "freeze E H p st = Ret (ArenaBytes ?h, st\<lparr>bs_arena := ?s\<rparr>)" using None by (simp add: freeze_def Let_def)
  have sub: "{buf_offset ?buf ..< buf_offset ?buf + length data} \<subseteq> ref_region (bs_arena st) (buf_allocation ?buf)"
  proof -
    have "length data \<le> buf_capacity ?buf" "granted ?buf \<subseteq> ref_region (bs_arena st) (buf_allocation ?buf)"
      using h by blast+
    then show ?thesis by force
  qed
  have data: "bytes_as_ref s (ArenaBytes ?h) = data" if "kept (pinned (ArenaBytes ?h)) ?s s" for s
  proof -
    have "ref_mem s x = ref_mem (bs_arena st) x" if "x \<in> {buf_offset ?buf ..< buf_offset ?buf + length data}" for x
      using sub \<open>kept (pinned (ArenaBytes ?h)) ?s s\<close> that
      by (auto simp: kept_def new_handle_def counters_ok same_ref_laws(3) [OF counters_ok(5)])
    then have "mem_slice (ref_mem s) (buf_offset ?buf) (length data) = data"
      using len(2) mem_slice_cong [of "buf_offset ?buf" "length data" "ref_mem s" "ref_mem (bs_arena st)"] by auto
    then show ?thesis using len(1) by (simp add: handle_as_ref_def new_handle_def)
  qed
  have ok: "arena_ok E ?s (pinned (ArenaBytes ?h) \<union> L)" "pinned (ArenaBytes ?h) \<inter> L = {}"
    using h by (simp_all add: counters_ok new_handle_def del: arena_ok.simps)
  have "kept L (bs_arena st) ?s" by (simp add: kept_def counters_ok)
  then show ?thesis using ok f data data [OF kept_refl] by (intro that [OF f]) (simp_all del: arena_ok.simps pinned.simps bytes_as_ref.simps)
qed

lemma drop_bytes_ok:
  assumes "arena_ok E s (pinned b \<union> L)" "pinned b \<inter> L = {}"
  obtains w s' where "drop_bytes E p s b = Ret (w, s')" "arena_ok E s' L" "kept L s s'"
proof (cases b)
  case (HeapBytes xs)
  then show ?thesis using assms that by (simp del: arena_ok.simps)
next
  case (ArenaBytes h)
  let ?k = "bh_allocation h"
  have ok: "arena_ok E s (insert ?k L)" "?k \<notin> L" using assms ArenaBytes by simp_all
  obtain w s' where s': "release E p s ?k = Ret (w, s')" "arena_ok E s' (insert ?k L - {?k})" "same_ref s s'"
    "\<forall>x. x \<notin> ref_region s ?k \<longrightarrow> ref_mem s' x = ref_mem s x" using release_Ret [OF ok(1), of ?k p] by blast
  have "insert ?k L - {?k} = L" using ok(2) by blast
  moreover have "kept L s s'" using ok s'(3,4) by (rule kept_change)
  ultimately show ?thesis using s'(1,2) ArenaBytes that by (simp add: drop_handle_def del: arena_ok.simps)
qed

lemma allocate_holds:
  fixes s :: "'d ArenaRef" and buf :: "'h Buffer"
  assumes "arena_ok E s L" "request_ok len" "ref_size s \<le> isize_max"
    "(ref_allocate E p s len :: ('h, 'd) alloc_result) = Ret (Inr buf, s')"
  shows "holds E H L (start_buffer s' buf) [] \<and> kept L s s'"
proof -
  have a: "same_ref s s'" "buf_allocation buf \<notin> L" "arena_ok E s' (insert (buf_allocation buf) L)"
    "buf_len buf = 0" "\<not> buf_released buf" "buf_spilled buf = None"
    "granted buf \<subseteq> ref_region s (buf_allocation buf)"
    "\<forall>x. x \<notin> ref_region s (buf_allocation buf) \<longrightarrow> ref_mem s' x = ref_mem s x"
    using ref_allocate_Ret [OF assms(1,2), of p, where ?'h = 'h] assms(4) by auto
  have "kept L s s'"
    unfolding kept_def
  proof (intro conjI ballI)
    fix l x
    assume l: "l \<in> L" "x \<in> ref_region s l"
    then have "ref_region s' (buf_allocation buf) \<inter> ref_region s' l = {}"
      using a(2) by (intro arena_ok_disjoint [OF a(3)]) auto
    then show "ref_mem s' x = ref_mem s x" using l a(8) same_ref_laws(3) [OF a(1)] by blast
  qed (rule a(1))
  moreover have "holds E H L (start_buffer s' buf) []"
    using a assms(3) same_ref_laws(3,4) [OF a(1)]
    by (simp add: holds_arena start_buffer_def mem_slice_def del: arena_ok.simps)
  ultimately show ?thesis by blast
qed

subsection \<open>Instances of the two parameters\<close>

text \<open>A heap buffer as the bytes in it and the bytes written to its spare chunk.\<close>

definition vec_bytes_mut :: "(bytes \<times> bytes) bytes_mut" where
  "vec_bytes_mut =
    \<lparr>hm_with_capacity = (\<lambda>n. ([], [])), hm_from = (\<lambda>xs. (xs, [])),
     hm_extend_from_slice = (\<lambda>h xs. (fst h @ xs, [])), hm_contents = fst, hm_len = (\<lambda>h. length (fst h)),
     hm_is_empty = (\<lambda>h. fst h = []), hm_remaining_mut = (\<lambda>h. usize_max - length (fst h)),
     hm_chunk_mut = (\<lambda>h. (64, (fst h, []))), hm_write_chunk = (\<lambda>h xs. (fst h, xs)),
     hm_advance_mut = (\<lambda>h n. if n \<le> length (snd h) then Ret (fst h @ take n (snd h), [])
                                else Panic ''advance past the end''),
     hm_freeze = fst\<rparr>"

lemma vec_bytes_mut_ok: "bytes_mut_ok vec_bytes_mut"
  by (simp add: bytes_mut_ok_def vec_bytes_mut_def)

text \<open>A loop that fills each chunk as far as it can.\<close>

fun copy_loop ::
    "externals \<Rightarrow> 'h bytes_mut \<Rightarrow> profile \<Rightarrow> nat \<Rightarrow> ('d, 'h) bstate \<Rightarrow> bytes \<Rightarrow> ('d, 'h) bstate outcome" where
  "copy_loop E H p 0 st src = (if src = [] then Ret st else Diverge)"
| "copy_loop E H p (Suc n) st src =
     (if src = [] then Ret st
      else obind (chunk_mut E H p st) (\<lambda>(c, st1).
        let k = min (length src) c in
        if k = 0 then Diverge
        else obind (advance_mut H p (write_chunk H st1 (take k src)) k) (\<lambda>st2.
          copy_loop E H p n st2 (drop k src))))"

definition copy_put_slice ::
    "externals \<Rightarrow> 'h bytes_mut \<Rightarrow> profile \<Rightarrow> ('d, 'h) bstate \<Rightarrow> bytes \<Rightarrow> ('d, 'h) bstate outcome" where
  "copy_put_slice E H p st src =
     obind (remaining_mut H p (bs_buf st)) (\<lambda>r.
       if r < length src then Panic ''not enough room'' else copy_loop E H p (length src) st src)"

lemma copy_loop_ok:
  "length src \<le> n \<Longrightarrow>
    (case copy_loop E H p n st src of
       Ret st' \<Rightarrow> transfer E H p st src st'
     | _ \<Rightarrow> \<exists>xs ys st1. src = xs @ ys \<and> ys \<noteq> [] \<and> transfer E H p st xs st1 \<and> stuck E H p st1)"
proof (induction n arbitrary: st src)
  case 0
  then show ?case by (simp add: transfer.stop)
next
  case (Suc n)
  have now: "\<exists>xs ys st1. src = xs @ ys \<and> ys \<noteq> [] \<and> transfer E H p st xs st1 \<and> stuck E H p st1"
    if "src \<noteq> []" "stuck E H p st"
    using that transfer.stop [of E H p st] by (intro exI [of _ "[]"] exI [of _ src] exI [of _ st]) simp
  show ?case
  proof (cases "src = []")
    case True
    then show ?thesis by (simp add: transfer.stop)
  next
    case False
    show ?thesis
    proof (cases "\<exists>c st1 st2. chunk_mut E H p st = Ret (c, st1) \<and> 0 < c \<and>
        advance_mut H p (write_chunk H st1 (take (min (length src) c) src)) (min (length src) c) = Ret st2")
      case bad: False
      have mz: "min (length src) c = 0 \<longleftrightarrow> c = 0" for c using False by (cases c; cases src) simp_all
      have "stuck E H p st"
      proof (cases "chunk_mut E H p st")
        case (Ret x)
        obtain c st1 where x: "x = (c, st1)" by (cases x)
        let ?xs = "take (min (length src) c) src"
        have "length ?xs \<le> c" "length ?xs = min (length src) c" by simp_all
        moreover have "c = 0 \<or> ?xs \<noteq> []" using False mz [of c] by auto
        ultimately show ?thesis
          using bad Ret x unfolding stuck_def by (simp only: outcome.case prod.case) (metis gr0I)
      qed (simp_all add: stuck_def)
      with now [OF False] have "\<exists>xs ys st1. src = xs @ ys \<and> ys \<noteq> [] \<and> transfer E H p st xs st1 \<and> stuck E H p st1" .
      moreover have "\<nexists>st'. copy_loop E H p (Suc n) st src = Ret st'"
        using bad False by (auto simp: mz obind_eq_Ret Let_def split: if_splits)
      ultimately show ?thesis by (cases "copy_loop E H p (Suc n) st src") auto
    next
      case True
      then obtain c st1 st2 where c: "chunk_mut E H p st = Ret (c, st1)" "0 < c"
        "advance_mut H p (write_chunk H st1 (take (min (length src) c) src)) (min (length src) c) = Ret st2" by blast
      let ?k = "min (length src) c"
      let ?xs = "take ?k src" and ?ys = "drop ?k src"
      have k: "0 < ?k" "?xs \<noteq> []" "length ?xs = ?k" "length ?ys \<le> n" using False c(2) Suc.prems by auto
      have eq: "copy_loop E H p (Suc n) st src = copy_loop E H p n st2 ?ys"
        using False c(1,3) by (simp add: Let_def) (use k(1) in \<open>metis less_irrefl\<close>)
      have step: "transfer E H p st (?xs @ zs) st'" if "transfer E H p st2 zs st'" for zs st'
        using transfer.round [OF c(1) k(2) _ _ that] k(3) c(3) by simp
      have later: "\<exists>xs ys st1. src = xs @ ys \<and> ys \<noteq> [] \<and> transfer E H p st xs st1 \<and> stuck E H p st1"
        if "\<exists>xs ys st1. ?ys = xs @ ys \<and> ys \<noteq> [] \<and> transfer E H p st2 xs st1 \<and> stuck E H p st1"
        using that step by (metis append.assoc append_take_drop_id)
      show ?thesis
        unfolding eq using Suc.IH [OF k(4), of st2] step [of ?ys] later
        by (cases "copy_loop E H p n st2 ?ys") (simp_all only: outcome.case append_take_drop_id)
    qed
  qed
qed

lemma copy_put_slice_ok: "put_slice_ok E H p (copy_put_slice E H p)"
  unfolding put_slice_ok_def
proof (intro allI)
  fix st src
  show "case copy_put_slice E H p st src of Ret st' \<Rightarrow> transfer E H p st src st'
      | _ \<Rightarrow> (\<forall>r. remaining_mut H p (bs_buf st) = Ret r \<longrightarrow> r < length src) \<or>
          (\<exists>xs ys st1. src = xs @ ys \<and> ys \<noteq> [] \<and> transfer E H p st xs st1 \<and> stuck E H p st1)"
    using copy_loop_ok [OF order_refl, of E H p st src]
    by (cases "remaining_mut H p (bs_buf st)") (auto simp: copy_put_slice_def split: outcome.splits)
qed

subsection \<open>Properties\<close>

text \<open>The sample arena with one slot in use, and a fresh buffer in it.\<close>

abbreviation spill_arena :: "bool \<Rightarrow> unit ArenaInner" where
  "spill_arena sp \<equiv> sample_fixed\<lparr>ai_auto_spill := sp\<rparr>"

lemma fixed_inv_auto_spill [simp]: "fixed_inv (a\<lparr>ai_auto_spill := x\<rparr>) S = fixed_inv a S"
proof -
  have "scrub_wf (a\<lparr>ai_auto_spill := x\<rparr>) = scrub_wf a" by (simp add: scrub_wf_def split: option.splits)
  then show ?thesis by (simp add: fixed_inv_def)
qed

lemma spill_arena_ok: "arena_ok sample_externals (Fixed (spill_arena sp)) {FixedSlot 0}"
proof -
  have "fixed_inv (spill_arena sp) {0}" using sample_fixed_ok(1) by simp
  moreover have "fixed_scrubbed (spill_arena sp) {0}"
    using sample_fixed_ok(2) by (simp add: fixed_scrubbed_def slot_region_def)
  ultimately show ?thesis using sample_externals_ok unfolding arena_ok.simps by (intro conjI exI [of _ "{0}"]) simp_all
qed

lemma vec_sample_holds:
  obtains s :: "unit ArenaRef" and buf :: "(bytes \<times> bytes) Buffer" where
    "(ref_allocate sample_externals Debug (Fixed (spill_arena sp)) 8 :: (bytes \<times> bytes, unit) alloc_result) =
       Ret (Inr buf, s)"
    "holds sample_externals vec_bytes_mut {FixedSlot 0} (start_buffer s buf) []"
    "buf_capacity buf = 8" "buf_auto_spill buf = sp" "buf_spilled buf = None"
proof -
  let ?F = "spill_arena sp"
  have sf: "ai_slot_count ?F = 3" "ai_slot_capacity ?F = 8" "ai_auto_spill ?F = sp" "ai_total_size ?F = 24"
    by (simp_all add: sample_fixed_def)
  have inv: "fixed_inv ?F {0}" using sample_fixed_ok(1) by simp
  have "1 \<in> {..<ai_slot_count ?F}" unfolding sf(1) by simp
  then have ne: "{0} \<noteq> {..<ai_slot_count ?F}" by (metis singletonD zero_neq_one)
  from inv show ?thesis
  proof (cases rule: allocate_fixed_cases [where E = sample_externals and p = Debug and ?'h = "bytes \<times> bytes"])
    case (full a')
    then show ?thesis using ne by blast
  next
    case (claimed i a')
    let ?buf = "new_fixed (ai_ptr ?F) (ai_auto_spill ?F) i (i * ai_slot_capacity ?F) (ai_slot_capacity ?F) :: (bytes \<times> bytes) Buffer"
    have r: "(ref_allocate sample_externals Debug (Fixed ?F) 8 :: (bytes \<times> bytes, unit) alloc_result) =
        Ret (Inr ?buf, Fixed a')" using claimed(3) by simp
    have "request_ok 8" "ref_size (Fixed ?F) \<le> isize_max"
      by (simp_all add: request_ok_def isize_max_def sample_fixed_def)
    then have h: "holds sample_externals vec_bytes_mut {FixedSlot 0} (start_buffer (Fixed a') ?buf) []"
      using allocate_holds [OF spill_arena_ok _ _ r] by blast
    show ?thesis by (rule that [OF r h]) (simp_all add: sample_fixed_def)
  qed
qed









end
