(* ===== verification/Raw_Region.thy ===== *)
theory Raw_Region
  imports Buffer
begin

text \<open>
  Raw access to arena memory: \<^verbatim>\<open>src/src/hazmat/raw_region.rs\<close> and the builder steps that lead to it.
  \<^verbatim>\<open>raw_alloc\<close> repeats the allocation code of the two arenas for a different result type; it is
  translated from its own text and shown to agree with them.
\<close>

datatype 'd RawFixedArena = RawFixedArena "'d ArenaInner"
datatype 'd RawBuddyArena = RawBuddyArena "'d BuddyArenaInner"

fun deref_fixed :: "'d RawFixedArena \<Rightarrow> 'd ArenaInner" where
  "deref_fixed (RawFixedArena a) = a"

fun deref_buddy :: "'d RawBuddyArena \<Rightarrow> 'd BuddyArenaInner" where
  "deref_buddy (RawBuddyArena a) = a"

subsection \<open>Regions\<close>

record RawRegion =
  rr_allocation :: AllocationKind
  rr_ptr :: nat
  rr_offset :: nat
  rr_capacity :: nat

definition new_region :: "AllocationKind \<Rightarrow> nat \<Rightarrow> nat \<Rightarrow> nat \<Rightarrow> RawRegion" where
  "new_region allocation ptr offset cap =
     \<lparr>rr_allocation = allocation, rr_ptr = ptr, rr_offset = offset, rr_capacity = cap\<rparr>"

definition region_capacity :: "RawRegion \<Rightarrow> nat" where
  "region_capacity r = rr_capacity r"

definition as_ptr :: "RawRegion \<Rightarrow> nat" where
  "as_ptr r = rr_ptr r + rr_offset r"

definition as_mut_ptr :: "RawRegion \<Rightarrow> nat" where
  "as_mut_ptr r = rr_ptr r + rr_offset r"

definition as_uninit_slice :: "'d ArenaRef \<Rightarrow> RawRegion \<Rightarrow> bytes" where
  "as_uninit_slice s r = mem_slice (ref_mem s) (rr_offset r) (rr_capacity r)"

text \<open>The slice of \<^verbatim>\<open>as_uninit_slice_mut\<close>, as the store of its contents.\<close>

definition as_uninit_slice_mut :: "'d ArenaRef \<Rightarrow> RawRegion \<Rightarrow> bytes \<Rightarrow> 'd ArenaRef" where
  "as_uninit_slice_mut s r xs = set_ref_mem (mem_store (ref_mem s) (rr_offset r) (rr_capacity r) xs) s"

definition drop_region ::
    "externals \<Rightarrow> profile \<Rightarrow> 'd ArenaRef \<Rightarrow> RawRegion \<Rightarrow> (Wake option \<times> 'd ArenaRef) outcome" where
  "drop_region E p s r = release E p s (rr_allocation r)"

record RawFreezeError =
  fe_range_start :: nat
  fe_range_end :: nat
  fe_capacity :: nat

definition freeze_error_range :: "RawFreezeError \<Rightarrow> nat \<times> nat" where
  "freeze_error_range e = (fe_range_start e, fe_range_end e)"

definition freeze_error_capacity :: "RawFreezeError \<Rightarrow> nat" where
  "freeze_error_capacity e = fe_capacity e"

definition display_RawFreezeError :: "RawFreezeError \<Rightarrow> string" where
  "display_RawFreezeError e =
     (if fe_range_end e < fe_range_start e
      then ''invalid freeze range: '' @ show_nat (fe_range_start e) @ ''..'' @ show_nat (fe_range_end e) @
           '' (start > end)''
      else ''freeze range '' @ show_nat (fe_range_start e) @ ''..'' @ show_nat (fe_range_end e) @
           '' exceeds capacity '' @ show_nat (fe_capacity e))"

text \<open>A refused freeze returns early, which drops the region.\<close>

definition freeze_region ::
    "externals \<Rightarrow> profile \<Rightarrow> 'd ArenaRef \<Rightarrow> RawRegion \<Rightarrow> nat \<Rightarrow> nat \<Rightarrow>
     ((RawFreezeError + Bytes) \<times> Wake option \<times> 'd ArenaRef) outcome" where
  "freeze_region E p s r range_start range_end =
     (if range_end < range_start \<or> rr_capacity r < range_end
      then obind (drop_region E p s r) (\<lambda>(w, s').
        Ret (Inl \<lparr>fe_range_start = range_start, fe_range_end = range_end, fe_capacity = rr_capacity r\<rparr>, w, s'))
      else
        let s' = ref_record_frozen s in
        obind (usize_add p (rr_offset r) range_start) (\<lambda>offset.
        obind (usize_sub p range_end range_start) (\<lambda>len.
          Ret (Inr (ArenaBytes (new_handle (rr_allocation r) (rr_ptr r) offset len)), None, s'))))"

subsection \<open>Allocation\<close>

definition raw_alloc_fixed ::
    "externals \<Rightarrow> profile \<Rightarrow> 'd RawFixedArena \<Rightarrow> ((AllocError + RawRegion) \<times> 'd RawFixedArena) outcome" where
  "raw_alloc_fixed E p ra =
     (let inner = deref_fixed ra in
      obind (try_alloc (ai_bitmap inner)) (\<lambda>(claimed, bm).
        let inner = inner\<lparr>ai_bitmap := bm\<rparr> in
        case claimed of
          None \<Rightarrow>
            Ret (Inl ArenaFull, RawFixedArena (inner\<lparr>ai_metrics := record_alloc_failure (ai_metrics inner)\<rparr>))
        | Some slot_idx \<Rightarrow>
            (let offset = slot_idx * ai_slot_capacity inner in
             obind (case ai_init_policy inner of
                 Zero \<Rightarrow>
                   (case ai_zeroed_bitmap inner of
                      Some zeroed_bm \<Rightarrow>
                        obind (all_set_in_range p zeroed_bm slot_idx (slot_idx + 1)) (\<lambda>scrubbed.
                          if \<not> scrubbed
                          then Ret (inner\<lparr>ai_mem := zeroize_region E (ai_mem inner) offset (ai_slot_capacity inner)\<rparr>)
                          else Ret inner)
                    | None \<Rightarrow> Ret inner)
               | Uninit \<Rightarrow> Ret inner) (\<lambda>inner.
               Ret (Inr (new_region (FixedSlot slot_idx) (ai_ptr inner) offset (ai_slot_capacity inner)),
                    RawFixedArena
                      (inner\<lparr>ai_metrics := record_alloc_success (ai_slot_capacity inner) (ai_metrics inner)\<rparr>))))))"

definition raw_alloc_buddy ::
    "externals \<Rightarrow> profile \<Rightarrow> 'd RawBuddyArena \<Rightarrow> nat \<Rightarrow> ((AllocError + RawRegion) \<times> 'd RawBuddyArena) outcome" where
  "raw_alloc_buddy E p ra len =
     (let arena = deref_buddy ra in
      obind (order_for_request p arena len) (\<lambda>target.
        case target of
          None \<Rightarrow>
            Ret (Inl RequestTooLarge, RawBuddyArena (arena\<lparr>bi_metrics := record_alloc_failure (bi_metrics arena)\<rparr>))
        | Some target_order \<Rightarrow>
          obind (try_allocate_from_summary arena target_order) (\<lambda>(found, arena).
          obind (case found of
                   Some blk \<Rightarrow> Ret (Some blk, arena)
                 | None \<Rightarrow> try_allocate_from_full_scan arena target_order) (\<lambda>(found, arena).
            case found of
              None \<Rightarrow>
                Ret (Inl ArenaFull, RawBuddyArena (arena\<lparr>bi_metrics := record_alloc_failure (bi_metrics arena)\<rparr>))
            | Some (order, block_idx) \<Rightarrow>
              obind (split_down p arena order block_idx target_order) (\<lambda>((final_order, final_block_idx), arena).
              obind (block_size p arena final_order) (\<lambda>blk_size.
              obind (block_offset p arena final_order final_block_idx) (\<lambda>offset.
              obind (case bi_init_policy arena of
                  Zero \<Rightarrow>
                    (case bi_zeroed_bitmap arena of
                       Some zeroed_bm \<Rightarrow>
                         (let order0_start = final_block_idx * 2 ^ final_order;
                              order0_end = order0_start + 2 ^ final_order
                          in obind (all_set_in_range p zeroed_bm order0_start order0_end) (\<lambda>scrubbed.
                               if \<not> scrubbed
                               then Ret (arena\<lparr>bi_mem := zeroize_region E (bi_mem arena) offset blk_size\<rparr>)
                               else Ret arena))
                     | None \<Rightarrow> Ret arena)
                | Uninit \<Rightarrow> Ret arena) (\<lambda>arena.
                let user_capacity = (if bi_cap_capacity arena then min len blk_size else blk_size) in
                Ret (Inr (new_region (BuddyBlock final_order final_block_idx) (bi_ptr arena) offset user_capacity),
                     RawBuddyArena
                       (arena\<lparr>bi_metrics := record_alloc_success blk_size (bi_metrics arena)\<rparr>))))))))))"

subsection \<open>Builders\<close>

definition hazmat_raw_access_fixed :: "FixedArenaBuilder \<Rightarrow> FixedArenaBuilder" where
  "hazmat_raw_access_fixed b =
     \<lparr>fb_slot_count = fb_slot_count b, fb_slot_capacity = fb_slot_capacity b, fb_config = fb_config b\<rparr>"

definition build_raw_access_fixed ::
    "externals \<Rightarrow> profile \<Rightarrow> FixedArenaBuilder \<Rightarrow> (BuildError + 'd RawFixedArena) outcome" where
  "build_raw_access_fixed E p b = obind (build_fixed E p b) (\<lambda>r. Ret (map_sum id RawFixedArena r))"

definition build_raw_access_fixed_unfaulted ::
    "externals \<Rightarrow> profile \<Rightarrow> FixedArenaBuilder \<Rightarrow> (BuildError + 'd RawFixedArena Unfaulted) outcome" where
  "build_raw_access_fixed_unfaulted E p b =
     obind (resolve_page_size E p (cfg_page_size (fb_config b))) (\<lambda>page_size.
     obind (build_inner E b False) (\<lambda>r.
       case r of
         Inl e \<Rightarrow> Ret (Inl e)
       | Inr a \<Rightarrow> Ret (Inr \<lparr>uf_ptr = ai_ptr a, uf_total_size = ai_slot_count a * ai_slot_capacity a,
                          uf_page_size = page_size, uf_inner = RawFixedArena a\<rparr>)))"

definition hazmat_raw_access_buddy :: "BuddyArenaBuilder \<Rightarrow> BuddyArenaBuilder" where
  "hazmat_raw_access_buddy b = \<lparr>bb_geometry = bb_geometry b, bb_config = bb_config b\<rparr>"

definition build_raw_access_buddy ::
    "externals \<Rightarrow> profile \<Rightarrow> BuddyArenaBuilder \<Rightarrow> (BuildError + 'd RawBuddyArena) outcome" where
  "build_raw_access_buddy E p b = obind (build_buddy E p b) (\<lambda>r. Ret (map_sum id RawBuddyArena r))"

definition build_raw_access_buddy_unfaulted ::
    "externals \<Rightarrow> profile \<Rightarrow> BuddyArenaBuilder \<Rightarrow> (BuildError + 'd RawBuddyArena Unfaulted) outcome" where
  "build_raw_access_buddy_unfaulted E p b =
     obind (resolve_page_size E p (cfg_page_size (bb_config b))) (\<lambda>page_size.
     obind (build_raw E p b False) (\<lambda>r.
       case r of
         Inl e \<Rightarrow> Ret (Inl e)
       | Inr a \<Rightarrow> Ret (Inr \<lparr>uf_ptr = bi_ptr a, uf_total_size = bi_total_size a,
                          uf_page_size = page_size, uf_inner = RawBuddyArena a\<rparr>)))"

subsection \<open>Properties\<close>

text \<open>The region that corresponds to a fresh buffer.\<close>

definition region_of :: "'h Buffer \<Rightarrow> RawRegion" where
  "region_of buf = new_region (buf_allocation buf) (buf_ptr buf) (buf_offset buf) (buf_capacity buf)"

lemma obind_assoc: "obind (obind m f) g = obind m (\<lambda>x. obind (f x) g)"
  by (cases m) simp_all

lemma obind_fun_cong: "(\<And>x. f x = g x) \<Longrightarrow> obind m f = obind m g"
  by (cases m) simp_all

text \<open>C9. The duplicated allocation code of the raw-access wrappers agrees with the ordinary one in every state
  and profile, errors and panics included: same outcome, same arena afterwards, and a region over the
  same allocation as the buffer.\<close>

theorem raw_alloc_agrees:
  "raw_alloc_fixed E p (RawFixedArena a) =
     obind (allocate_fixed E p a :: ('h, 'd) fixed_result) (\<lambda>(r, a'). Ret (map_sum id region_of r, RawFixedArena a')) \<and>
   raw_alloc_buddy E p (RawBuddyArena b) len =
     obind (allocate_buddy E p b len :: ('h, 'd) buddy_result) (\<lambda>(r, b'). Ret (map_sum id region_of r, RawBuddyArena b'))"
proof
  show "raw_alloc_fixed E p (RawFixedArena a) =
     obind (allocate_fixed E p a :: ('h, 'd) fixed_result) (\<lambda>(r, a'). Ret (map_sum id region_of r, RawFixedArena a'))"
    unfolding raw_alloc_fixed_def allocate_fixed_def zero_slot_on_alloc_def
    by (auto simp: obind_assoc region_of_def Let_def split: option.split InitPolicy.split
        intro!: obind_fun_cong)
  show "raw_alloc_buddy E p (RawBuddyArena b) len =
     obind (allocate_buddy E p b len :: ('h, 'd) buddy_result) (\<lambda>(r, b'). Ret (map_sum id region_of r, RawBuddyArena b'))"
    unfolding raw_alloc_buddy_def allocate_buddy_def find_block_def zero_block_on_alloc_def
    by (auto simp: obind_assoc region_of_def Let_def split: option.split InitPolicy.split
        intro!: obind_fun_cong)
qed

text \<open>C10. Freezing a range of a region is refused exactly when the range is not within the visible capacity;
  the error names the range and the region's allocation is released. Otherwise the frozen bytes are the
  bytes of that range, they stay so while other owners touch only their own memory, and dropping them
  releases the allocation.\<close>

theorem freeze_region_correct:
  assumes "arena_ok E s (insert (rr_allocation r) L)" "rr_allocation r \<notin> L"
    "{rr_offset r ..< rr_offset r + rr_capacity r} \<subseteq> ref_region s (rr_allocation r)" "0 < rr_capacity r"
  shows "\<exists>res w s'. freeze_region E p s r i j = Ret (res, w, s') \<and> kept L s s' \<and>
    (case res of
       Inl e \<Rightarrow> (j < i \<or> rr_capacity r < j) \<and> freeze_error_range e = (i, j) \<and>
         freeze_error_capacity e = rr_capacity r \<and> arena_ok E s' L
     | Inr b \<Rightarrow> i \<le> j \<and> j \<le> rr_capacity r \<and> arena_ok E s' (pinned b \<union> L) \<and> pinned b \<inter> L = {} \<and>
         (\<forall>s2. kept (pinned b) s' s2 \<and> arena_ok E s2 (pinned b \<union> L) \<longrightarrow>
            bytes_as_ref s2 b = take (j - i) (drop i (as_uninit_slice s r)) \<and>
            (\<exists>w s3. drop_bytes E p s2 b = Ret (w, s3) \<and> arena_ok E s3 L)))"
proof (cases "j < i \<or> rr_capacity r < j")
  case True
  let ?b = "ArenaBytes (new_handle (rr_allocation r) 0 0 0)"
  have "arena_ok E s (pinned ?b \<union> L)" "pinned ?b \<inter> L = {}"
    using assms(1,2) by (simp_all add: new_handle_def del: arena_ok.simps)
  then obtain w s' where "drop_bytes E p s ?b = Ret (w, s')" "arena_ok E s' L" "kept L s s'"
    by (rule drop_bytes_ok [where p = p])
  then show ?thesis using True
    by (auto simp: freeze_region_def drop_region_def drop_handle_def new_handle_def freeze_error_range_def
        freeze_error_capacity_def simp del: arena_ok.simps)
next
  case False
  have "rr_offset r + (rr_capacity r - 1) \<in> {rr_offset r ..< rr_offset r + rr_capacity r}" using assms(4) by simp
  then have "rr_offset r + (rr_capacity r - 1) \<in> {..<ref_size s}"
    using assms(3) arena_ok_bound [OF assms(1), of "rr_allocation r"] by blast
  then have lt: "rr_offset r + rr_capacity r \<le> ref_size s" "ref_size s < 2 ^ 64"
    using assms(4) arena_ok_size [OF assms(1)] by simp_all
  let ?b = "ArenaBytes (new_handle (rr_allocation r) (rr_ptr r) (rr_offset r + i) (j - i))"
  have f: "freeze_region E p s r i j = Ret (Inr ?b, None, ref_record_frozen s)"
    using False lt by (simp add: freeze_region_def usize_add_Ret usize_sub_Ret)
  have ok: "arena_ok E (ref_record_frozen s) (pinned ?b \<union> L)" "pinned ?b \<inter> L = {}"
    using assms(1,2) by (simp_all add: new_handle_def counters_ok del: arena_ok.simps)
  have read: "bytes_as_ref s2 ?b = take (j - i) (drop i (as_uninit_slice s r))"
    if "kept (pinned ?b) (ref_record_frozen s) s2" for s2
  proof -
    have "ref_mem s2 x = ref_mem s x" if "x \<in> {rr_offset r + i ..< rr_offset r + i + (j - i)}" for x
    proof -
      have "x \<in> {rr_offset r ..< rr_offset r + rr_capacity r}" using that False by auto
      then have "x \<in> ref_region s (rr_allocation r)" using assms(3) by blast
      then show ?thesis using \<open>kept (pinned ?b) (ref_record_frozen s) s2\<close>
        by (simp add: kept_def new_handle_def counters_ok same_ref_laws(3) [OF counters_ok(5)])
    qed
    then have "bytes_as_ref s2 ?b = mem_slice (ref_mem s) (rr_offset r + i) (j - i)"
      using mem_slice_cong [of "rr_offset r + i" "j - i" "ref_mem s2" "ref_mem s"]
      by (auto simp: handle_as_ref_def new_handle_def)
    also have "\<dots> = take (j - i) (drop i (as_uninit_slice s r))"
      using False by (intro nth_equalityI) (auto simp: mem_slice_def as_uninit_slice_def add.assoc)
    finally show ?thesis .
  qed
  have drop: "\<exists>w s3. drop_bytes E p s2 ?b = Ret (w, s3) \<and> arena_ok E s3 L" if "arena_ok E s2 (pinned ?b \<union> L)" for s2
    using drop_bytes_ok [OF that ok(2), of p] by blast
  have "kept L s (ref_record_frozen s)" by (simp add: kept_def counters_ok)
  moreover have "i \<le> j" "j \<le> rr_capacity r" using False by auto
  ultimately have main: "freeze_region E p s r i j = Ret (Inr ?b, None, ref_record_frozen s) \<and> kept L s (ref_record_frozen s) \<and>
      i \<le> j \<and> j \<le> rr_capacity r \<and> arena_ok E (ref_record_frozen s) (pinned ?b \<union> L) \<and> pinned ?b \<inter> L = {} \<and>
      (\<forall>s2. kept (pinned ?b) (ref_record_frozen s) s2 \<and> arena_ok E s2 (pinned ?b \<union> L) \<longrightarrow>
         bytes_as_ref s2 ?b = take (j - i) (drop i (as_uninit_slice s r)) \<and>
         (\<exists>w s3. drop_bytes E p s2 ?b = Ret (w, s3) \<and> arena_ok E s3 L))"
    using f ok read drop by blast
  show ?thesis
    by (intro exI [of _ "Inr ?b"] exI [of _ None] exI [of _ "ref_record_frozen s"], unfold sum.case) (rule main)
qed

theorem freeze_region_correct_witness:
  "\<exists>res w s'. freeze_region sample_externals Debug (Fixed sample_fixed) (new_region (FixedSlot 0) 4096 0 8) 2 5 =
      Ret (res, w, s') \<and>
    (case res of Inl e \<Rightarrow> False
     | Inr b \<Rightarrow> arena_ok sample_externals s' (pinned b \<union> {}) \<and>
         bytes_as_ref s' b = take 3 (drop 2 (as_uninit_slice (Fixed sample_fixed) (new_region (FixedSlot 0) 4096 0 8))))"
proof -
  let ?r = "new_region (FixedSlot 0) 4096 0 8"
  have r: "rr_allocation ?r = FixedSlot 0" "rr_offset ?r = 0" "rr_capacity ?r = 8" by (simp_all add: new_region_def)
  have sub: "{rr_offset ?r ..< rr_offset ?r + rr_capacity ?r} \<subseteq> ref_region (Fixed sample_fixed) (rr_allocation ?r)"
    by (simp add: r slot_region_def sample_fixed_def)
  have ok: "arena_ok sample_externals (Fixed sample_fixed) (insert (rr_allocation ?r) {})"
    using sample_fixed_arena_ok by (simp add: r del: arena_ok.simps)
  show ?thesis
    using freeze_region_correct [OF ok _ sub, of Debug 2 5] r kept_refl
    by (fastforce split: sum.splits simp del: arena_ok.simps pinned.simps bytes_as_ref.simps drop_bytes.simps)
qed

end
