(* ===== verification/Builders.thy ===== *)
theory Builders
  imports Raw_Region
begin

text \<open>
  The builders as a whole: the mode parameter of \<^verbatim>\<open>FixedArenaBuilder\<close> and \<^verbatim>\<open>BuddyArenaBuilder\<close>
  (\<^verbatim>\<open>src/src/arena.rs\<close>, \<^verbatim>\<open>src/src/buddy.rs\<close>) as a type system over the builder steps, and the two ways of building,
  with the pages faulted at once and with \<^verbatim>\<open>build_unfaulted\<close> and \<^verbatim>\<open>fault_pages\<close>.
\<close>

subsection \<open>Modes\<close>

datatype Mode = Standard | AutoSpill | HazmatRaw

text \<open>Which builder values have which type: the signatures of the constructors and of the builder methods.\<close>

inductive fixed_builder :: "Mode \<Rightarrow> FixedArenaBuilder \<Rightarrow> bool" where
  by_slot: "0 < count \<Longrightarrow> 0 < cap \<Longrightarrow> fixed_builder Standard (with_slot_capacity count cap)"
| by_arena: "0 < count \<Longrightarrow> 0 < cap \<Longrightarrow> with_arena_capacity count cap = Ret b \<Longrightarrow> fixed_builder Standard b"
| alignment: "fixed_builder m b \<Longrightarrow> fixed_builder m (set_alignment n b)"
| init_policy: "fixed_builder m b \<Longrightarrow> fixed_builder m (set_init_policy policy b)"
| page_size: "fixed_builder m b \<Longrightarrow> fixed_builder m (set_page_size pages b)"
| spill: "fixed_builder Standard b \<Longrightarrow> fixed_builder AutoSpill (auto_spill b)"
| hazmat: "fixed_builder Standard b \<Longrightarrow> fixed_builder HazmatRaw (hazmat_raw_access_fixed b)"

inductive buddy_builder :: "Mode \<Rightarrow> BuddyArenaBuilder \<Rightarrow> bool" where
  geometry: "buddy_builder Standard (builder g)"
| buddy_init: "buddy_builder m b \<Longrightarrow> buddy_builder m (buddy_init_policy policy b)"
| buddy_pages: "buddy_builder m b \<Longrightarrow> buddy_builder m (buddy_page_size pages b)"
| buddy_spill: "buddy_builder Standard b \<Longrightarrow> buddy_builder AutoSpill (buddy_auto_spill b)"
| buddy_hazmat: "buddy_builder Standard b \<Longrightarrow> buddy_builder HazmatRaw (hazmat_raw_access_buddy b)"

lemmas builder_step_defs =
  with_slot_capacity_def with_arena_capacity_def set_alignment_def set_init_policy_def set_page_size_def
  auto_spill_def hazmat_raw_access_fixed_def builder_def buddy_init_policy_def buddy_page_size_def
  buddy_auto_spill_def hazmat_raw_access_buddy_def new_config_def

lemma fixed_builder_config:
  "fixed_builder m b \<Longrightarrow> (cfg_auto_spill (fb_config b) \<longleftrightarrow> m = AutoSpill) \<and> 0 < fb_slot_count b \<and> 0 < fb_slot_capacity b"
  by (induction rule: fixed_builder.induct) (auto simp: builder_step_defs Let_def split: if_splits)

lemma buddy_builder_config: "buddy_builder m b \<Longrightarrow> cfg_auto_spill (bb_config b) \<longleftrightarrow> m = AutoSpill"
  by (induction rule: buddy_builder.induct) (simp_all add: builder_step_defs)

lemma build_inner_fields:
  "build_inner E b h = Ret (Inr a) \<Longrightarrow>
   ai_auto_spill a = cfg_auto_spill (fb_config b) \<and> ai_slot_count a = fb_slot_count b \<and> ai_wake_handle a = h"
  by (auto simp: build_inner_def Let_def split: sum.splits option.splits prod.splits if_splits)

lemma build_raw_fields:
  "build_raw E p b h = Ret (Inr a) \<Longrightarrow> bi_auto_spill a = cfg_auto_spill (bb_config b) \<and> bi_wake_handle a = h"
  by (auto simp: build_raw_def Let_def obind_eq_Ret split: option.splits prod.splits if_splits)

lemma prefault_fixed_fields:
  "prefault_fixed ps a = Ret a' \<Longrightarrow>
   ai_auto_spill a' = ai_auto_spill a \<and> ai_slot_count a' = ai_slot_count a \<and> ai_wake_handle a' = ai_wake_handle a"
  by (auto simp: prefault_fixed_def obind_eq_Ret split: option.splits)

lemma prefault_buddy_fields:
  "prefault_buddy ps a = Ret a' \<Longrightarrow> bi_auto_spill a' = bi_auto_spill a \<and> bi_wake_handle a' = bi_wake_handle a"
  by (auto simp: prefault_buddy_def obind_eq_Ret split: option.splits)

lemma build_fixed_with_fields:
  assumes "build_fixed_with E p h b = Ret (Inr a)"
  shows "ai_auto_spill a = cfg_auto_spill (fb_config b) \<and> ai_slot_count a = fb_slot_count b \<and> ai_wake_handle a = h"
proof -
  obtain ps r where r: "build_inner E b h = Ret r"
      "(case r of Inl e \<Rightarrow> Ret (Inl e) | Inr a0 \<Rightarrow> obind (prefault_fixed ps a0) (\<lambda>a'. Ret (Inr a'))) = Ret (Inr a)"
    using assms by (auto simp: build_fixed_with_def obind_eq_Ret)
  then obtain a0 where "build_inner E b h = Ret (Inr a0)" "prefault_fixed ps a0 = Ret a"
    by (cases r) (auto simp: obind_eq_Ret)
  then show ?thesis using build_inner_fields [of E b h a0] prefault_fixed_fields [of ps a0 a] by simp
qed

lemma build_buddy_with_fields:
  assumes "build_buddy_with E p h b = Ret (Inr a)"
  shows "bi_auto_spill a = cfg_auto_spill (bb_config b) \<and> bi_wake_handle a = h"
proof -
  obtain ps r where r: "build_raw E p b h = Ret r"
      "(case r of Inl e \<Rightarrow> Ret (Inl e) | Inr a0 \<Rightarrow> obind (prefault_buddy ps a0) (\<lambda>a'. Ret (Inr a'))) = Ret (Inr a)"
    using assms by (auto simp: build_buddy_with_def obind_eq_Ret)
  then obtain a0 where "build_raw E p b h = Ret (Inr a0)" "prefault_buddy ps a0 = Ret a"
    by (cases r) (auto simp: obind_eq_Ret)
  then show ?thesis using build_raw_fields [of E p b h a0] prefault_buddy_fields [of ps a0 a] by simp
qed


definition sample_fixed_builder :: FixedArenaBuilder where
  "sample_fixed_builder = auto_spill (set_page_size Unknown (with_slot_capacity 4 64))"

definition sample_buddy_builder :: BuddyArenaBuilder where
  "sample_buddy_builder = hazmat_raw_access_buddy (buddy_page_size Unknown (builder
     \<lparr>bg_total_size = 4096, bg_min_block_size = 512, bg_max_order = 3, bg_alignment = 1, bg_cap_capacity = False\<rparr>))"

lemma sample_builders:
  "fixed_builder AutoSpill sample_fixed_builder" "buddy_builder HazmatRaw sample_buddy_builder"
  unfolding sample_fixed_builder_def sample_buddy_builder_def
  by (intro fixed_builder.intros buddy_builder.intros; simp)+

lemma sample_builds:
  "\<exists>a :: unit ArenaInner. build_fixed_with sample_externals Debug False sample_fixed_builder = Ret (Inr a)"
  "\<exists>d :: unit BuddyArenaInner. build_buddy_with sample_externals Debug False sample_buddy_builder = Ret (Inr d)"
  by (simp_all add: sample_fixed_builder_def sample_buddy_builder_def build_fixed_with_def build_buddy_with_def
      builder_step_defs build_inner_def build_raw_def validate_alignment_def align_up_def checked_mul_def
      checked_add_def layout_from_size_align_def sample_externals_def prefault_fixed_def prefault_buddy_def
      initial_bitmaps_Ret is_power_of_two_def count_ones.simps isize_max_def usize_max_def)


subsection \<open>Faulting\<close>

text \<open>\<open>build_unfaulted\<close> followed by \<open>fault_pages\<close>, given how the arena's memory is read and replaced.\<close>

definition fault_after ::
    "('a \<Rightarrow> mem) \<Rightarrow> (mem \<Rightarrow> 'a \<Rightarrow> 'a) \<Rightarrow> (BuildError + 'a Unfaulted) outcome \<Rightarrow> (BuildError + 'a) outcome" where
  "fault_after get put built =
     obind built (\<lambda>r. case r of Inl e \<Rightarrow> Ret (Inl e) | Inr u \<Rightarrow> obind (fault_pages get put u) (\<lambda>a. Ret (Inr a)))"

lemma fault_fixed:
  "fault_pages ai_mem (\<lambda>m a. a\<lparr>ai_mem := m\<rparr>)
     \<lparr>uf_ptr = ai_ptr a, uf_total_size = ai_slot_count a * ai_slot_capacity a, uf_page_size = ps, uf_inner = a\<rparr> = prefault_fixed ps a"
  by (cases ps) (simp_all add: fault_pages_def prefault_fixed_def)

lemma fault_buddy:
  "fault_pages bi_mem (\<lambda>m a. a\<lparr>bi_mem := m\<rparr>)
     \<lparr>uf_ptr = bi_ptr a, uf_total_size = bi_total_size a, uf_page_size = ps, uf_inner = a\<rparr> = prefault_buddy ps a"
  by (cases ps) (simp_all add: fault_pages_def prefault_buddy_def)

text \<open>C32. Building an arena without faulting its pages and then calling \<open>fault_pages\<close> is the same as building it:
  the same arena with the same memory, the same error, the same panic, for fixed and buddy arenas, in either
  profile and for every page size policy.\<close>

theorem fault_pages_completes_build:
  "fault_after ai_mem (\<lambda>m a. a\<lparr>ai_mem := m\<rparr>) (build_fixed_unfaulted E p b) = build_fixed E p b \<and>
   fault_after bi_mem (\<lambda>m a. a\<lparr>bi_mem := m\<rparr>) (build_buddy_unfaulted E p c) = build_buddy E p c"
  unfolding fault_after_def build_fixed_unfaulted_def build_buddy_unfaulted_def build_fixed_def build_buddy_def
    build_fixed_with_def build_buddy_with_def obind_assoc
  by (intro conjI arg_cong2 [where f = obind] refl ext) (simp_all add: fault_fixed fault_buddy split: sum.split)

end
