(* ===== verification/Waiters.thy ===== *)
theory Waiters
  imports Prelude
begin

text \<open>
  The wait queues of asynchronous buddy allocation: \<^verbatim>\<open>WaiterEntry\<close>, \<^verbatim>\<open>NotifyWaiters\<close> and
  \<^verbatim>\<open>BuddyRegistration\<close> of \<^verbatim>\<open>src/src/async_alloc.rs\<close>.

  Entries are shared between a queue and a registration; they live in a store and are named by their
  index. Each call is one step, as if the mutex of the queue were held throughout and no
  compare-exchange were contended. The two answers that come from the \<^verbatim>\<open>tokio\<close> oneshot channel are
  arguments: whether the receiver of an entry still exists when a wake is sent to it, and whether the
  receiver of a registration is ready. Timestamps come from the clock and are arguments too.
\<close>

subsection \<open>Entries and slots\<close>

datatype EntryState = LIVE | WOKEN | REVOKED

record WaiterEntry =
  we_state :: EntryState
  we_tx :: bool
  we_timestamp :: nat

definition new_entry :: "nat \<Rightarrow> WaiterEntry" where
  "new_entry timestamp = \<lparr>we_state = LIVE, we_tx = True, we_timestamp = timestamp\<rparr>"

definition take_tx :: "WaiterEntry \<Rightarrow> bool \<times> WaiterEntry" where
  "take_tx e = (we_tx e, e\<lparr>we_tx := False\<rparr>)"

definition NO_WAITERS_TIMESTAMP :: nat where
  "NO_WAITERS_TIMESTAMP = 2 ^ 64 - 1"

definition MAX_POPS_PER_WAKE :: nat where
  "MAX_POPS_PER_WAKE = 8"

definition MAX_CONSECUTIVE :: nat where
  "MAX_CONSECUTIVE = 10"

definition ORDER_BONUS_NS :: nat where
  "ORDER_BONUS_NS = 50000"

definition DEPTH_BONUS_NS :: nat where
  "DEPTH_BONUS_NS = 5000"

record BuddyOrderSlot =
  bo_queue :: "nat list"
  bo_count :: usize
  bo_head_timestamp :: nat

definition new_order_slot :: BuddyOrderSlot where
  "new_order_slot = \<lparr>bo_queue = [], bo_count = 0, bo_head_timestamp = NO_WAITERS_TIMESTAMP\<rparr>"

text \<open>
  The waiter set of a buddy arena, with the store of entries and the wakes sent so far
  (entry, freed order). The fixed slot is modelled separately.
\<close>

record NotifyWaitersInner =
  nw_buddy_orders :: "BuddyOrderSlot list"
  nw_streak_state :: "64 word"
  nw_entries :: "WaiterEntry list"
  nw_sent :: "(nat \<times> nat) list"

definition new_waiters :: "nat \<Rightarrow> NotifyWaitersInner outcome" where
  "new_waiters num_orders =
     (if 0 < num_orders
      then Ret \<lparr>nw_buddy_orders = replicate num_orders new_order_slot, nw_streak_state = 0, nw_entries = [], nw_sent = []\<rparr>
      else Panic ''must have at least one order'')"

abbreviation slot_at :: "NotifyWaitersInner \<Rightarrow> nat \<Rightarrow> BuddyOrderSlot" where
  "slot_at w order \<equiv> nw_buddy_orders w ! order"

definition put_slot :: "NotifyWaitersInner \<Rightarrow> nat \<Rightarrow> BuddyOrderSlot \<Rightarrow> NotifyWaitersInner" where
  "put_slot w order s = w\<lparr>nw_buddy_orders := (nw_buddy_orders w)[order := s]\<rparr>"

definition put_entry :: "NotifyWaitersInner \<Rightarrow> nat \<Rightarrow> WaiterEntry \<Rightarrow> NotifyWaitersInner" where
  "put_entry w i e = w\<lparr>nw_entries := (nw_entries w)[i := e]\<rparr>"

abbreviation entry_state :: "NotifyWaitersInner \<Rightarrow> nat \<Rightarrow> EntryState" where
  "entry_state w i \<equiv> we_state (nw_entries w ! i)"

subsection \<open>Scoring\<close>

text \<open>\<^verbatim>\<open>u64::saturating_mul\<close> and \<^verbatim>\<open>u64::saturating_sub\<close>.\<close>

definition saturating_mul :: "nat \<Rightarrow> nat \<Rightarrow> nat" where
  "saturating_mul x y = min (x * y) (2 ^ 64 - 1)"

definition saturating_sub :: "nat \<Rightarrow> nat \<Rightarrow> nat" where
  "saturating_sub x y = (if y \<le> x then x - y else 0)"

definition effective_age :: "nat \<Rightarrow> BuddyOrderSlot \<Rightarrow> nat" where
  "effective_age order s =
     saturating_sub
       (saturating_sub (bo_head_timestamp s) (saturating_mul order ORDER_BONUS_NS))
       (saturating_mul (unat (bo_count s)) DEPTH_BONUS_NS)"

definition candidates :: "NotifyWaitersInner \<Rightarrow> nat \<Rightarrow> (nat \<times> nat) list" where
  "candidates w mx =
     map (\<lambda>order. (order, effective_age order (slot_at w order)))
       (filter (\<lambda>order. bo_count (slot_at w order) \<noteq> 0 \<and>
                        bo_head_timestamp (slot_at w order) \<noteq> NO_WAITERS_TIMESTAMP) [0..<Suc mx])"

definition last_winner :: "64 word \<Rightarrow> nat" where
  "last_winner streak = unat (drop_bit 32 streak)"

definition streak_count :: "64 word \<Rightarrow> nat" where
  "streak_count streak = unat (take_bit 32 streak)"

definition score_orders :: "NotifyWaitersInner \<Rightarrow> nat \<Rightarrow> nat list" where
  "score_orders w freed_order =
     (let mx = min freed_order (length (nw_buddy_orders w) - 1);
          streak = nw_streak_state w;
          cs = candidates w mx;
          cs = (if MAX_CONSECUTIVE \<le> streak_count streak \<and> 1 < length cs \<and>
                   (\<exists>c \<in> set cs. fst c = last_winner streak)
                then filter (\<lambda>c. fst c \<noteq> last_winner streak) cs else cs)
      in map fst (sort_key snd cs))"

definition update_streak :: "NotifyWaitersInner \<Rightarrow> nat \<Rightarrow> NotifyWaitersInner" where
  "update_streak w winner_order =
     (let current = nw_streak_state w;
          new = (if winner_order = last_winner current
                 then push_bit 32 (word_of_nat winner_order) OR
                      word_of_nat (min (streak_count current + 1) (2 ^ 32 - 1))
                 else push_bit 32 (word_of_nat winner_order) OR 1)
      in w\<lparr>nw_streak_state := new\<rparr>)"

definition update_head_timestamp :: "NotifyWaitersInner \<Rightarrow> nat list \<Rightarrow> nat \<Rightarrow> NotifyWaitersInner" where
  "update_head_timestamp w queue order =
     put_slot w order ((slot_at w order)\<lparr>bo_head_timestamp :=
       (case find (\<lambda>i. entry_state w i = LIVE) queue of
          Some i \<Rightarrow> we_timestamp (nw_entries w ! i)
        | None \<Rightarrow> NO_WAITERS_TIMESTAMP)\<rparr>)"

subsection \<open>Waking\<close>

text \<open>The delivery to the entry \<open>i\<close>, popped from the queue of \<open>order\<close> with \<open>queue\<close> left behind it.\<close>

definition deliver ::
    "(nat \<Rightarrow> bool) \<Rightarrow> nat \<Rightarrow> nat \<Rightarrow> nat \<Rightarrow> nat list \<Rightarrow> NotifyWaitersInner \<Rightarrow> NotifyWaitersInner" where
  "deliver alive freed_order order i queue w =
     (let w = put_entry w i ((nw_entries w ! i)\<lparr>we_state := WOKEN\<rparr>);
          w = put_slot w order ((slot_at w order)\<lparr>bo_queue := queue, bo_count := bo_count (slot_at w order) - 1\<rparr>);
          w = update_head_timestamp w queue order;
          (tx, e) = take_tx (nw_entries w ! i);
          w = put_entry w i e
      in if tx \<and> alive i
         then update_streak (w\<lparr>nw_sent := nw_sent w @ [(i, freed_order)]\<rparr>) order
         else w)"

text \<open>The inner loop of a wake, on the rest of the queue; it returns the pops made so far.\<close>

fun wake_queue ::
    "(nat \<Rightarrow> bool) \<Rightarrow> nat \<Rightarrow> nat \<Rightarrow> nat list \<Rightarrow> nat \<Rightarrow> NotifyWaitersInner \<Rightarrow> nat \<times> NotifyWaitersInner" where
  "wake_queue alive freed_order order [] pops w = (pops, put_slot w order ((slot_at w order)\<lparr>bo_queue := []\<rparr>))"
| "wake_queue alive freed_order order (i # queue) pops w =
     (if pops < MAX_POPS_PER_WAKE then
        (if entry_state w i \<noteq> LIVE then wake_queue alive freed_order order queue (pops + 1) w
         else (pops + 1, deliver alive freed_order order i queue w))
      else (pops, put_slot w order ((slot_at w order)\<lparr>bo_queue := i # queue\<rparr>)))"

fun wake_orders ::
    "(nat \<Rightarrow> bool) \<Rightarrow> nat \<Rightarrow> nat list \<Rightarrow> nat \<Rightarrow> NotifyWaitersInner \<Rightarrow> nat \<times> NotifyWaitersInner" where
  "wake_orders alive freed_order [] pops w = (pops, w)"
| "wake_orders alive freed_order (order # orders) pops w =
     (if MAX_POPS_PER_WAKE \<le> pops then (pops, w)
      else
        let (pops', w') = wake_queue alive freed_order order (bo_queue (slot_at w order)) pops w
        in wake_orders alive freed_order orders pops' w')"

definition buddy_wake :: "(nat \<Rightarrow> bool) \<Rightarrow> NotifyWaitersInner \<Rightarrow> nat \<Rightarrow> NotifyWaitersInner" where
  "buddy_wake alive w freed_order = snd (wake_orders alive freed_order (score_orders w freed_order) 0 w)"

subsection \<open>Registrations\<close>

record BuddyRegistration =
  br_entry :: "nat option"
  br_rx :: bool
  br_order :: nat
  br_registered :: bool
  br_pending_entry :: "nat option"

definition buddy_register :: "NotifyWaitersInner \<Rightarrow> nat \<Rightarrow> nat \<Rightarrow> BuddyRegistration \<times> NotifyWaitersInner" where
  "buddy_register w order now_ns =
     (let order = min order (length (nw_buddy_orders w) - 1);
          i = length (nw_entries w)
      in (\<lparr>br_entry = Some i, br_rx = True, br_order = order, br_registered = False, br_pending_entry = Some i\<rparr>,
          w\<lparr>nw_entries := nw_entries w @ [new_entry now_ns]\<rparr>))"

definition buddy_prepare :: "BuddyRegistration \<Rightarrow> NotifyWaitersInner \<Rightarrow> BuddyRegistration \<times> NotifyWaitersInner" where
  "buddy_prepare r w =
     (case br_pending_entry r of
        Some entry \<Rightarrow>
          if br_registered r then (r, w)
          else
            let slot = slot_at w (br_order r);
                prev = bo_count slot;
                slot' = slot\<lparr>bo_queue := bo_queue slot @ [entry], bo_count := prev + 1\<rparr>;
                slot'' = (case br_entry r of
                    Some e \<Rightarrow> if prev = 0 then slot'\<lparr>bo_head_timestamp := we_timestamp (nw_entries w ! e)\<rparr> else slot'
                  | None \<Rightarrow> slot')
            in (r\<lparr>br_pending_entry := None, br_registered := True\<rparr>, put_slot w (br_order r) slot'')
      | None \<Rightarrow> (r, w))"

text \<open>The common step of \<^verbatim>\<open>revoke\<close> and \<^verbatim>\<open>drop\<close>: the compare-exchange and what its winner does.\<close>

definition revoke_entry :: "nat option \<Rightarrow> nat \<Rightarrow> NotifyWaitersInner \<Rightarrow> NotifyWaitersInner" where
  "revoke_entry entry order w =
     (case entry of
        Some i \<Rightarrow>
          if entry_state w i = LIVE
          then
            let (tx, e) = take_tx ((nw_entries w ! i)\<lparr>we_state := REVOKED\<rparr>);
                w = put_entry w i e
            in put_slot w order ((slot_at w order)\<lparr>bo_count := bo_count (slot_at w order) - 1\<rparr>)
          else w
      | None \<Rightarrow> w)"

definition buddy_revoke :: "BuddyRegistration \<Rightarrow> NotifyWaitersInner \<Rightarrow> BuddyRegistration \<times> NotifyWaitersInner" where
  "buddy_revoke r w =
     (if br_registered r then (r\<lparr>br_registered := False\<rparr>, revoke_entry (br_entry r) (br_order r) w) else (r, w))"

definition buddy_poll :: "bool \<Rightarrow> BuddyRegistration \<Rightarrow> bool \<times> BuddyRegistration" where
  "buddy_poll rx_ready r =
     (if br_rx r
      then (if rx_ready then (True, r\<lparr>br_rx := False, br_registered := False\<rparr>) else (False, r))
      else (True, r))"

definition buddy_drop :: "BuddyRegistration \<Rightarrow> NotifyWaitersInner \<Rightarrow> NotifyWaitersInner" where
  "buddy_drop r w = (if br_registered r then revoke_entry (br_entry r) (br_order r) w else w)"

subsection \<open>The bookkeeping invariant\<close>

text \<open>
  The whole system: the waiter set and the registrations that exist, by entry. A step is one call;
  the receiver of a registration is ready only once its sender is gone, sent or dropped.
\<close>

type_synonym waiter_system = "NotifyWaitersInner \<times> (nat \<rightharpoonup> BuddyRegistration)"

inductive bw_step :: "waiter_system \<Rightarrow> waiter_system \<Rightarrow> bool" where
  register: "now < NO_WAITERS_TIMESTAMP \<Longrightarrow> buddy_register w order now = (r, w') \<Longrightarrow>
    bw_step (w, R) (w', R(length (nw_entries w) \<mapsto> r))"
| prepare: "R i = Some r \<Longrightarrow> buddy_prepare r w = (r', w') \<Longrightarrow> bw_step (w, R) (w', R(i \<mapsto> r'))"
| revoke: "R i = Some r \<Longrightarrow> buddy_revoke r w = (r', w') \<Longrightarrow> bw_step (w, R) (w', R(i \<mapsto> r'))"
| poll: "R i = Some r \<Longrightarrow> rx_ready \<longrightarrow> \<not> we_tx (nw_entries w ! i) \<Longrightarrow> buddy_poll rx_ready r = (ready, r') \<Longrightarrow>
    bw_step (w, R) (w, R(i \<mapsto> r'))"
| drop: "R i = Some r \<Longrightarrow> bw_step (w, R) (buddy_drop r w, R(i := None))"
| wake: "bw_step (w, R) (buddy_wake alive w freed_order, R)"

abbreviation live :: "NotifyWaitersInner \<Rightarrow> nat \<Rightarrow> bool" where
  "live w i \<equiv> entry_state w i = LIVE"

text \<open>A slot is in order: its count is the number of live entries in its queue, and while there is one,
  the head timestamp is not the sentinel that hides the slot from scoring.\<close>

definition slot_ok :: "NotifyWaitersInner \<Rightarrow> BuddyOrderSlot \<Rightarrow> bool" where
  "slot_ok w s \<longleftrightarrow>
     distinct (bo_queue s) \<and> (\<forall>i \<in> set (bo_queue s). i < length (nw_entries w)) \<and>
     bo_count s = word_of_nat (length (filter (live w) (bo_queue s))) \<and>
     ((\<exists>i \<in> set (bo_queue s). live w i) \<longrightarrow> bo_head_timestamp s \<noteq> NO_WAITERS_TIMESTAMP)"

definition entries_ok :: "NotifyWaitersInner \<Rightarrow> bool" where
  "entries_ok w \<longleftrightarrow>
     (\<forall>i < length (nw_entries w). we_timestamp (nw_entries w ! i) < NO_WAITERS_TIMESTAMP \<and>
        (live w i \<longrightarrow> we_tx (nw_entries w ! i)))"

text \<open>A registration names its entry; a live entry sits in the queue of its registration's order, or nowhere.\<close>

definition reg_ok :: "NotifyWaitersInner \<Rightarrow> nat \<Rightarrow> BuddyRegistration \<Rightarrow> bool" where
  "reg_ok w i r \<longleftrightarrow>
     br_entry r = Some i \<and> i < length (nw_entries w) \<and> br_order r < length (nw_buddy_orders w) \<and>
     (br_registered r \<and> live w i \<longrightarrow> i \<in> set (bo_queue (slot_at w (br_order r)))) \<and>
     (\<forall>e. br_pending_entry r = Some e \<longrightarrow> e = i \<and> \<not> br_registered r \<and> live w i \<and>
        (\<forall>ord < length (nw_buddy_orders w). i \<notin> set (bo_queue (slot_at w ord))))"

definition waiters_ok :: "waiter_system \<Rightarrow> bool" where
  "waiters_ok = (\<lambda>(w, R).
     0 < length (nw_buddy_orders w) \<and> entries_ok w \<and>
     (\<forall>ord < length (nw_buddy_orders w). slot_ok w (slot_at w ord)) \<and>
     (\<forall>i r. R i = Some r \<longrightarrow> reg_ok w i r) \<and>
     (\<forall>ord < length (nw_buddy_orders w). \<forall>i \<in> set (bo_queue (slot_at w ord)). live w i \<longrightarrow>
        (\<exists>r. R i = Some r \<and> br_registered r \<and> br_order r = ord)))"

lemma put_simps [simp]:
  "nw_entries (put_slot w ord s) = nw_entries w"
  "length (nw_buddy_orders (put_slot w ord s)) = length (nw_buddy_orders w)"
  "nw_buddy_orders (put_entry w i e) = nw_buddy_orders w"
  "length (nw_entries (put_entry w i e)) = length (nw_entries w)"
  "nw_buddy_orders (update_streak w o1) = nw_buddy_orders w" "nw_entries (update_streak w o1) = nw_entries w"
  by (simp_all add: put_slot_def put_entry_def update_streak_def Let_def)

lemma slot_at_put: "ord < length (nw_buddy_orders w) \<Longrightarrow>
    slot_at (put_slot w ord s) o2 = (if o2 = ord then s else slot_at w o2)"
  by (simp add: put_slot_def nth_list_update)

lemma entry_at_put: "i < length (nw_entries w) \<Longrightarrow>
    nw_entries (put_entry w i e) ! j = (if j = i then e else nw_entries w ! j)"
  by (simp add: put_entry_def nth_list_update)

lemma slot_ok_cong:
  assumes "nw_entries w' = nw_entries w"
  shows "slot_ok w' s = slot_ok w s"
  by (simp add: slot_ok_def assms)

text \<open>Killing an entry that is not in the queue changes nothing for the slot.\<close>

lemma slot_ok_other:
  assumes "slot_ok w s" "i \<notin> set (bo_queue s)" "i < length (nw_entries w)"
  shows "slot_ok (put_entry w i e) s"
proof -
  have "filter (live (put_entry w i e)) (bo_queue s) = filter (live w) (bo_queue s)"
    using assms(2,3) by (intro filter_cong) (auto simp: entry_at_put)
  then show ?thesis using assms by (auto simp: slot_ok_def entry_at_put)
qed

lemma count_killed:
  assumes "distinct q" "i \<in> set q" "live w i" "i < length (nw_entries w)" "we_state e \<noteq> LIVE"
  shows "Suc (length (filter (live (put_entry w i e)) q)) = length (filter (live w) q)"
proof -
  have eq: "filter (live (put_entry w i e)) q = remove1 i (filter (live w) q)"
  proof -
    have "filter (live (put_entry w i e)) q = filter (\<lambda>j. i \<noteq> j) (filter (live w) q)"
      using assms(4,5) by (auto simp: entry_at_put intro!: filter_cong)
    then show ?thesis using assms(1) by (simp add: distinct_remove1_removeAll removeAll_filter_not_eq)
  qed
  have i: "i \<in> set (filter (live w) q)" using assms(2,3) by simp
  then have "0 < length (filter (live w) q)" by (rule length_pos_if_in_set)
  then show ?thesis unfolding eq length_remove1 using i by simp
qed

lemma new_waiters_ok:
  assumes "new_waiters n = Ret w"
  shows "waiters_ok (w, Map.empty)"
  using assms by (auto simp: new_waiters_def waiters_ok_def entries_ok_def slot_ok_def new_order_slot_def split: if_splits)

text \<open>
  The step shared by revocation and delivery: the live entry \<open>i\<close> of the queue of \<open>ord\<close> ends, and the
  queue may lose it and tombstones.
\<close>

definition same_reg :: "BuddyRegistration option \<Rightarrow> BuddyRegistration option \<Rightarrow> bool" where
  "same_reg x y \<longleftrightarrow> y = None \<or>
     (\<exists>r r'. x = Some r \<and> y = Some r' \<and> br_entry r' = br_entry r \<and> br_order r' = br_order r \<and>
        br_pending_entry r' = br_pending_entry r)"

lemma end_entry_ok:
  assumes ok: "waiters_ok (w, R)" and i: "ord < length (nw_buddy_orders w)" "i \<in> set (bo_queue (slot_at w ord))" "live w i"
    and e: "we_state e \<noteq> LIVE" "we_timestamp e = we_timestamp (nw_entries w ! i)"
    and q: "distinct q" "set q \<subseteq> set (bo_queue (slot_at w ord))"
      "length (filter (live (put_entry w i e)) q) = length (filter (live (put_entry w i e)) (bo_queue (slot_at w ord)))"
      "\<forall>j \<in> set (bo_queue (slot_at w ord)). live w j \<and> j \<noteq> i \<longrightarrow> j \<in> set q"
    and h: "(\<exists>j \<in> set q. live w j \<and> j \<noteq> i) \<longrightarrow> h \<noteq> NO_WAITERS_TIMESTAMP"
    and R: "\<forall>j. j \<noteq> i \<longrightarrow> R' j = R j" "same_reg (R i) (R' i)"
  shows "waiters_ok (put_slot (put_entry w i e) ord
    ((slot_at w ord)\<lparr>bo_queue := q, bo_count := bo_count (slot_at w ord) - 1, bo_head_timestamp := h\<rparr>), R')"
    (is "waiters_ok (put_slot ?w ord ?s, R')")
proof -
  let ?n = "length (nw_buddy_orders w)"
  have en: "entries_ok w" and sl: "\<And>o2. o2 < ?n \<Longrightarrow> slot_ok w (slot_at w o2)"
    and rg: "\<And>j r. R j = Some r \<Longrightarrow> reg_ok w j r"
    and lv: "\<And>o2 j. o2 < ?n \<Longrightarrow> j \<in> set (bo_queue (slot_at w o2)) \<Longrightarrow> live w j \<Longrightarrow>
      \<exists>r. R j = Some r \<and> br_registered r \<and> br_order r = o2"
    and n: "0 < ?n"
    using ok by (auto simp: waiters_ok_def)
  obtain r where r: "R i = Some r" "br_registered r" "br_order r = ord" using lv [OF i] by blast
  have ilt: "i < length (nw_entries w)" using rg [OF r(1)] by (simp add: reg_ok_def)
  define w' where "w' = put_slot ?w ord ?s"
  have len: "length (nw_buddy_orders w') = ?n" "length (nw_entries w') = length (nw_entries w)"
    by (simp_all add: w'_def)
  have at: "slot_at w' o2 = (if o2 = ord then ?s else slot_at w o2)" for o2
    unfolding w'_def using slot_at_put [of ord ?w ?s o2] i(1) by simp
  have st: "live w' j \<longleftrightarrow> live w j \<and> j \<noteq> i" for j
    unfolding w'_def using ilt e(1) by (simp add: entry_at_put)
  have en': "entries_ok w'"
    unfolding w'_def using en ilt e by (auto simp: entries_ok_def entry_at_put)
  have "Suc (length (filter (live ?w) (bo_queue (slot_at w ord)))) = length (filter (live w) (bo_queue (slot_at w ord)))"
    using sl [OF i(1)] i(2,3) ilt e(1) by (intro count_killed) (simp_all add: slot_ok_def)
  then have cnt: "bo_count (slot_at w ord) - 1 = word_of_nat (length (filter (live ?w) q))"
    using sl [OF i(1)] unfolding q(3) by (simp add: slot_ok_def flip: of_nat_Suc) (metis add_diff_cancel_left' of_nat_Suc)
  have "slot_ok ?w ?s"
    unfolding slot_ok_def
    using cnt q(1,2) sl [OF i(1)] h ilt e(1) by (auto simp: slot_ok_def entry_at_put)
  moreover have "slot_ok ?w (slot_at w o2)" if "o2 < ?n" "o2 \<noteq> ord" for o2
  proof -
    have "i \<notin> set (bo_queue (slot_at w o2))" using lv [OF that(1) _ i(3)] r that(2) by auto
    then show ?thesis using sl [OF that(1)] ilt by (intro slot_ok_other)
  qed
  ultimately have sl': "slot_ok w' (slot_at w' o2)" if "o2 < ?n" for o2
    using that at [of o2] slot_ok_cong [of w' ?w] by (simp add: w'_def)
  have sub: "j \<in> set (bo_queue (slot_at w o2))" if "j \<in> set (bo_queue (slot_at w' o2))" for j o2
    using that at [of o2] q(2) by (cases "o2 = ord") auto
  have keep: "j \<in> set (bo_queue (slot_at w' o2))" if "j \<in> set (bo_queue (slot_at w o2))" "live w j" "j \<noteq> i" for j o2
    using that at [of o2] q(4) by (cases "o2 = ord") auto
  have rg': "reg_ok w' j r'" if asm: "R' j = Some r'" for j r'
  proof (cases "j = i")
    case True
    then obtain r0 where r0: "R i = Some r0" "br_entry r' = br_entry r0" "br_order r' = br_order r0"
      "br_pending_entry r' = br_pending_entry r0"
      using R(2) asm unfolding same_reg_def by (metis option.distinct(1) option.inject)
    have "r0 = r" using r0(1) r(1) by simp
    moreover have "br_pending_entry r = None" using rg [OF r(1)] r(2) by (cases "br_pending_entry r") (auto simp: reg_ok_def)
    ultimately show ?thesis using rg [OF r(1)] r0 True st len by (simp add: reg_ok_def)
  next
    case False
    with asm R(1) have "R j = Some r'" by simp
    note old = rg [OF this, unfolded reg_ok_def]
    have "br_registered r' \<and> live w' j \<longrightarrow> j \<in> set (bo_queue (slot_at w' (br_order r')))"
      using old keep [of j "br_order r'"] st [of j] by blast
    moreover have "live w j \<longrightarrow> live w' j" using st [of j] False by blast
    ultimately show ?thesis unfolding reg_ok_def len using old sub [of j] by blast
  qed
  have lv': "\<exists>r. R' j = Some r \<and> br_registered r \<and> br_order r = o2"
    if "o2 < ?n" "j \<in> set (bo_queue (slot_at w' o2))" "live w' j" for o2 j
    using lv [OF that(1) sub [OF that(2)]] that(3) st [of j] R(1) by auto
  have "waiters_ok (w', R')"
    unfolding waiters_ok_def prod.case len using n en' sl' rg' lv' by blast
  then show ?thesis by (simp add: w'_def)
qed

lemma waiters_ok_cong:
  assumes "nw_entries w' = nw_entries w" "nw_buddy_orders w' = nw_buddy_orders w"
  shows "waiters_ok (w', R) = waiters_ok (w, R)"
  by (simp add: waiters_ok_def entries_ok_def slot_ok_def reg_ok_def assms)

lemma revoke_entry_ok:
  assumes ok: "waiters_ok (w, R)" and r: "R i = Some r" "br_registered r"
    and R': "\<forall>j. j \<noteq> i \<longrightarrow> R' j = R j" "same_reg (R i) (R' i)"
      "\<And>r'. R' i = Some r' \<Longrightarrow> \<not> br_registered r'"
  shows "waiters_ok (revoke_entry (br_entry r) (br_order r) w, R')"
proof (cases "live w i")
  case True
  let ?ord = "br_order r" and ?e = "(nw_entries w ! i)\<lparr>we_state := REVOKED, we_tx := False\<rparr>"
  let ?s = "slot_at w ?ord"
  have ro: "reg_ok w i r" using ok r(1) by (simp add: waiters_ok_def)
  then have i: "?ord < length (nw_buddy_orders w)" "i \<in> set (bo_queue ?s)" "br_entry r = Some i"
    using r(2) True by (simp_all add: reg_ok_def)
  have sl: "slot_ok w ?s" using ok i(1) by (simp add: waiters_ok_def)
  have h: "bo_head_timestamp ?s \<noteq> NO_WAITERS_TIMESTAMP" using sl i(2) True by (auto simp: slot_ok_def)
  have eq: "revoke_entry (br_entry r) ?ord w = put_slot (put_entry w i ?e) ?ord
      (?s\<lparr>bo_queue := bo_queue ?s, bo_count := bo_count ?s - 1, bo_head_timestamp := bo_head_timestamp ?s\<rparr>)"
    using True by (simp add: revoke_entry_def i(3) take_tx_def)
  show ?thesis
    unfolding eq by (rule end_entry_ok [OF ok i(1,2) True]) (use sl h R'(1,2) in \<open>simp_all add: slot_ok_def\<close>)
next
  case False
  have ro: "reg_ok w i r" using ok r(1) by (simp add: waiters_ok_def)
  have eq: "revoke_entry (br_entry r) (br_order r) w = w" using False ro by (simp add: revoke_entry_def reg_ok_def)
  have "reg_ok w j r'" if asm: "R' j = Some r'" for j r'
  proof (cases "j = i")
    case True
    have p: "br_pending_entry r = None" using ro r(2) by (cases "br_pending_entry r") (auto simp: reg_ok_def)
    have "br_entry r' = br_entry r" "br_order r' = br_order r" "br_pending_entry r' = None" "\<not> br_registered r'"
      using R'(2,3) asm r(1) p True by (auto simp: same_reg_def)
    then show ?thesis using ro True by (simp add: reg_ok_def)
  next
    case False
    then show ?thesis using ok asm R'(1) by (simp add: waiters_ok_def)
  qed
  moreover have "\<exists>r. R' j = Some r \<and> br_registered r \<and> br_order r = ord"
    if "ord < length (nw_buddy_orders w)" "j \<in> set (bo_queue (slot_at w ord))" "live w j" for ord j
  proof -
    have "j \<noteq> i" using that(3) False by blast
    then show ?thesis using ok that R'(1) by (auto simp: waiters_ok_def)
  qed
  ultimately show ?thesis using ok unfolding eq waiters_ok_def prod.case by blast
qed

lemma pop_tombstones_ok:
  assumes ok: "waiters_ok (w, R)" and ord: "ord < length (nw_buddy_orders w)"
    and q: "bo_queue (slot_at w ord) = ts @ q" "\<forall>i \<in> set ts. \<not> live w i"
  shows "waiters_ok (put_slot w ord ((slot_at w ord)\<lparr>bo_queue := q\<rparr>), R)" (is "waiters_ok (?w, R)")
proof -
  have at: "slot_at ?w o2 = (if o2 = ord then (slot_at w ord)\<lparr>bo_queue := q\<rparr> else slot_at w o2)" for o2
    using slot_at_put [OF ord] .
  have "slot_ok w (slot_at w ord)" using ok ord by (simp add: waiters_ok_def)
  then have "slot_ok ?w ((slot_at w ord)\<lparr>bo_queue := q\<rparr>)"
    using q by (auto simp: slot_ok_def)
  then have sl: "slot_ok ?w (slot_at ?w o2)" if "o2 < length (nw_buddy_orders w)" for o2
    using that ok at [of o2] slot_ok_cong [of ?w w "slot_at w o2"] by (simp add: waiters_ok_def)
  have sub: "j \<in> set (bo_queue (slot_at w o2))" if "j \<in> set (bo_queue (slot_at ?w o2))" for j o2
    using that at [of o2] q(1) by (cases "o2 = ord") auto
  have keep: "j \<in> set (bo_queue (slot_at ?w o2))" if "j \<in> set (bo_queue (slot_at w o2))" "live w j" for j o2
    using that at [of o2] q by (cases "o2 = ord") auto
  have rg: "reg_ok ?w i r" if "R i = Some r" for i r
  proof -
    have "reg_ok w i r" using ok that by (simp add: waiters_ok_def)
    then show ?thesis unfolding reg_ok_def put_simps using sub [of i] keep [of i] by blast
  qed
  have en: "entries_ok ?w" using ok by (simp add: waiters_ok_def entries_ok_def)
  show ?thesis
    using ok sl rg en sub unfolding waiters_ok_def prod.case put_simps by blast
qed

text \<open>What the inner loop does: it pops tombstones, then stops or delivers to the first live entry.\<close>

lemma wake_queue_cases:
  obtains (stopped) ts q where "queue = ts @ q" "\<forall>i \<in> set ts. \<not> live w i" "q \<noteq> [] \<Longrightarrow> MAX_POPS_PER_WAKE \<le> pops + length ts"
      "wake_queue alive freed ord queue pops w = (pops + length ts, put_slot w ord ((slot_at w ord)\<lparr>bo_queue := q\<rparr>))"
  | (delivered) ts i q where "queue = ts @ i # q" "\<forall>i \<in> set ts. \<not> live w i" "live w i"
      "pops + length ts < MAX_POPS_PER_WAKE"
      "wake_queue alive freed ord queue pops w = (pops + length ts + 1, deliver alive freed ord i q w)"
proof (induction queue arbitrary: pops thesis)
  case Nil
  then show ?case using Nil.prems(1) [of "[]" "[]"] by simp
next
  case (Cons j queue)
  show ?case
  proof (cases "pops < MAX_POPS_PER_WAKE")
    case False
    then show ?thesis using Cons.prems(1) [of "[]" "j # queue"] by simp
  next
    case True
    show ?thesis
    proof (cases "live w j")
      case live: True
      then show ?thesis using True Cons.prems(2) [of "[]" j queue] by simp
    next
      case dead: False
      then have eq: "wake_queue alive freed ord (j # queue) pops w = wake_queue alive freed ord queue (pops + 1) w"
        using True by simp
      show ?thesis
      proof (rule Cons.IH [of "pops + 1"], goal_cases)
        case (1 ts q)
        then show ?case using Cons.prems(1) [of "j # ts" q] dead eq by simp
      next
        case (2 ts i q)
        then show ?case using Cons.prems(2) [of "j # ts" i q] dead eq by simp
      qed
    qed
  qed
qed

lemma deliver_fields:
  assumes "i < length (nw_entries w)" "ord < length (nw_buddy_orders w)" "i \<notin> set q"
  obtains h where
    "nw_entries (deliver alive freed ord i q w) = nw_entries (put_entry w i ((nw_entries w ! i)\<lparr>we_state := WOKEN, we_tx := False\<rparr>))"
    "nw_buddy_orders (deliver alive freed ord i q w) =
       (nw_buddy_orders w)[ord := (slot_at w ord)\<lparr>bo_queue := q, bo_count := bo_count (slot_at w ord) - 1, bo_head_timestamp := h\<rparr>]"
    "h = (case find (live w) q of Some j \<Rightarrow> we_timestamp (nw_entries w ! j) | None \<Rightarrow> NO_WAITERS_TIMESTAMP)"
proof -
  let ?w = "put_entry w i ((nw_entries w ! i)\<lparr>we_state := WOKEN\<rparr>)"
  let ?h = "case find (live ?w) q of Some j \<Rightarrow> we_timestamp (nw_entries ?w ! j) | None \<Rightarrow> NO_WAITERS_TIMESTAMP"
  have "find (live ?w) q = find (live w) q"
    using assms(1,3) by (intro find_cong) (auto simp: entry_at_put)
  then have h: "?h = (case find (live w) q of Some j \<Rightarrow> we_timestamp (nw_entries w ! j) | None \<Rightarrow> NO_WAITERS_TIMESTAMP)"
    using assms(1) by (simp add: entry_at_put split: option.splits)
  have f: "nw_entries (deliver alive freed ord i q w) = nw_entries (put_entry w i ((nw_entries w ! i)\<lparr>we_state := WOKEN, we_tx := False\<rparr>))"
    "nw_buddy_orders (deliver alive freed ord i q w) =
       (nw_buddy_orders w)[ord := (slot_at w ord)\<lparr>bo_queue := q, bo_count := bo_count (slot_at w ord) - 1, bo_head_timestamp := ?h\<rparr>]"
    using assms(1,2)
    by (simp_all add: deliver_def update_head_timestamp_def put_slot_def put_entry_def take_tx_def Let_def update_streak_def
        split: option.split)
  show ?thesis by (rule that [OF f h])
qed

lemma deliver_ok:
  assumes ok: "waiters_ok (w, R)" and ord: "ord < length (nw_buddy_orders w)"
    and q: "bo_queue (slot_at w ord) = ts @ i # q" "\<forall>i \<in> set ts. \<not> live w i" "live w i"
  shows "waiters_ok (deliver alive freed ord i q w, R)"
proof -
  let ?e = "(nw_entries w ! i)\<lparr>we_state := WOKEN, we_tx := False\<rparr>" and ?s = "slot_at w ord"
  have sl: "slot_ok w ?s" using ok ord by (simp add: waiters_ok_def)
  then have d: "distinct (ts @ i # q)" "i < length (nw_entries w)" "i \<notin> set q" using q(1) by (auto simp: slot_ok_def)
  obtain h where f: "nw_entries (deliver alive freed ord i q w) = nw_entries (put_entry w i ?e)"
    "nw_buddy_orders (deliver alive freed ord i q w) =
       (nw_buddy_orders w)[ord := ?s\<lparr>bo_queue := q, bo_count := bo_count ?s - 1, bo_head_timestamp := h\<rparr>]"
    "h = (case find (live w) q of Some j \<Rightarrow> we_timestamp (nw_entries w ! j) | None \<Rightarrow> NO_WAITERS_TIMESTAMP)"
    using deliver_fields [OF d(2) ord d(3)] by blast
  have h: "(\<exists>j \<in> set q. live w j \<and> j \<noteq> i) \<longrightarrow> h \<noteq> NO_WAITERS_TIMESTAMP"
  proof
    assume "\<exists>j \<in> set q. live w j \<and> j \<noteq> i"
    then obtain j where j: "find (live w) q = Some j" using find_None_iff [of "live w" q] by (cases "find (live w) q") auto
    then have "j \<in> set q" by (metis find_Some_iff nth_mem)
    then have "j < length (nw_entries w)" using sl q(1) by (simp add: slot_ok_def)
    then have "we_timestamp (nw_entries w ! j) < NO_WAITERS_TIMESTAMP" using ok by (simp add: waiters_ok_def entries_ok_def)
    then show "h \<noteq> NO_WAITERS_TIMESTAMP" using f(3) j by simp
  qed
  have "filter (live (put_entry w i ?e)) (ts @ [i]) = []"
    using q(2) d(2) by (auto simp: entry_at_put filter_empty_conv)
  then have cnt: "length (filter (live (put_entry w i ?e)) q) = length (filter (live (put_entry w i ?e)) (bo_queue ?s))"
    unfolding q(1) by (simp add: filter_empty_conv split: if_splits)
  let ?s' = "?s\<lparr>bo_queue := q, bo_count := bo_count ?s - 1, bo_head_timestamp := h\<rparr>"
  have "waiters_ok (put_slot (put_entry w i ?e) ord ?s', R)"
  proof (rule end_entry_ok [OF ok ord _ q(3)])
    show "same_reg (R i) (R i)"
      using ok ord q(1,3) unfolding waiters_ok_def same_reg_def by (cases "R i") auto
  qed (use q d h cnt in auto)
  then show ?thesis
    by (subst waiters_ok_cong [where w = "put_slot (put_entry w i ?e) ord ?s'"]) (simp_all add: f put_slot_def put_entry_def)
qed

lemma wake_queue_ok:
  assumes "waiters_ok (w, R)" "ord < length (nw_buddy_orders w)" "wake_queue alive freed ord (bo_queue (slot_at w ord)) pops w = (pops', w')"
  shows "waiters_ok (w', R) \<and> length (nw_buddy_orders w') = length (nw_buddy_orders w)"
proof -
  have sl: "slot_ok w (slot_at w ord)" using assms(1,2) by (simp add: waiters_ok_def)
  show ?thesis
  proof (cases rule: wake_queue_cases [of "bo_queue (slot_at w ord)" w pops alive freed ord])
    case (stopped ts q)
    then show ?thesis using pop_tombstones_ok [OF assms(1,2) stopped(1,2)] assms(3) by auto
  next
    case (delivered ts i q)
    have "i < length (nw_entries w)" "i \<notin> set q" using sl delivered(1) by (auto simp: slot_ok_def)
    from deliver_fields [OF this(1) assms(2) this(2), of alive freed]
    have "length (nw_buddy_orders (deliver alive freed ord i q w)) = length (nw_buddy_orders w)" by (metis length_list_update)
    then show ?thesis using deliver_ok [OF assms(1,2) delivered(1-3)] delivered(5) assms(3) by auto
  qed
qed

lemma wake_orders_ok:
  "waiters_ok (w, R) \<Longrightarrow> \<forall>ord \<in> set orders. ord < length (nw_buddy_orders w) \<Longrightarrow>
     waiters_ok (snd (wake_orders alive freed orders pops w), R)"
proof (induction orders arbitrary: pops w)
  case (Cons ord orders)
  obtain pops' w' where eq: "wake_queue alive freed ord (bo_queue (slot_at w ord)) pops w = (pops', w')" by fastforce
  have "waiters_ok (w', R) \<and> length (nw_buddy_orders w') = length (nw_buddy_orders w)"
    using wake_queue_ok [OF Cons.prems(1) _ eq] Cons.prems(2) by simp
  then show ?case using Cons.IH [of w' pops'] Cons.prems eq by simp
qed simp

lemma score_orders_subset:
  assumes "ord \<in> set (score_orders w freed)" "0 < length (nw_buddy_orders w)"
  shows "ord \<le> freed" "ord < length (nw_buddy_orders w)" "bo_count (slot_at w ord) \<noteq> 0"
proof -
  let ?mx = "min freed (length (nw_buddy_orders w) - 1)"
  have "ord \<in> fst ` set (candidates w ?mx)"
    using assms(1) unfolding score_orders_def Let_def by (auto split: if_splits simp del: upt_Suc)
  then have m: "ord \<le> ?mx" "bo_count (slot_at w ord) \<noteq> 0" by (auto simp: candidates_def less_Suc_eq_le simp del: upt_Suc)
  show "bo_count (slot_at w ord) \<noteq> 0" by (rule m(2))
  have "ord \<le> freed" "ord \<le> length (nw_buddy_orders w) - 1" using m(1) by simp_all
  with assms(2) show "ord \<le> freed" "ord < length (nw_buddy_orders w)" by linarith+
qed

lemma buddy_wake_ok:
  assumes "waiters_ok (w, R)"
  shows "waiters_ok (buddy_wake alive w freed, R)"
proof -
  have "0 < length (nw_buddy_orders w)" using assms by (simp add: waiters_ok_def)
  then have "\<forall>ord \<in> set (score_orders w freed). ord < length (nw_buddy_orders w)" using score_orders_subset(2) by blast
  then show ?thesis unfolding buddy_wake_def by (rule wake_orders_ok [OF assms])
qed

lemma prepare_ok:
  assumes ok: "waiters_ok (w, R)" and r: "R i = Some r" and eq: "buddy_prepare r w = (r', w')"
  shows "waiters_ok (w', R(i \<mapsto> r'))"
proof (cases "br_pending_entry r")
  case None
  then have "r' = r" "w' = w" using eq by (simp_all add: buddy_prepare_def)
  then show ?thesis using ok r by (simp add: fun_upd_idem)
next
  case (Some e)
  let ?ord = "br_order r"
  let ?s = "slot_at w ?ord"
  have ro: "reg_ok w i r" using ok r by (simp add: waiters_ok_def)
  then have i: "e = i" "\<not> br_registered r" "live w i" "br_entry r = Some i" "?ord < length (nw_buddy_orders w)"
    "i < length (nw_entries w)" "\<And>o2. o2 < length (nw_buddy_orders w) \<Longrightarrow> i \<notin> set (bo_queue (slot_at w o2))"
    using Some by (auto simp: reg_ok_def)
  define h where "h = (if bo_count ?s = 0 then we_timestamp (nw_entries w ! i) else bo_head_timestamp ?s)"
  define s' where "s' = ?s\<lparr>bo_queue := bo_queue ?s @ [i], bo_count := bo_count ?s + 1, bo_head_timestamp := h\<rparr>"
  have r': "r' = r\<lparr>br_pending_entry := None, br_registered := True\<rparr>" and w': "w' = put_slot w ?ord s'"
    using eq Some i by (auto simp: buddy_prepare_def Let_def s'_def h_def)
  have at: "slot_at w' o2 = (if o2 = ?ord then s' else slot_at w o2)" for o2
    unfolding w' using slot_at_put [OF i(5)] .
  have len: "length (nw_buddy_orders w') = length (nw_buddy_orders w)" "nw_entries w' = nw_entries w"
    by (simp_all add: w')
  have sl: "slot_ok w ?s" using ok i(5) by (simp add: waiters_ok_def)
  have hne: "h \<noteq> NO_WAITERS_TIMESTAMP"
  proof (cases "bo_count ?s = 0")
    case True
    then show ?thesis using ok i(6) by (auto simp: h_def waiters_ok_def entries_ok_def)
  next
    case False
    then have "filter (live w) (bo_queue ?s) \<noteq> []" using sl by (auto simp: slot_ok_def)
    then show ?thesis using False sl by (auto simp: h_def slot_ok_def filter_empty_conv)
  qed
  have "slot_ok w s'"
    using sl i(3,5-7) hne by (auto simp: slot_ok_def s'_def)
  then have sl': "slot_ok w' (slot_at w' o2)" if "o2 < length (nw_buddy_orders w)" for o2
    using that ok at [of o2] slot_ok_cong [OF len(2)] by (simp add: waiters_ok_def)
  have q: "set (bo_queue (slot_at w' o2)) = (if o2 = ?ord then insert i (set (bo_queue (slot_at w o2))) else set (bo_queue (slot_at w o2)))" for o2
    using at [of o2] by (simp add: s'_def)
  have rg': "reg_ok w' j r2" if asm: "(R(i \<mapsto> r')) j = Some r2" for j r2
  proof (cases "j = i")
    case True
    then have r2: "r2 = r\<lparr>br_pending_entry := None, br_registered := True\<rparr>" using asm r' by simp
    show ?thesis unfolding r2 reg_ok_def using i q [of ?ord] len True by simp
  next
    case False
    then have "reg_ok w j r2" using ok asm by (simp add: waiters_ok_def)
    then show ?thesis unfolding reg_ok_def len using q False by auto
  qed
  have lv': "\<exists>r2. (R(i \<mapsto> r')) j = Some r2 \<and> br_registered r2 \<and> br_order r2 = o2"
    if "o2 < length (nw_buddy_orders w)" "j \<in> set (bo_queue (slot_at w' o2))" "live w' j" for o2 j
  proof (cases "j = i")
    case True
    then have "o2 = ?ord" using that(1,2) q [of o2] i(7) by (auto split: if_splits)
    then show ?thesis using True r' by simp
  next
    case False
    then have "j \<in> set (bo_queue (slot_at w o2))" "live w j" using that(2,3) q [of o2] len by (auto split: if_splits)
    then show ?thesis using ok that(1) False unfolding waiters_ok_def prod.case by (metis fun_upd_other)
  qed
  have "entries_ok w'" "0 < length (nw_buddy_orders w)" using ok len by (simp_all add: waiters_ok_def entries_ok_def)
  then show ?thesis unfolding waiters_ok_def prod.case len using sl' rg' lv' len(2) by simp
qed

lemma register_ok:
  assumes ok: "waiters_ok (w, R)" and eq: "buddy_register w order now = (r, w')" and now: "now < NO_WAITERS_TIMESTAMP"
  shows "waiters_ok (w', R(length (nw_entries w) \<mapsto> r))"
proof -
  let ?i = "length (nw_entries w)"
  have r: "r = \<lparr>br_entry = Some ?i, br_rx = True, br_order = min order (length (nw_buddy_orders w) - 1),
      br_registered = False, br_pending_entry = Some ?i\<rparr>" and w': "w' = w\<lparr>nw_entries := nw_entries w @ [new_entry now]\<rparr>"
    using eq by (simp_all add: buddy_register_def Let_def)
  have n: "0 < length (nw_buddy_orders w)" using ok by (simp add: waiters_ok_def)
  have old: "nw_entries w' ! j = nw_entries w ! j" if "j < ?i" for j using that by (simp add: w' nth_append)
  have new: "nw_entries w' ! ?i = new_entry now" by (simp add: w')
  have qs: "j < ?i" if "ord < length (nw_buddy_orders w)" "j \<in> set (bo_queue (slot_at w ord))" for j ord
    using ok that by (auto simp: waiters_ok_def slot_ok_def)
  have en: "entries_ok w'"
    using ok now by (auto simp: waiters_ok_def entries_ok_def w' nth_append new_entry_def less_Suc_eq)
  have sl: "slot_ok w' (slot_at w' ord)" if "ord < length (nw_buddy_orders w)" for ord
  proof -
    have "filter (live w') (bo_queue (slot_at w ord)) = filter (live w) (bo_queue (slot_at w ord))"
      using qs [OF that] old by (intro filter_cong) auto
    moreover have "slot_ok w (slot_at w ord)" using ok that by (simp add: waiters_ok_def)
    moreover have "nw_buddy_orders w' = nw_buddy_orders w" by (simp add: w')
    ultimately show ?thesis using qs [OF that] old by (auto simp: slot_ok_def w' less_Suc_eq)
  qed
  have rg: "reg_ok w' j r2" if asm: "(R(?i \<mapsto> r)) j = Some r2" for j r2
  proof (cases "j = ?i")
    case True
    have "?i \<notin> set (bo_queue (slot_at w ord))" if "ord < length (nw_buddy_orders w)" for ord using qs [OF that] by blast
    moreover have "min order (length (nw_buddy_orders w) - 1) < length (nw_buddy_orders w)" using n by linarith
    moreover have r2: "r2 = r" using True asm by simp
    ultimately show ?thesis unfolding r2 r reg_ok_def using True new by (simp add: w' new_entry_def)
  next
    case False
    then have "reg_ok w j r2" using ok asm by (simp add: waiters_ok_def)
    moreover from this have "j < ?i" by (simp add: reg_ok_def)
    ultimately show ?thesis using old [of j] by (auto simp: reg_ok_def w')
  qed
  have lv: "\<exists>r2. (R(?i \<mapsto> r)) j = Some r2 \<and> br_registered r2 \<and> br_order r2 = ord"
    if "ord < length (nw_buddy_orders w)" "j \<in> set (bo_queue (slot_at w ord))" "live w' j" for ord j
  proof -
    have "j < ?i" using qs that(1,2) by blast
    then show ?thesis using ok that old [of j] by (auto simp: waiters_ok_def)
  qed
  have "nw_buddy_orders w' = nw_buddy_orders w" by (simp add: w')
  then show ?thesis unfolding waiters_ok_def prod.case using n en sl rg lv by simp
qed

lemma poll_ok:
  assumes ok: "waiters_ok (w, R)" and r: "R i = Some r" and rx: "rx_ready \<longrightarrow> \<not> we_tx (nw_entries w ! i)"
    and eq: "buddy_poll rx_ready r = (ready, r')"
  shows "waiters_ok (w, R(i \<mapsto> r'))"
proof (cases "br_rx r \<and> rx_ready")
  case False
  then have "r' = r" using eq by (auto simp: buddy_poll_def split: if_splits)
  then show ?thesis using ok r by (simp add: fun_upd_idem)
next
  case True
  then have r': "r' = r\<lparr>br_rx := False, br_registered := False\<rparr>" using eq by (simp add: buddy_poll_def)
  have ro: "reg_ok w i r" using ok r by (simp add: waiters_ok_def)
  then have dead: "\<not> live w i" using ok rx True by (auto simp: waiters_ok_def entries_ok_def reg_ok_def)
  have "reg_ok w i r'" using ro r' dead by (auto simp: reg_ok_def)
  moreover have "\<exists>r2. (R(i \<mapsto> r')) j = Some r2 \<and> br_registered r2 \<and> br_order r2 = ord"
    if "ord < length (nw_buddy_orders w)" "j \<in> set (bo_queue (slot_at w ord))" "live w j" for ord j
  proof -
    have "j \<noteq> i" using that(3) dead by blast
    then show ?thesis using ok that by (auto simp: waiters_ok_def)
  qed
  ultimately show ?thesis using ok unfolding waiters_ok_def prod.case fun_upd_apply by auto
qed

lemma drop_unregistered_ok:
  assumes ok: "waiters_ok (w, R)" and r: "R i = Some r" "\<not> br_registered r"
  shows "waiters_ok (w, R(i := None))"
proof -
  have "\<exists>r2. (R(i := None)) j = Some r2 \<and> br_registered r2 \<and> br_order r2 = ord"
    if asm: "ord < length (nw_buddy_orders w)" "j \<in> set (bo_queue (slot_at w ord))" "live w j" for ord j
  proof -
    obtain r2 where "R j = Some r2" "br_registered r2" "br_order r2 = ord" using ok asm unfolding waiters_ok_def prod.case by blast
    then show ?thesis using r by (cases "j = i") auto
  qed
  then show ?thesis using ok unfolding waiters_ok_def prod.case fun_upd_apply by auto
qed

text \<open>The invariant holds of every reachable state.\<close>

lemma bw_step_ok:
  assumes "bw_step s s'" "waiters_ok s"
  shows "waiters_ok s'"
  using assms
proof (induction rule: bw_step.induct)
  case (register now w order r w' R)
  then show ?case by (intro register_ok)
next
  case (prepare R i r w r' w')
  then show ?case by (intro prepare_ok)
next
  case (revoke R i r w r' w')
  then show ?case
    by (cases "br_registered r")
      (auto simp: buddy_revoke_def same_reg_def fun_upd_idem intro!: revoke_entry_ok [where R = R and i = i])
next
  case (poll R i r rx_ready w ready r')
  then show ?case by (intro poll_ok)
next
  case (drop R i r w)
  then show ?case
    by (cases "br_registered r")
      (auto simp: buddy_drop_def same_reg_def intro: drop_unregistered_ok intro!: revoke_entry_ok [where R = R and i = i])
next
  case (wake w R alive freed_order)
  then show ?case by (intro buddy_wake_ok)
qed

lemma reachable_ok:
  assumes "bw_step\<^sup>*\<^sup>* s s'" "waiters_ok s"
  shows "waiters_ok s'"
  using assms by (induction rule: rtranclp_induct) (auto intro: bw_step_ok)

subsection \<open>A sample\<close>

text \<open>Three orders and one task parked at order 1.\<close>

definition sample_empty :: NotifyWaitersInner where
  "sample_empty = \<lparr>nw_buddy_orders = replicate 3 new_order_slot, nw_streak_state = 0, nw_entries = [], nw_sent = []\<rparr>"

definition sample_registration :: BuddyRegistration where
  "sample_registration = (let (r, w) = buddy_register sample_empty 1 7 in fst (buddy_prepare r w))"

definition sample_waiting :: NotifyWaitersInner where
  "sample_waiting = (let (r, w) = buddy_register sample_empty 1 7 in snd (buddy_prepare r w))"

lemma sample_new: "new_waiters 3 = Ret sample_empty"
  by (simp add: new_waiters_def sample_empty_def)

lemma sample_reachable: "bw_step\<^sup>*\<^sup>* (sample_empty, Map.empty) (sample_waiting, [0 \<mapsto> sample_registration])"
proof -
  obtain r w where r: "buddy_register sample_empty 1 7 = (r, w)" by fastforce
  have "length (nw_entries sample_empty) = 0" by (simp add: sample_empty_def)
  then have "bw_step (sample_empty, Map.empty) (w, Map.empty(0 \<mapsto> r))"
    using bw_step.register [OF _ r, of Map.empty] by (simp add: NO_WAITERS_TIMESTAMP_def)
  moreover have "bw_step (w, Map.empty(0 \<mapsto> r)) (sample_waiting, (Map.empty(0 \<mapsto> r))(0 \<mapsto> sample_registration))"
    by (rule bw_step.prepare) (use r in \<open>simp_all add: sample_waiting_def sample_registration_def split_beta\<close>)
  ultimately show ?thesis by (metis converse_rtranclp_into_rtranclp r_into_rtranclp fun_upd_upd)
qed

lemma sample_facts:
  "br_order sample_registration = 1" "br_registered sample_registration" "live sample_waiting 0"
  "length (nw_entries sample_waiting) = 1" "bo_queue (slot_at sample_waiting 1) = [0]" "score_orders sample_waiting 2 = [1]"
proof -
  have "7 \<noteq> NO_WAITERS_TIMESTAMP" by (simp add: NO_WAITERS_TIMESTAMP_def)
  then show "br_order sample_registration = 1" "br_registered sample_registration" "live sample_waiting 0"
    "length (nw_entries sample_waiting) = 1" "bo_queue (slot_at sample_waiting 1) = [0]" "score_orders sample_waiting 2 = [1]"
    by (simp_all add: sample_registration_def sample_waiting_def sample_empty_def buddy_register_def buddy_prepare_def Let_def
        put_slot_def new_entry_def new_order_slot_def score_orders_def candidates_def numeral_2_eq_2 numeral_3_eq_3)
qed

lemma sample_waiting_ok: "waiters_ok (sample_waiting, [0 \<mapsto> sample_registration])"
  using reachable_ok [OF sample_reachable new_waiters_ok [OF sample_new]] .

subsection \<open>Properties\<close>

lemma registered_is_candidate:
  assumes "waiters_ok (w, R)" "length (nw_entries w) < 2 ^ 64" "R i = Some r" "br_registered r" "live w i" "br_order r \<le> freed"
  shows "i \<in> set (bo_queue (slot_at w (br_order r))) \<and>
    unat (bo_count (slot_at w (br_order r))) = length (filter (live w) (bo_queue (slot_at w (br_order r)))) \<and>
    br_order r \<in> fst ` set (candidates w (min freed (length (nw_buddy_orders w) - 1)))"
proof -
  let ?s = "slot_at w (br_order r)"
  note ok = assms(1)
  then have ro: "reg_ok w i r" using assms(3) by (simp add: waiters_ok_def)
  then have i: "i \<in> set (bo_queue ?s)" "br_order r < length (nw_buddy_orders w)"
    using assms(4,5) by (simp_all add: reg_ok_def)
  then have sl: "slot_ok w ?s" using ok by (simp add: waiters_ok_def)
  have "set (bo_queue ?s) \<subseteq> {..<length (nw_entries w)}" using sl by (auto simp: slot_ok_def)
  then have "card (set (bo_queue ?s)) \<le> length (nw_entries w)" using card_mono [of "{..<length (nw_entries w)}"] by simp
  then have "length (bo_queue ?s) \<le> length (nw_entries w)" using sl by (simp add: slot_ok_def distinct_card)
  then have "length (filter (live w) (bo_queue ?s)) < 2 ^ 64"
    using length_filter_le [of "live w" "bo_queue ?s"] assms(2) by linarith
  then have cnt: "unat (bo_count ?s) = length (filter (live w) (bo_queue ?s))"
    using sl by (simp add: slot_ok_def unat_of_nat)
  have "i \<in> set (filter (live w) (bo_queue ?s))" using i(1) assms(5) by simp
  then have "0 < unat (bo_count ?s)" unfolding cnt by (rule length_pos_if_in_set)
  then have "bo_count ?s \<noteq> 0" by (metis unat_0 less_irrefl)
  moreover have "bo_head_timestamp ?s \<noteq> NO_WAITERS_TIMESTAMP" using sl i(1) assms(5) by (auto simp: slot_ok_def)
  moreover have "br_order r \<le> min freed (length (nw_buddy_orders w) - 1)" using i(2) assms(6) by linarith
  ultimately show ?thesis using i(1) cnt
    by (auto simp: candidates_def less_Suc_eq_le image_iff simp del: upt_Suc)
qed



lemma deliver_sent:
  assumes "i < length (nw_entries w)" "live w i" "we_tx (nw_entries w ! i)" "alive i"
  shows "nw_sent (deliver alive freed ord i q w) = nw_sent w @ [(i, freed)]"
  using assms by (simp add: deliver_def update_head_timestamp_def put_slot_def put_entry_def take_tx_def Let_def update_streak_def)

lemma deliver_sent_mono: "set (nw_sent w) \<subseteq> set (nw_sent (deliver alive freed ord i q w))"
  by (auto simp: deliver_def update_head_timestamp_def put_slot_def put_entry_def take_tx_def Let_def update_streak_def)

lemma wake_queue_sent_mono: "set (nw_sent w) \<subseteq> set (nw_sent (snd (wake_queue alive freed ord queue pops w)))"
  using deliver_sent_mono
  by (induction alive freed ord queue pops w rule: wake_queue.induct) (auto simp: put_slot_def)

lemma wake_orders_sent_mono: "set (nw_sent w) \<subseteq> set (nw_sent (snd (wake_orders alive freed orders pops w)))"
proof (induction orders arbitrary: pops w)
  case (Cons ord orders)
  obtain pops' w' where eq: "wake_queue alive freed ord (bo_queue (slot_at w ord)) pops w = (pops', w')" by fastforce
  then show ?case using Cons.IH [of w' pops'] wake_queue_sent_mono [of w alive freed ord "bo_queue (slot_at w ord)" pops] by auto
qed simp

text \<open>C18. A wake is delivered: if the best-scoring order has fewer than eight tombstones in front of its first live
  waiter and that waiter still listens, the waiter is woken with the freed order.\<close>

theorem wake_delivers:
  assumes "waiters_ok (w, R)" "score_orders w freed = ord # orders" "bo_queue (slot_at w ord) = ts @ i # q"
    "\<forall>j \<in> set ts. \<not> live w j" "live w i" "length ts < MAX_POPS_PER_WAKE" "alive i"
  shows "(i, freed) \<in> set (nw_sent (buddy_wake alive w freed))"
proof -
  have "ord < length (nw_buddy_orders w)"
    using score_orders_subset(2) [of ord w freed] assms(1,2) by (simp add: waiters_ok_def)
  then have "slot_ok w (slot_at w ord)" using assms(1) by (simp add: waiters_ok_def)
  then have i: "i < length (nw_entries w)" using assms(3) by (simp add: slot_ok_def)
  then have tx: "we_tx (nw_entries w ! i)" using assms(1,5) by (simp add: waiters_ok_def entries_ok_def)
  have "wake_queue alive freed ord (ts @ i # q) pops w = (pops + length ts + 1, deliver alive freed ord i q w)"
    if "pops + length ts < MAX_POPS_PER_WAKE" for pops
    using that assms(4,5) by (induction ts arbitrary: pops) auto
  from this [of 0] have "wake_queue alive freed ord (bo_queue (slot_at w ord)) 0 w = (length ts + 1, deliver alive freed ord i q w)"
    using assms(3,6) by simp
  moreover have "(i, freed) \<in> set (nw_sent (deliver alive freed ord i q w))"
    using deliver_sent [of i w alive freed ord q] i assms(5) tx assms(7) by simp
  ultimately show ?thesis
    unfolding buddy_wake_def assms(2)
    using wake_orders_sent_mono [of "deliver alive freed ord i q w" alive freed orders "length ts + 1"]
    by (auto simp: MAX_POPS_PER_WAKE_def)
qed

theorem wake_delivers_witness: "(0, 2) \<in> set (nw_sent (buddy_wake (\<lambda>_. True) sample_waiting 2))"
  using wake_delivers [OF sample_waiting_ok sample_facts(6), of "[]" 0 "[]" "\<lambda>_. True"] sample_facts(3,5)
  by (simp add: MAX_POPS_PER_WAKE_def)

end
