(* ===== verification/Waiters_Props.thy ===== *)
theory Waiters_Props
  imports Waiters
begin

text \<open>
  Fairness of the scoring of \<^verbatim>\<open>NotifyWaiters\<close> and its limits: the streak ban, and the entries that
  revoked registrations leave in the queues of \<^verbatim>\<open>src/src/async_alloc.rs\<close>.
\<close>

unbundle bit_operations_syntax

subsection \<open>The streak ban\<close>

lemma packed_streak:
  fixes ord c :: nat
  assumes "ord < 2 ^ 32" "c < 2 ^ 32"
  shows "last_winner (push_bit 32 (word_of_nat ord) OR word_of_nat c) = ord"
    "streak_count (push_bit 32 (word_of_nat ord) OR word_of_nat c) = c"
proof -
  have c: "bit (word_of_nat c :: 64 word) i \<longleftrightarrow> i < 32 \<and> bit c i" for i
  proof -
    have "c = take_bit 32 c" using assms(2) by (simp add: take_bit_nat_eq_self)
    then have "bit c i \<longleftrightarrow> i < 32 \<and> bit c i" by (metis bit_take_bit_iff)
    then show ?thesis by (auto simp: bit_of_nat_iff)
  qed
  have o: "bit (word_of_nat ord :: 64 word) i \<longleftrightarrow> i < 32 \<and> bit ord i" for i
  proof -
    have "ord = take_bit 32 ord" using assms(1) by (simp add: take_bit_nat_eq_self)
    then have "bit ord i \<longleftrightarrow> i < 32 \<and> bit ord i" by (metis bit_take_bit_iff)
    then show ?thesis by (auto simp: bit_of_nat_iff)
  qed
  have "drop_bit 32 (push_bit 32 (word_of_nat ord) OR word_of_nat c) = (word_of_nat ord :: 64 word)"
    by (rule bit_word_eqI) (auto simp: bit_drop_bit_eq bit_or_iff bit_push_bit_iff c o)
  then show "last_winner (push_bit 32 (word_of_nat ord) OR word_of_nat c) = ord"
    using assms(1) by (simp add: last_winner_def unat_of_nat)
  have "take_bit 32 (push_bit 32 (word_of_nat ord) OR word_of_nat c) = (word_of_nat c :: 64 word)"
    by (rule bit_word_eqI) (auto simp: bit_take_bit_iff bit_or_iff bit_push_bit_iff c)
  then show "streak_count (push_bit 32 (word_of_nat ord) OR word_of_nat c) = c"
    using assms(2) by (simp add: streak_count_def unat_of_nat)
qed

lemma update_streak_effect:
  assumes "ord < 2 ^ 32"
  shows "last_winner (nw_streak_state (update_streak w ord)) = ord"
    "streak_count (nw_streak_state (update_streak w ord)) =
       (if last_winner (nw_streak_state w) = ord then min (streak_count (nw_streak_state w) + 1) (2 ^ 32 - 1) else 1)"
  using packed_streak [OF assms, of "min (streak_count (nw_streak_state w) + 1) (2 ^ 32 - 1)"] packed_streak [OF assms, of 1]
  by (auto simp: update_streak_def Let_def)

lemma update_streak_pow:
  assumes "ord < 2 ^ 32" "0 < n"
  shows "last_winner (nw_streak_state (((\<lambda>w. update_streak w ord) ^^ n) w)) = ord \<and>
    min n (2 ^ 32 - 1) \<le> streak_count (nw_streak_state (((\<lambda>w. update_streak w ord) ^^ n) w)) \<and>
    nw_buddy_orders (((\<lambda>w. update_streak w ord) ^^ n) w) = nw_buddy_orders w"
  using assms(2)
proof (induction n)
  case (Suc n)
  show ?case
  proof (cases "n = 0")
    case True
    then show ?thesis using update_streak_effect [OF assms(1), of w] by auto
  next
    case False
    then show ?thesis using Suc.IH update_streak_effect [OF assms(1)] by auto
  qed
qed simp


text \<open>A second task parks at order 2.\<close>

definition sample_two :: NotifyWaitersInner where
  "sample_two = (let (r, w) = buddy_register sample_waiting 2 9 in snd (buddy_prepare r w))"


subsection \<open>Entries left behind\<close>

text \<open>What an asynchronous allocation that succeeds at once does to the waiter set.\<close>

definition instant :: "nat \<Rightarrow> nat \<Rightarrow> NotifyWaitersInner \<Rightarrow> NotifyWaitersInner" where
  "instant order now_ns w =
     (let (registration, w) = buddy_register w order now_ns;
          (registration, w) = buddy_prepare registration w;
          (registration, w) = buddy_revoke registration w
      in buddy_drop registration w)"

definition dead_entry :: "nat \<Rightarrow> WaiterEntry" where
  "dead_entry now_ns = \<lparr>we_state = REVOKED, we_tx = False, we_timestamp = now_ns\<rparr>"

lemma instant_eq:
  assumes "ord < length (nw_buddy_orders w)"
  shows "instant ord now w = w\<lparr>nw_entries := nw_entries w @ [dead_entry now],
    nw_buddy_orders := (nw_buddy_orders w)[ord := (slot_at w ord)\<lparr>bo_queue := bo_queue (slot_at w ord) @ [length (nw_entries w)],
      bo_head_timestamp := (if bo_count (slot_at w ord) = 0 then now else bo_head_timestamp (slot_at w ord))\<rparr>]\<rparr>"
proof -
  have "min ord (length (nw_buddy_orders w) - 1) = ord" using assms by linarith
  moreover obtain q c h where "slot_at w ord = \<lparr>bo_queue = q, bo_count = c, bo_head_timestamp = h\<rparr>" by (cases "slot_at w ord") blast
  ultimately show ?thesis using assms
    by (simp add: instant_def buddy_register_def buddy_prepare_def buddy_revoke_def buddy_drop_def revoke_entry_def Let_def
        put_slot_def put_entry_def take_tx_def new_entry_def dead_entry_def)
qed

lemma instant_pow:
  assumes "ord < k" "new_waiters k = Ret w0"
  shows "nw_entries ((instant ord now ^^ n) w0) = replicate n (dead_entry now) \<and>
    nw_buddy_orders ((instant ord now ^^ n) w0) = (replicate k new_order_slot)[ord := new_order_slot\<lparr>bo_queue := [0..<n],
      bo_head_timestamp := (if n = 0 then NO_WAITERS_TIMESTAMP else now)\<rparr>] \<and>
    nw_sent ((instant ord now ^^ n) w0) = [] \<and> nw_streak_state ((instant ord now ^^ n) w0) = 0"
proof (induction n)
  case 0
  then show ?case using assms
    by (auto simp: new_waiters_def new_order_slot_def list_update_same_conv [THEN iffD2] split: if_splits)
next
  case (Suc n)
  then show ?case using assms(1)
    by (simp add: instant_eq new_order_slot_def replicate_append_same)
qed

text \<open>A task that parks behind these entries.\<close>

definition parked_behind :: "nat \<Rightarrow> nat \<Rightarrow> nat \<Rightarrow> NotifyWaitersInner \<Rightarrow> BuddyRegistration \<times> NotifyWaitersInner" where
  "parked_behind ord now n w0 =
     (let (r, w) = buddy_register ((instant ord now ^^ n) w0) ord now in buddy_prepare r w)"

lemma parked_behind_state:
  assumes "ord < k" "new_waiters k = Ret w0" "parked_behind ord now n w0 = (r, w)"
  shows "br_registered r" "nw_entries w = replicate n (dead_entry now) @ [new_entry now]"
    "nw_buddy_orders w = (replicate k new_order_slot)[ord := \<lparr>bo_queue = [0..<Suc n], bo_count = 1, bo_head_timestamp = now\<rparr>]"
    "nw_sent w = []" "nw_streak_state w = 0"
proof -
  define wn where "wn = (instant ord now ^^ n) w0"
  have st: "nw_entries wn = replicate n (dead_entry now)" "nw_sent wn = []" "nw_streak_state wn = 0"
    "nw_buddy_orders wn = (replicate k new_order_slot)[ord := new_order_slot\<lparr>bo_queue := [0..<n],
      bo_head_timestamp := (if n = 0 then NO_WAITERS_TIMESTAMP else now)\<rparr>]"
    using instant_pow [OF assms(1,2), where now = now and n = n] by (simp_all add: wn_def)
  have "min ord (k - Suc 0) = ord" using assms(1) by linarith
  moreover have "buddy_prepare (fst (buddy_register wn ord now)) (snd (buddy_register wn ord now)) = (r, w)"
    using assms(3) by (simp add: parked_behind_def wn_def split_beta)
  ultimately show "br_registered r" "nw_entries w = replicate n (dead_entry now) @ [new_entry now]"
    "nw_buddy_orders w = (replicate k new_order_slot)[ord := \<lparr>bo_queue = [0..<Suc n], bo_count = 1, bo_head_timestamp = now\<rparr>]"
    "nw_sent w = []" "nw_streak_state w = 0"
    using assms(1)
    by (auto simp: st buddy_register_def buddy_prepare_def Let_def put_slot_def new_entry_def new_order_slot_def
        nth_append)
qed

lemma upt_split_at:
  assumes "a \<le> m"
  shows "[0..<Suc m] = [0..<a] @ a # [Suc a..<Suc m]"
proof -
  have "[0..<Suc m] = [0..<a] @ [a..<Suc m]" using assms upt_add_eq_append [of 0 a "Suc m - a"] by (simp del: upt_Suc)
  also have "[a..<Suc m] = a # [Suc a..<Suc m]" using assms by (intro upt_conv_Cons) simp
  finally show ?thesis .
qed

lemma only_candidate:
  assumes "ord < k" "ord \<le> freed" "now \<noteq> NO_WAITERS_TIMESTAMP" "nw_streak_state w = 0"
    "nw_buddy_orders w = (replicate k new_order_slot)[ord := \<lparr>bo_queue = q, bo_count = 1, bo_head_timestamp = now\<rparr>]"
  shows "score_orders w freed = [ord]"
proof -
  let ?mx = "min freed (k - 1)"
  have "ord \<le> ?mx" using assms(1,2) by linarith
  then have split: "[0..<Suc ?mx] = [0..<ord] @ ord # [Suc ord..<Suc ?mx]" by (rule upt_split_at)
  have other: "bo_count (slot_at w i) = 0" if "i \<noteq> ord" "i < k" for i using that assms(5) by (simp add: new_order_slot_def)
  let ?P = "\<lambda>i. bo_count (slot_at w i) \<noteq> 0 \<and> bo_head_timestamp (slot_at w i) \<noteq> NO_WAITERS_TIMESTAMP"
  have mx: "?mx < k" using assms(1) by linarith
  have "filter ?P [0..<ord] = []" using other assms(1) by (auto simp: filter_empty_conv)
  moreover have "filter ?P [Suc ord..<Suc ?mx] = []" using other mx by (auto simp: filter_empty_conv simp del: upt_Suc)
  moreover have "?P ord" using assms(1,3,5) by simp
  ultimately have P: "filter ?P [0..<Suc ?mx] = [ord]" unfolding split by (simp del: upt_Suc)
  have "candidates w ?mx = [(ord, effective_age ord (slot_at w ord))]" unfolding candidates_def P by simp
  then show ?thesis using assms(4,5) by (simp add: score_orders_def Let_def)
qed

text \<open>C19. Asynchronous allocations that succeed at once leave a dead entry each in the queue of their order, where no
  wake removes it while nobody waits. After eight of them a task that parks is not woken by a release: the
  release uses up its eight pops on dead entries and sends nothing, although the task waits and is live.\<close>

theorem tombstones_hide_waiter:
  assumes "ord < k" "new_waiters k = Ret w0" "now < NO_WAITERS_TIMESTAMP" "MAX_POPS_PER_WAKE \<le> n" "ord \<le> freed"
    "parked_behind ord now n w0 = (r, w)"
  shows "bo_queue (slot_at ((instant ord now ^^ n) w0) ord) = [0..<n] \<and> (\<forall>alive. buddy_wake alive ((instant ord now ^^ n) w0) freed = (instant ord now ^^ n) w0) \<and>
    br_registered r \<and> live w n \<and> n \<in> set (bo_queue (slot_at w ord)) \<and> nw_sent (buddy_wake alive w freed) = []"
proof -
  have ne: "now \<noteq> NO_WAITERS_TIMESTAMP" using assms(3) by simp
  note st = instant_pow [OF assms(1,2), where now = now and n = n] and pk = parked_behind_state [OF assms(1,2,6)]
  have slot: "slot_at w ord = \<lparr>bo_queue = [0..<Suc n], bo_count = 1, bo_head_timestamp = now\<rparr>"
    using assms(1) unfolding pk(3) by simp
  have dead: "\<not> live w i" if "i < n" for i using that by (simp add: pk(2) nth_append dead_entry_def)
  have lv: "live w n" by (simp add: pk(2) nth_append new_entry_def)
  have "nw_sent (snd (wake_queue alive freed ord [0..<Suc n] 0 w)) = []"
  proof (cases rule: wake_queue_cases [of "[0..<Suc n]" w 0 alive freed ord])
    case (stopped ts q)
    then show ?thesis by (simp add: put_slot_def pk(4))
  next
    case (delivered ts i q)
    have "i \<in> set [0..<Suc n]" unfolding delivered(1) by simp
    then have "i = n" using dead [of i] delivered(3) by (auto simp: less_Suc_eq)
    moreover have "length ts < Suc n" using arg_cong [OF delivered(1), of length] by simp
    then have "i = length ts" using arg_cong [OF delivered(1), of "\<lambda>xs. xs ! length ts"] by (simp del: upt_Suc)
    ultimately show ?thesis using delivered(4) assms(4) by simp
  qed
  then have "nw_sent (buddy_wake alive w freed) = []"
    unfolding buddy_wake_def only_candidate [OF assms(1,5) ne pk(5,3)] using slot
    by (simp add: MAX_POPS_PER_WAKE_def split_beta del: upt_Suc)
  moreover have "score_orders ((instant ord now ^^ n) w0) freed = []"
  proof -
    have "bo_count (slot_at ((instant ord now ^^ n) w0) i) = 0" if "i < k" for i
      using that st assms(1) by (auto simp: nth_list_update new_order_slot_def)
    moreover have "min freed (k - 1) < k" using assms(1) by linarith
    ultimately have "candidates ((instant ord now ^^ n) w0) (min freed (k - 1)) = []"
      by (auto simp: candidates_def filter_empty_conv simp del: upt_Suc)
    then show ?thesis using st by (simp add: score_orders_def Let_def)
  qed
  moreover have "bo_queue (slot_at ((instant ord now ^^ n) w0) ord) = [0..<n]" using st assms(1) by simp
  ultimately show ?thesis using pk(1) lv slot by (simp add: buddy_wake_def)
qed

theorem tombstones_hide_waiter_witness:
  "\<exists>r w. parked_behind 1 7 8 sample_empty = (r, w) \<and> live w 8 \<and> nw_sent (buddy_wake (\<lambda>_. True) w 2) = []"
proof -
  obtain r w where p: "parked_behind 1 7 8 sample_empty = (r, w)" by fastforce
  then show ?thesis
    using tombstones_hide_waiter [OF _ sample_new, of 1 7 8 2 r w "\<lambda>_. True"]
    by (simp add: NO_WAITERS_TIMESTAMP_def MAX_POPS_PER_WAKE_def)
qed

subsection \<open>The work of a wake\<close>

definition woken_ok :: "NotifyWaitersInner \<Rightarrow> (nat \<rightharpoonup> BuddyRegistration) \<Rightarrow> (nat \<Rightarrow> bool) \<Rightarrow> nat \<Rightarrow> nat \<times> nat \<Rightarrow> bool" where
  "woken_ok w R alive freed = (\<lambda>(i, f). f = freed \<and> alive i \<and> live w i \<and>
     (\<exists>r. R i = Some r \<and> br_registered r \<and> br_order r \<le> freed))"

lemma deliver_sent_cases:
  "nw_sent (deliver alive freed ord i q w) = nw_sent w \<or> alive i \<and> nw_sent (deliver alive freed ord i q w) = nw_sent w @ [(i, freed)]"
  by (simp add: deliver_def update_head_timestamp_def put_slot_def put_entry_def take_tx_def Let_def update_streak_def)

lemma wake_queue_pops:
  "pops \<le> MAX_POPS_PER_WAKE \<Longrightarrow> fst (wake_queue alive freed ord queue pops w) \<le> MAX_POPS_PER_WAKE"
  by (induction alive freed ord queue pops w rule: wake_queue.induct) auto

text \<open>The wakes \<open>new\<close> of the state \<open>w\<close> that lead to \<open>w'\<close>.\<close>

definition wakes_sent ::
    "(nat \<rightharpoonup> BuddyRegistration) \<Rightarrow> (nat \<Rightarrow> bool) \<Rightarrow> nat \<Rightarrow> NotifyWaitersInner \<Rightarrow> (nat \<times> nat) list \<Rightarrow> NotifyWaitersInner \<Rightarrow> bool" where
  "wakes_sent R alive freed w new w' \<longleftrightarrow>
     nw_sent w' = nw_sent w @ new \<and> (\<forall>x \<in> set new. woken_ok w R alive freed x) \<and>
     length (nw_entries w') = length (nw_entries w) \<and> (\<forall>j < length (nw_entries w). live w' j \<longrightarrow> live w j)"

lemma wake_queue_sent:
  assumes ok: "waiters_ok (w, R)" and ord: "ord < length (nw_buddy_orders w)" "ord \<le> freed" and p: "pops \<le> MAX_POPS_PER_WAKE"
    and eq: "wake_queue alive freed ord (bo_queue (slot_at w ord)) pops w = (pops', w')"
  shows "\<exists>new. wakes_sent R alive freed w new w' \<and> pops + length new \<le> pops' \<and> pops' \<le> MAX_POPS_PER_WAKE"
proof -
  have p': "pops' \<le> MAX_POPS_PER_WAKE" using wake_queue_pops [OF p, of alive freed ord "bo_queue (slot_at w ord)" w] eq by simp
  show ?thesis
  proof (cases rule: wake_queue_cases [of "bo_queue (slot_at w ord)" w pops alive freed ord])
    case (stopped ts q)
    then show ?thesis using eq p' by (intro exI [of _ "[]"]) (auto simp: wakes_sent_def put_slot_def)
  next
    case (delivered ts i q)
    have sl: "slot_ok w (slot_at w ord)" using ok ord(1) by (simp add: waiters_ok_def)
    then have i: "i < length (nw_entries w)" "i \<notin> set q" using delivered(1) by (auto simp: slot_ok_def)
    have w': "w' = deliver alive freed ord i q w" "pops' = pops + length ts + 1" using eq delivered(5) by simp_all
    have "nw_entries w' = nw_entries (put_entry w i ((nw_entries w ! i)\<lparr>we_state := WOKEN, we_tx := False\<rparr>))"
      unfolding w'(1) by (rule deliver_fields [OF i(1) ord(1) i(2)])
    then have lv: "length (nw_entries w') = length (nw_entries w)" "live w' j \<longrightarrow> live w j" for j
      using i(1) by (simp_all add: entry_at_put)
    have "i \<in> set (bo_queue (slot_at w ord))" unfolding delivered(1) by simp
    then obtain r where "R i = Some r" "br_registered r" "br_order r = ord"
      using ok ord(1) delivered(3) unfolding waiters_ok_def prod.case by blast
    then have wk: "alive i \<Longrightarrow> woken_ok w R alive freed (i, freed)" using ord(2) delivered(3) by (simp add: woken_ok_def)
    from deliver_sent_cases [of alive freed ord i q w] show ?thesis
    proof
      assume "nw_sent (deliver alive freed ord i q w) = nw_sent w"
      then show ?thesis using lv p' w' by (intro exI [of _ "[]"]) (simp add: wakes_sent_def)
    next
      assume "alive i \<and> nw_sent (deliver alive freed ord i q w) = nw_sent w @ [(i, freed)]"
      then show ?thesis using lv p' w' wk by (intro exI [of _ "[(i, freed)]"]) (simp add: wakes_sent_def)
    qed
  qed
qed

lemma wakes_sent_trans:
  assumes "wakes_sent R alive freed w new w'" "wakes_sent R alive freed w' new' w''"
    "\<And>i r. R i = Some r \<Longrightarrow> i < length (nw_entries w)"
  shows "wakes_sent R alive freed w (new @ new') w''"
  using assms unfolding wakes_sent_def woken_ok_def by fastforce

lemma wake_orders_sent:
  assumes "waiters_ok (w, R)" "\<forall>ord \<in> set orders. ord < length (nw_buddy_orders w) \<and> ord \<le> freed" "pops \<le> MAX_POPS_PER_WAKE"
  shows "\<exists>new. wakes_sent R alive freed w new (snd (wake_orders alive freed orders pops w)) \<and> pops + length new \<le> MAX_POPS_PER_WAKE"
  using assms
proof (induction orders arbitrary: pops w)
  case Nil
  then show ?case by (intro exI [of _ "[]"]) (simp add: wakes_sent_def)
next
  case (Cons ord orders)
  obtain pops' w' where eq: "wake_queue alive freed ord (bo_queue (slot_at w ord)) pops w = (pops', w')" by fastforce
  have ord: "ord < length (nw_buddy_orders w)" "ord \<le> freed" using Cons.prems(2) by simp_all
  obtain new where new: "wakes_sent R alive freed w new w'" "pops + length new \<le> pops'" "pops' \<le> MAX_POPS_PER_WAKE"
    using wake_queue_sent [OF Cons.prems(1) ord Cons.prems(3) eq] by blast
  have ok: "waiters_ok (w', R)" "length (nw_buddy_orders w') = length (nw_buddy_orders w)"
    using wake_queue_ok [OF Cons.prems(1) ord(1) eq] by blast+
  have rng: "i < length (nw_entries w)" if "R i = Some r" for i r
    using Cons.prems(1) that by (auto simp: waiters_ok_def reg_ok_def)
  show ?case
  proof (cases "MAX_POPS_PER_WAKE \<le> pops")
    case True
    then show ?thesis using Cons.prems(3) by (intro exI [of _ "[]"]) (simp add: wakes_sent_def)
  next
    case False
    obtain new' where "wakes_sent R alive freed w' new' (snd (wake_orders alive freed orders pops' w'))"
      "pops' + length new' \<le> MAX_POPS_PER_WAKE"
      using Cons.IH [OF ok(1) _ new(3)] Cons.prems(2) ok(2) by auto
    then show ?thesis using False wakes_sent_trans [OF new(1) _ rng] new(2) eq by (intro exI [of _ "new @ new'"]) simp
  qed
qed

text \<open>C21. The work of a wake is bounded and well directed: it sends at most eight wakes, each with the freed order, to
  tasks that are parked, not yet woken, and wait for an order the freed block can serve.\<close>

theorem wake_bounded:
  assumes "waiters_ok (w, R)"
  shows "\<exists>new. nw_sent (buddy_wake alive w freed) = nw_sent w @ new \<and> length new \<le> MAX_POPS_PER_WAKE \<and>
    (\<forall>(i, f) \<in> set new. f = freed \<and> alive i \<and> live w i \<and> (\<exists>r. R i = Some r \<and> br_registered r \<and> br_order r \<le> freed))"
proof -
  have "0 < length (nw_buddy_orders w)" using assms by (simp add: waiters_ok_def)
  then have "\<forall>ord \<in> set (score_orders w freed). ord < length (nw_buddy_orders w) \<and> ord \<le> freed"
    using score_orders_subset by blast
  from wake_orders_sent [OF assms this, of 0 alive] show ?thesis
    unfolding buddy_wake_def wakes_sent_def woken_ok_def by auto
qed

theorem wake_bounded_witness:
  "\<exists>new. nw_sent (buddy_wake (\<lambda>_. True) sample_waiting 2) = nw_sent sample_waiting @ new \<and> length new \<le> 8"
  using wake_bounded [OF sample_waiting_ok, of "\<lambda>_. True" 2] by (auto simp: MAX_POPS_PER_WAKE_def)

end
