(* ===== verification/Fixed_Waiters.thy ===== *)
theory Fixed_Waiters
  imports Allocation
begin

text \<open>
  Asynchronous allocation from a fixed arena: the fixed slot of \<^verbatim>\<open>NotifyWaiters\<close>, \<^verbatim>\<open>NotifyRegistration\<close>,
  the loop \<^verbatim>\<open>allocate_with_waiter\<close> and \<^verbatim>\<open>AsyncFixedArena\<close> of \<^verbatim>\<open>src/src/async_alloc.rs\<close>.

  \<^verbatim>\<open>tokio::sync::Notify\<close> is a parameter; what its documentation says of it is the predicate \<open>notify_ok\<close>.
  The operations are written as the sequence of their atomic accesses to the shared state, and tasks and
  releases interleave at that grain: a step of the system is one access.
\<close>

subsection \<open>The notification primitive\<close>

record 'n Notify =
  nt_new :: 'n
  nt_notified_owned :: "'n \<Rightarrow> nat \<times> 'n"
  nt_enable :: "nat \<Rightarrow> 'n \<Rightarrow> bool \<times> 'n"
  nt_poll :: "nat \<Rightarrow> 'n \<Rightarrow> bool \<times> 'n"
  nt_notify_one :: "'n \<Rightarrow> 'n"
  nt_drop :: "nat \<Rightarrow> 'n \<Rightarrow> 'n"

text \<open>
  What can be observed of it: the stored permit, the queue of waiting futures, the futures that were
  notified and not polled since, and those that have completed. Futures are named in the order of their
  creation.
\<close>

record notify_view =
  nv_permit :: bool
  nv_waiting :: "nat list"
  nv_notified :: "nat list"
  nv_done :: "nat list"
  nv_next :: nat

definition view_new :: notify_view where
  "view_new = \<lparr>nv_permit = False, nv_waiting = [], nv_notified = [], nv_done = [], nv_next = 0\<rparr>"

definition view_notified :: "notify_view \<Rightarrow> nat \<times> notify_view" where
  "view_notified v = (nv_next v, v\<lparr>nv_next := nv_next v + 1\<rparr>)"

text \<open>Polling: a notified future completes, a new one takes the permit or joins the queue.\<close>

definition view_poll :: "nat \<Rightarrow> notify_view \<Rightarrow> bool \<times> notify_view" where
  "view_poll f v =
     (if f \<in> set (nv_done v) then (True, v)
      else if f \<in> set (nv_notified v) then (True, v\<lparr>nv_notified := remove1 f (nv_notified v), nv_done := f # nv_done v\<rparr>)
      else if f \<in> set (nv_waiting v) then (False, v)
      else if nv_permit v then (True, v\<lparr>nv_permit := False, nv_done := f # nv_done v\<rparr>)
      else (False, v\<lparr>nv_waiting := nv_waiting v @ [f]\<rparr>))"

text \<open>The oldest waiting future is notified; without one the permit is stored.\<close>

definition view_notify_one :: "notify_view \<Rightarrow> notify_view" where
  "view_notify_one v =
     (case nv_waiting v of
        [] \<Rightarrow> v\<lparr>nv_permit := True\<rparr>
      | f # q \<Rightarrow> v\<lparr>nv_waiting := q, nv_notified := f # nv_notified v\<rparr>)"

text \<open>A dropped future leaves the queue; a notification it did not use goes to the next one.\<close>

definition view_drop :: "nat \<Rightarrow> notify_view \<Rightarrow> notify_view" where
  "view_drop f v =
     (if f \<in> set (nv_notified v) then view_notify_one (v\<lparr>nv_notified := remove1 f (nv_notified v)\<rparr>)
      else v\<lparr>nv_waiting := removeAll f (nv_waiting v)\<rparr>)"

definition notify_ok :: "'n Notify \<Rightarrow> ('n \<Rightarrow> notify_view) \<Rightarrow> bool" where
  "notify_ok N view \<longleftrightarrow>
     view (nt_new N) = view_new \<and>
     (\<forall>n. fst (nt_notified_owned N n) = fst (view_notified (view n)) \<and>
          view (snd (nt_notified_owned N n)) = snd (view_notified (view n))) \<and>
     (\<forall>f n. fst (nt_enable N f n) = fst (view_poll f (view n)) \<and> view (snd (nt_enable N f n)) = snd (view_poll f (view n))) \<and>
     (\<forall>f n. fst (nt_poll N f n) = fst (view_poll f (view n)) \<and> view (snd (nt_poll N f n)) = snd (view_poll f (view n))) \<and>
     (\<forall>n. view (nt_notify_one N n) = view_notify_one (view n)) \<and>
     (\<forall>f n. view (nt_drop N f n) = view_drop f (view n))"

text \<open>The specification is its own implementation.\<close>

definition list_notify :: "notify_view Notify" where
  "list_notify = \<lparr>nt_new = view_new, nt_notified_owned = view_notified, nt_enable = view_poll, nt_poll = view_poll,
     nt_notify_one = view_notify_one, nt_drop = view_drop\<rparr>"

lemma list_notify_ok: "notify_ok list_notify id"
  by (simp add: notify_ok_def list_notify_def)

subsection \<open>The fixed slot and its registrations\<close>

record 'n FixedOrderSlot =
  fs_notify :: 'n
  fs_count :: usize

definition new_fixed_slot :: "'n Notify \<Rightarrow> 'n FixedOrderSlot" where
  "new_fixed_slot N = \<lparr>fs_notify = nt_new N, fs_count = 0\<rparr>"

record NotifyRegistration =
  nr_future :: nat
  nr_registered :: bool
  nr_woken :: bool

definition register :: "'n Notify \<Rightarrow> 'n FixedOrderSlot \<Rightarrow> NotifyRegistration \<times> 'n FixedOrderSlot" where
  "register N s =
     (let (future, n) = nt_notified_owned N (fs_notify s)
      in (\<lparr>nr_future = future, nr_registered = False, nr_woken = False\<rparr>, s\<lparr>fs_notify := n\<rparr>))"

text \<open>\<open>wake\<close>: the load of the count, and the notification it guards.\<close>

definition anyone_waiting :: "'n FixedOrderSlot \<Rightarrow> bool" where
  "anyone_waiting s \<longleftrightarrow> fs_count s \<noteq> 0"

definition notify_one :: "'n Notify \<Rightarrow> 'n FixedOrderSlot \<Rightarrow> 'n FixedOrderSlot" where
  "notify_one N s = s\<lparr>fs_notify := nt_notify_one N (fs_notify s)\<rparr>"

definition wake :: "'n Notify \<Rightarrow> 'n FixedOrderSlot \<Rightarrow> 'n FixedOrderSlot" where
  "wake N s = (if anyone_waiting s then notify_one N s else s)"

definition enable_future :: "'n Notify \<Rightarrow> NotifyRegistration \<Rightarrow> 'n FixedOrderSlot \<Rightarrow> 'n FixedOrderSlot" where
  "enable_future N r s = s\<lparr>fs_notify := snd (nt_enable N (nr_future r) (fs_notify s))\<rparr>"

definition count_up :: "NotifyRegistration \<Rightarrow> 'n FixedOrderSlot \<Rightarrow> NotifyRegistration \<times> 'n FixedOrderSlot" where
  "count_up r s = (if nr_registered r then (r, s) else (r\<lparr>nr_registered := True\<rparr>, s\<lparr>fs_count := fs_count s + 1\<rparr>))"

definition count_down :: "NotifyRegistration \<Rightarrow> 'n FixedOrderSlot \<Rightarrow> NotifyRegistration \<times> 'n FixedOrderSlot" where
  "count_down r s = (if nr_registered r then (r\<lparr>nr_registered := False\<rparr>, s\<lparr>fs_count := fs_count s - 1\<rparr>) else (r, s))"

definition prepare :: "'n Notify \<Rightarrow> NotifyRegistration \<Rightarrow> 'n FixedOrderSlot \<Rightarrow> NotifyRegistration \<times> 'n FixedOrderSlot" where
  "prepare N r s = count_up r (enable_future N r s)"

definition revoke :: "NotifyRegistration \<Rightarrow> 'n FixedOrderSlot \<Rightarrow> NotifyRegistration \<times> 'n FixedOrderSlot" where
  "revoke r s = (let (r, s) = count_down r s in (r\<lparr>nr_woken := False\<rparr>, s))"

definition poll_future :: "'n Notify \<Rightarrow> NotifyRegistration \<Rightarrow> 'n FixedOrderSlot \<Rightarrow> bool \<times> 'n FixedOrderSlot" where
  "poll_future N r s = (let (ready, n) = nt_poll N (nr_future r) (fs_notify s) in (ready, s\<lparr>fs_notify := n\<rparr>))"

definition poll_ready :: "NotifyRegistration \<Rightarrow> 'n FixedOrderSlot \<Rightarrow> NotifyRegistration \<times> 'n FixedOrderSlot" where
  "poll_ready r s = (let (r, s) = count_down r s in (r\<lparr>nr_woken := True\<rparr>, s))"

definition poll ::
    "'n Notify \<Rightarrow> NotifyRegistration \<Rightarrow> 'n FixedOrderSlot \<Rightarrow> bool \<times> NotifyRegistration \<times> 'n FixedOrderSlot" where
  "poll N r s =
     (let (ready, s) = poll_future N r s
      in if ready then let (r, s) = poll_ready r s in (True, r, s) else (False, r, s))"

text \<open>\<open>drop\<close>: the body of \<^verbatim>\<open>Drop\<close>, then the drop of the future.\<close>

definition drop_future :: "'n Notify \<Rightarrow> NotifyRegistration \<Rightarrow> 'n FixedOrderSlot \<Rightarrow> 'n FixedOrderSlot" where
  "drop_future N r s = s\<lparr>fs_notify := nt_drop N (nr_future r) (fs_notify s)\<rparr>"

definition drop_registration :: "'n Notify \<Rightarrow> NotifyRegistration \<Rightarrow> 'n FixedOrderSlot \<Rightarrow> 'n FixedOrderSlot" where
  "drop_registration N r s =
     (let (r, s) = count_down r s;
          s = (if nr_woken r \<and> anyone_waiting s then notify_one N s else s)
      in drop_future N r s)"

subsection \<open>Tasks\<close>

record ('d, 'n) AsyncFixedArena =
  af_inner :: "'d ArenaInner"
  af_waiters :: "'n FixedOrderSlot"

definition build_async_fixed ::
    "'n Notify \<Rightarrow> externals \<Rightarrow> profile \<Rightarrow> FixedArenaBuilder \<Rightarrow> (BuildError + ('d, 'n) AsyncFixedArena) outcome" where
  "build_async_fixed N E p b =
     obind (build_fixed_async_with E p b) (\<lambda>r.
       Ret (map_sum id (\<lambda>a. \<lparr>af_inner = a, af_waiters = new_fixed_slot N\<rparr>) r))"

definition deref_async_fixed :: "('d, 'n) AsyncFixedArena \<Rightarrow> 'd ArenaInner" where
  "deref_async_fixed af = af_inner af"

text \<open>
  Where a task in \<^verbatim>\<open>allocate_async\<close> stands between two accesses to shared state. A registration is
  dropped at the end of an iteration, on return and on cancellation; \<open>cont\<close> says which of them goes on
  afterwards.
\<close>

datatype cont = Again | Return "unit Buffer" | Cancelled

datatype phase =
    Begin
  | Registered NotifyRegistration
  | Enabled NotifyRegistration
  | Prepared NotifyRegistration
  | Parked NotifyRegistration
  | Ready NotifyRegistration
  | Got "unit Buffer" NotifyRegistration
  | Dropping cont NotifyRegistration
  | Loading cont NotifyRegistration
  | Notifying cont NotifyRegistration
  | Leaving cont NotifyRegistration
  | Finished "unit Buffer"
  | Gone

fun resume :: "cont \<Rightarrow> phase" where
  "resume Again = Begin"
| "resume (Return buf) = Finished buf"
| "resume Cancelled = Gone"

text \<open>One access of a task, which may be a poll that stays pending. \<open>allocate\<close> is one access.\<close>

fun task_step ::
    "'n Notify \<Rightarrow> externals \<Rightarrow> profile \<Rightarrow> phase \<Rightarrow> ('d, 'n) AsyncFixedArena \<Rightarrow> (phase \<times> ('d, 'n) AsyncFixedArena) outcome" where
  "task_step N E p Begin af =
     (let (r, s) = register N (af_waiters af) in Ret (Registered r, af\<lparr>af_waiters := s\<rparr>))"
| "task_step N E p (Registered r) af =
     Ret (Enabled r, af\<lparr>af_waiters := enable_future N r (af_waiters af)\<rparr>)"
| "task_step N E p (Enabled r) af =
     (let (r, s) = count_up r (af_waiters af) in Ret (Prepared r, af\<lparr>af_waiters := s\<rparr>))"
| "task_step N E p (Prepared r) af =
     obind (allocate_fixed E p (af_inner af) :: (unit, 'd) fixed_result) (\<lambda>(res, a).
       Ret (case res of
              Inl e \<Rightarrow> Parked r
            | Inr buf \<Rightarrow> Got buf r,
            af\<lparr>af_inner := a\<rparr>))"
| "task_step N E p (Parked r) af =
     (let (ready, s) = poll_future N r (af_waiters af)
      in Ret (if ready then Ready r else Parked r, af\<lparr>af_waiters := s\<rparr>))"
| "task_step N E p (Ready r) af =
     (let (r, s) = poll_ready r (af_waiters af) in Ret (Dropping Again r, af\<lparr>af_waiters := s\<rparr>))"
| "task_step N E p (Got buf r) af =
     (let (r, s) = revoke r (af_waiters af) in Ret (Dropping (Return buf) r, af\<lparr>af_waiters := s\<rparr>))"
| "task_step N E p (Dropping c r) af =
     (let (r, s) = count_down r (af_waiters af) in Ret (Loading c r, af\<lparr>af_waiters := s\<rparr>))"
| "task_step N E p (Loading c r) af =
     Ret (if nr_woken r \<and> anyone_waiting (af_waiters af) then Notifying c r else Leaving c r, af)"
| "task_step N E p (Notifying c r) af = Ret (Leaving c r, af\<lparr>af_waiters := notify_one N (af_waiters af)\<rparr>)"
| "task_step N E p (Leaving c r) af = Ret (resume c, af\<lparr>af_waiters := drop_future N r (af_waiters af)\<rparr>)"
| "task_step N E p (Finished buf) af = Ret (Finished buf, af)"
| "task_step N E p Gone af = Ret (Gone, af)"

text \<open>
  The whole system: the arena, the tasks that have been polled, the allocations in use, and the releases
  that have freed their slot and have yet to load the count (\<open>sy_wakes\<close>) or, having found it positive, to
  notify (\<open>sy_notifies\<close>).
\<close>

record ('d, 'n) async_system =
  sy_arena :: "('d, 'n) AsyncFixedArena"
  sy_tasks :: "phase list"
  sy_live :: "AllocationKind set"
  sy_wakes :: nat
  sy_notifies :: nat

definition start_system :: "('d, 'n) AsyncFixedArena \<Rightarrow> AllocationKind set \<Rightarrow> ('d, 'n) async_system" where
  "start_system af L = \<lparr>sy_arena = af, sy_tasks = [], sy_live = L, sy_wakes = 0, sy_notifies = 0\<rparr>"

fun gained :: "phase \<Rightarrow> AllocationKind set" where
  "gained (Got buf r) = {buf_allocation buf}"
| "gained ph = {}"

text \<open>A step of one task; a task can be cancelled where it awaits.\<close>

inductive task_moves :: "'n Notify \<Rightarrow> externals \<Rightarrow> profile \<Rightarrow> ('d, 'n) async_system \<Rightarrow> ('d, 'n) async_system \<Rightarrow> bool"
  for N E p where
  move: "t < length (sy_tasks s) \<Longrightarrow> task_step N E p (sy_tasks s ! t) (sy_arena s) = Ret (ph, af) \<Longrightarrow>
    task_moves N E p s (s\<lparr>sy_arena := af, sy_tasks := (sy_tasks s)[t := ph], sy_live := sy_live s \<union> gained ph\<rparr>)"

inductive sys_step :: "'n Notify \<Rightarrow> externals \<Rightarrow> profile \<Rightarrow> ('d, 'n) async_system \<Rightarrow> ('d, 'n) async_system \<Rightarrow> bool"
  for N E p where
  spawn: "sys_step N E p s (s\<lparr>sy_tasks := sy_tasks s @ [Begin]\<rparr>)"
| task: "task_moves N E p s s' \<Longrightarrow> sys_step N E p s s'"
| cancel: "t < length (sy_tasks s) \<Longrightarrow> sy_tasks s ! t = Parked r \<Longrightarrow>
    sys_step N E p s (s\<lparr>sy_tasks := (sy_tasks s)[t := Dropping Cancelled r]\<rparr>)"
| allocate: "(allocate_fixed E p (deref_async_fixed (sy_arena s)) :: (unit, 'd) fixed_result) = Ret (res, a) \<Longrightarrow>
    sys_step N E p s (s\<lparr>sy_arena := (sy_arena s)\<lparr>af_inner := a\<rparr>,
      sy_live := sy_live s \<union> (case res of Inl e \<Rightarrow> {} | Inr buf \<Rightarrow> {buf_allocation buf})\<rparr>)"
| release: "k \<in> sy_live s \<Longrightarrow> release E p (Fixed (af_inner (sy_arena s))) k = Ret (w, Fixed a) \<Longrightarrow>
    sys_step N E p s (s\<lparr>sy_arena := (sy_arena s)\<lparr>af_inner := a\<rparr>, sy_live := sy_live s - {k},
      sy_wakes := sy_wakes s + (if w = Some WakeSlot then 1 else 0)\<rparr>)"
| load: "sy_wakes s = Suc n \<Longrightarrow>
    sys_step N E p s (s\<lparr>sy_wakes := n, sy_notifies := sy_notifies s + (if anyone_waiting (af_waiters (sy_arena s)) then 1 else 0)\<rparr>)"
| notify: "sy_notifies s = Suc n \<Longrightarrow>
    sys_step N E p s (s\<lparr>sy_arena := (sy_arena s)\<lparr>af_waiters := notify_one N (af_waiters (sy_arena s))\<rparr>, sy_notifies := n\<rparr>)"

subsection \<open>The invariant\<close>

fun reg_of :: "phase \<Rightarrow> NotifyRegistration option" where
  "reg_of (Registered r) = Some r" | "reg_of (Enabled r) = Some r" | "reg_of (Prepared r) = Some r"
| "reg_of (Parked r) = Some r" | "reg_of (Ready r) = Some r" | "reg_of (Got buf r) = Some r"
| "reg_of (Dropping c r) = Some r" | "reg_of (Loading c r) = Some r" | "reg_of (Notifying c r) = Some r"
| "reg_of (Leaving c r) = Some r" | "reg_of _ = None"

definition counted :: "phase \<Rightarrow> bool" where
  "counted ph \<longleftrightarrow> (case reg_of ph of Some r \<Rightarrow> nr_registered r | None \<Rightarrow> False)"

definition future_of :: "phase \<Rightarrow> nat option" where
  "future_of ph = map_option nr_future (reg_of ph)"

text \<open>The task will try to allocate before it awaits again.\<close>

fun retrying :: "phase \<Rightarrow> bool" where
  "retrying Begin = True" | "retrying (Registered r) = True" | "retrying (Enabled r) = True"
| "retrying (Prepared r) = True" | "retrying (Ready r) = True"
| "retrying (Dropping c r) = (c = Again)" | "retrying (Loading c r) = (c = Again)"
| "retrying (Notifying c r) = (c = Again)" | "retrying (Leaving c r) = (c = Again)"
| "retrying _ = False"

text \<open>The flag \<open>registered\<close> where the phase determines it.\<close>

fun flag_ok :: "phase \<Rightarrow> bool" where
  "flag_ok (Prepared r) = nr_registered r" | "flag_ok (Parked r) = nr_registered r"
| "flag_ok (Loading c r) = (\<not> nr_registered r)" | "flag_ok (Notifying c r) = (\<not> nr_registered r)"
| "flag_ok (Leaving c r) = (\<not> nr_registered r)" | "flag_ok _ = True"

definition count_ok :: "usize \<Rightarrow> phase list \<Rightarrow> bool" where
  "count_ok c ts \<longleftrightarrow> c = word_of_nat (length (filter counted ts)) \<and> (\<forall>ph \<in> set ts. flag_ok ph)"

fun armed :: "phase \<Rightarrow> bool" where
  "armed (Enabled r) = True" | "armed (Prepared r) = True" | "armed (Parked r) = True" | "armed _ = False"

abbreviation queued :: "notify_view \<Rightarrow> nat set" where
  "queued v \<equiv> set (nv_waiting v) \<union> set (nv_notified v)"

text \<open>No two tasks share a future; a future is known to the queue from its enabling to its drop.\<close>

definition futures_ok :: "notify_view \<Rightarrow> phase list \<Rightarrow> bool" where
  "futures_ok v ts \<longleftrightarrow>
     (nv_permit v \<longrightarrow> nv_waiting v = []) \<and> distinct (nv_waiting v @ nv_notified v) \<and>
     (\<forall>f \<in> queued v. \<exists>t < length ts. future_of (ts ! t) = Some f) \<and>
     (\<forall>t < length ts. \<forall>f. future_of (ts ! t) = Some f \<longrightarrow>
        f < nv_next v \<and> (\<forall>u < length ts. future_of (ts ! u) = Some f \<longrightarrow> u = t) \<and>
        (armed (ts ! t) \<longrightarrow> f \<in> queued v \<union> set (nv_done v))) \<and>
     (\<forall>r. Registered r \<in> set ts \<longrightarrow> nr_future r \<notin> queued v)"

definition parked_waiting :: "notify_view \<Rightarrow> phase list \<Rightarrow> bool" where
  "parked_waiting v ts \<longleftrightarrow> (\<exists>r. Parked r \<in> set ts \<and> nr_future r \<in> set (nv_waiting v))"

text \<open>While a task waits, there are at least as many attempts under way as there are free slots: releases
  that will notify, notified futures, and tasks about to try.\<close>

definition wakes_ok :: "notify_view \<Rightarrow> nat \<Rightarrow> phase list \<Rightarrow> nat \<Rightarrow> bool" where
  "wakes_ok v free_slots ts pending \<longleftrightarrow>
     (parked_waiting v ts \<longrightarrow> free_slots \<le> pending + length (nv_notified v) + length (filter retrying ts))"

definition free_slots :: "('d, 'n) async_system \<Rightarrow> nat" where
  "free_slots s = ai_slot_count (af_inner (sy_arena s)) - card (sy_live s)"

abbreviation notify_state :: "('n \<Rightarrow> notify_view) \<Rightarrow> ('d, 'n) async_system \<Rightarrow> notify_view" where
  "notify_state view s \<equiv> view (fs_notify (af_waiters (sy_arena s)))"

definition sys_ok :: "('n \<Rightarrow> notify_view) \<Rightarrow> externals \<Rightarrow> ('d, 'n) async_system \<Rightarrow> bool" where
  "sys_ok view E s \<longleftrightarrow>
     arena_ok E (Fixed (af_inner (sy_arena s))) (sy_live s) \<and> ai_wake_handle (af_inner (sy_arena s)) \<and>
     count_ok (fs_count (af_waiters (sy_arena s))) (sy_tasks s) \<and> futures_ok (notify_state view s) (sy_tasks s) \<and>
     wakes_ok (notify_state view s) (free_slots s) (sy_tasks s) (sy_wakes s + sy_notifies s)"

lemma filter_update:
  "t < length xs \<Longrightarrow> length (filter P (xs[t := y])) + of_bool (P (xs ! t)) = length (filter P xs) + of_bool (P y)"
proof (induction xs arbitrary: t)
  case (Cons x xs)
  then show ?case by (cases t) auto
qed simp

lemma count_ok_update:
  assumes "count_ok c ts" "t < length ts" "flag_ok ph"
  shows "count_ok (c + of_bool (counted ph) - of_bool (counted (ts ! t))) (ts[t := ph])"
proof -
  have eq: "word_of_nat (length (filter counted (ts[t := ph]))) + of_bool (counted (ts ! t)) =
      (word_of_nat (length (filter counted ts)) + of_bool (counted ph) :: usize)"
    using arg_cong [OF filter_update [OF assms(2), of counted ph], of "word_of_nat :: nat \<Rightarrow> usize"] by simp
  have "c + of_bool (counted ph) - of_bool (counted (ts ! t)) = word_of_nat (length (filter counted (ts[t := ph])))"
    using assms(1) unfolding count_ok_def by (simp add: flip: eq)
  moreover have "\<forall>ph' \<in> set (ts[t := ph]). flag_ok ph'"
    using assms(1,3) set_update_subset_insert [of ts t ph] unfolding count_ok_def by blast
  ultimately show ?thesis by (simp add: count_ok_def)
qed

lemma in_update:
  assumes "x \<in> set (ts[t := ph])" "t < length ts"
  obtains "x = ph" | u where "u < length ts" "u \<noteq> t" "x = ts ! u"
proof -
  obtain u where u: "u < length ts" "x = ts[t := ph] ! u" using assms(1) by (auto simp: in_set_conv_nth)
  then show ?thesis using that by (cases "u = t") (auto simp: assms(2))
qed

text \<open>A step of the task \<open>t\<close> to the phase \<open>ph\<close>, seen from the queue.\<close>

lemma futures_ok_update:
  assumes ok: "futures_ok v ts" and t: "t < length ts"
    and v': "nv_permit v' \<longrightarrow> nv_waiting v' = []" "nv_next v \<le> nv_next v'"
      "\<And>f. f \<in> queued v' \<Longrightarrow> f \<in> queued v \<or> future_of (ts ! t) = Some f"
      "\<And>f. f \<in> queued v \<union> set (nv_done v) \<Longrightarrow> f \<in> queued v' \<union> set (nv_done v') \<or> future_of (ts ! t) = Some f"
      "distinct (nv_waiting v' @ nv_notified v')"
    and ph: "future_of ph = None \<or> future_of ph = future_of (ts ! t) \<or> future_of ph = Some (nv_next v) \<and> nv_next v < nv_next v'"
      "\<And>r. ph = Registered r \<Longrightarrow> nr_future r = nv_next v \<and> future_of (ts ! t) = None"
      "\<And>f. armed ph \<Longrightarrow> future_of ph = Some f \<Longrightarrow> f \<in> queued v' \<union> set (nv_done v')"
      "\<And>f. f \<in> queued v' \<Longrightarrow> future_of (ts ! t) = Some f \<Longrightarrow> future_of ph = Some f"
  shows "futures_ok v' (ts[t := ph])"
proof -
  have own: "\<And>f. f \<in> queued v \<Longrightarrow> \<exists>u < length ts. future_of (ts ! u) = Some f"
    and fu: "\<And>u f. u < length ts \<Longrightarrow> future_of (ts ! u) = Some f \<Longrightarrow> f < nv_next v"
    and un: "\<And>u w f. u < length ts \<Longrightarrow> w < length ts \<Longrightarrow> future_of (ts ! u) = Some f \<Longrightarrow> future_of (ts ! w) = Some f \<Longrightarrow> w = u"
    and ar: "\<And>u f. u < length ts \<Longrightarrow> future_of (ts ! u) = Some f \<Longrightarrow> armed (ts ! u) \<Longrightarrow> f \<in> queued v \<union> set (nv_done v)"
    and rg: "\<And>r. Registered r \<in> set ts \<Longrightarrow> nr_future r \<notin> queued v"
    using ok unfolding futures_ok_def by blast+
  have q: "f < nv_next v" if "f \<in> queued v" for f using own [OF that] fu by blast
  have Q': "\<exists>u < length ts. future_of (ts[t := ph] ! u) = Some f" if "f \<in> queued v'" for f
  proof (cases "future_of (ts ! t) = Some f")
    case True
    then show ?thesis using ph(4) [OF that] t by auto
  next
    case False
    then show ?thesis using v'(3) [OF that] own t by (metis nth_list_update_neq)
  qed
  have F': "f < nv_next v'" if "u < length ts" "future_of (ts[t := ph] ! u) = Some f" for u f
    using that ph(1) fu [of u f] fu [of t f] t v'(2) by (cases "u = t") auto
  have U': "w = u" if "u < length ts" "w < length ts" "future_of (ts[t := ph] ! u) = Some f"
      "future_of (ts[t := ph] ! w) = Some f" for u w f
    using that ph(1) un fu t by (cases "u = t"; cases "w = t") fastforce+
  have A': "f \<in> queued v' \<union> set (nv_done v')"
    if "u < length ts" "future_of (ts[t := ph] ! u) = Some f" "armed (ts[t := ph] ! u)" for u f
  proof (cases "u = t")
    case True
    then show ?thesis using that ph(3) t by simp
  next
    case False
    then have "future_of (ts ! t) \<noteq> Some f" using un [of u t f] that t by auto
    then show ?thesis using ar [of u f] that False v'(4) [of f] by (simp split: if_splits)
  qed
  have R': "nr_future r \<notin> queued v'" if asm: "Registered r \<in> set (ts[t := ph])" for r
    using asm t
  proof (cases rule: in_update)
    case 1
    then have "nr_future r = nv_next v" "future_of (ts ! t) = None" using ph(2) by auto
    then show ?thesis using v'(3) [of "nr_future r"] q [of "nr_future r"] by force
  next
    case (2 u)
    then have "Registered r \<in> set ts" by (metis nth_mem)
    moreover have "future_of (ts ! t) \<noteq> Some (nr_future r)"
      using un [of t u "nr_future r"] t 2 by (metis future_of_def option.simps(9) reg_of.simps(1))
    ultimately show ?thesis using rg v'(3) by blast
  qed
  show ?thesis unfolding futures_ok_def length_list_update using v'(1,5) Q' F' U' A' R' by blast
qed

lemma wakes_ok_update:
  assumes "wakes_ok v n ts k" "t < length ts"
    "parked_waiting v' (ts[t := ph]) \<Longrightarrow> parked_waiting v ts \<and>
       length (nv_notified v) + of_bool (retrying (ts ! t)) \<le> length (nv_notified v') + of_bool (retrying ph)"
  shows "wakes_ok v' n (ts[t := ph]) k"
  using assms filter_update [OF assms(2), of retrying ph] unfolding wakes_ok_def by linarith

lemma parked_waiting_update:
  assumes "parked_waiting v' (ts[t := ph])" "\<And>r. ph \<noteq> Parked r" "set (nv_waiting v') \<subseteq> set (nv_waiting v)"
  shows "parked_waiting v ts"
  using assms set_update_subset_insert [of ts t ph] unfolding parked_waiting_def by blast

lemma view_ops:
  assumes "notify_ok N view"
  shows "fst (nt_notified_owned N n) = nv_next (view n)"
    "view (snd (nt_notified_owned N n)) = (view n)\<lparr>nv_next := nv_next (view n) + 1\<rparr>"
    "view (snd (nt_enable N f n)) = snd (view_poll f (view n))"
    "fst (nt_poll N f n) = fst (view_poll f (view n))" "view (snd (nt_poll N f n)) = snd (view_poll f (view n))"
    "view (nt_notify_one N n) = view_notify_one (view n)" "view (nt_drop N f n) = view_drop f (view n)"
  using assms by (simp_all add: notify_ok_def view_notified_def)

lemma view_poll_effect:
  assumes "view_poll f v = (b, v')"
  obtains (same) "v' = v" "b \<longleftrightarrow> f \<in> set (nv_done v)" "\<not> b \<Longrightarrow> f \<in> set (nv_waiting v) \<and> f \<notin> set (nv_notified v)"
  | (notified) "b" "v' = v\<lparr>nv_notified := remove1 f (nv_notified v), nv_done := f # nv_done v\<rparr>" "f \<in> set (nv_notified v)"
  | (permit) "b" "v' = v\<lparr>nv_permit := False, nv_done := f # nv_done v\<rparr>" "nv_permit v" "f \<notin> set (nv_notified v)"
  | (joins) "\<not> b" "v' = v\<lparr>nv_waiting := nv_waiting v @ [f]\<rparr>" "\<not> nv_permit v" "f \<notin> set (nv_waiting v)" "f \<notin> set (nv_notified v)"
  using assms unfolding view_poll_def by (auto split: if_splits)

lemma view_notify_one_facts:
  "set (nv_waiting (view_notify_one v)) \<subseteq> set (nv_waiting v)" "nv_next (view_notify_one v) = nv_next v"
  "queued (view_notify_one v) = queued v" "nv_done (view_notify_one v) = nv_done v"
  "nv_waiting v \<noteq> [] \<Longrightarrow> length (nv_notified (view_notify_one v)) = Suc (length (nv_notified v))"
  "nv_waiting v = [] \<Longrightarrow> nv_waiting (view_notify_one v) = [] \<and> nv_notified (view_notify_one v) = nv_notified v"
  "(nv_permit v \<longrightarrow> nv_waiting v = []) \<Longrightarrow> nv_permit (view_notify_one v) \<longrightarrow> nv_waiting (view_notify_one v) = []"
  "distinct (nv_waiting v @ nv_notified v) \<Longrightarrow> distinct (nv_waiting (view_notify_one v) @ nv_notified (view_notify_one v))"
  by (auto simp: view_notify_one_def split: list.splits)

lemma view_drop_facts:
  "set (nv_waiting (view_drop f v)) \<subseteq> set (nv_waiting v)" "nv_next (view_drop f v) = nv_next v"
  "queued (view_drop f v) \<subseteq> queued v" "nv_done (view_drop f v) = nv_done v" "queued v \<subseteq> insert f (queued (view_drop f v))"
  "nv_waiting (view_drop f v) \<noteq> [] \<Longrightarrow> length (nv_notified v) \<le> length (nv_notified (view_drop f v))"
  "(nv_permit v \<longrightarrow> nv_waiting v = []) \<Longrightarrow> nv_permit (view_drop f v) \<longrightarrow> nv_waiting (view_drop f v) = []"
  "distinct (nv_waiting v @ nv_notified v) \<Longrightarrow>
     distinct (nv_waiting (view_drop f v) @ nv_notified (view_drop f v)) \<and> f \<notin> queued (view_drop f v)"
proof -
  let ?v = "v\<lparr>nv_notified := remove1 f (nv_notified v)\<rparr>"
  note n = view_notify_one_facts [of ?v]
  have sub: "set (remove1 f (nv_notified v)) \<subseteq> set (nv_notified v)" by (rule set_remove1_subset)
  show "set (nv_waiting (view_drop f v)) \<subseteq> set (nv_waiting v)" "nv_next (view_drop f v) = nv_next v"
    "nv_done (view_drop f v) = nv_done v"
    using n(1,2,4) unfolding view_drop_def by auto
  show "queued (view_drop f v) \<subseteq> queued v"
    using n(3) sub unfolding view_drop_def by (cases "f \<in> set (nv_notified v)") auto
  have "set (nv_notified v) \<subseteq> insert f (set (nv_notified ?v))" by auto (metis in_set_remove1)
  then show "queued v \<subseteq> insert f (queued (view_drop f v))"
    using n(3) unfolding view_drop_def by (cases "f \<in> set (nv_notified v)") auto
  show "length (nv_notified v) \<le> length (nv_notified (view_drop f v))" if "nv_waiting (view_drop f v) \<noteq> []"
    using that n(5,6) unfolding view_drop_def by (cases "nv_waiting v = []") (auto simp: length_remove1 split: if_splits)
  show "nv_permit (view_drop f v) \<longrightarrow> nv_waiting (view_drop f v) = []" if "nv_permit v \<longrightarrow> nv_waiting v = []"
    using that n(7) unfolding view_drop_def by auto
  show "distinct (nv_waiting (view_drop f v) @ nv_notified (view_drop f v)) \<and> f \<notin> queued (view_drop f v)"
    if d: "distinct (nv_waiting v @ nv_notified v)"
  proof (cases "f \<in> set (nv_notified v)")
    case True
    have "distinct (nv_waiting ?v @ nv_notified ?v)" "f \<notin> queued ?v" using d True by (auto dest: notin_set_remove1)
    then show ?thesis using n(3,8) True unfolding view_drop_def by simp
  next
    case False
    then show ?thesis using d unfolding view_drop_def by (auto simp: distinct_removeAll)
  qed
qed

text \<open>The frame of a task step that leaves the allocator alone.\<close>

lemma task_frame:
  assumes ok: "sys_ok view E s" and t: "t < length (sy_tasks s)" and inner: "af_inner af = af_inner (sy_arena s)"
    and v: "v = notify_state view s" "v' = view (fs_notify (af_waiters af))"
    and count: "fs_count (af_waiters af) =
      fs_count (af_waiters (sy_arena s)) + of_bool (counted ph) - of_bool (counted (sy_tasks s ! t))"
      "flag_ok ph"
    and fut: "futures_ok v (sy_tasks s) \<Longrightarrow> futures_ok v' ((sy_tasks s)[t := ph])"
    and wk: "futures_ok v (sy_tasks s) \<Longrightarrow> parked_waiting v' ((sy_tasks s)[t := ph]) \<Longrightarrow> parked_waiting v (sy_tasks s) \<and>
       length (nv_notified v) + of_bool (retrying (sy_tasks s ! t)) \<le> length (nv_notified v') + of_bool (retrying ph)"
    and gain: "gained ph = {}"
  shows "sys_ok view E (s\<lparr>sy_arena := af, sy_tasks := (sy_tasks s)[t := ph], sy_live := sy_live s \<union> gained ph\<rparr>)"
proof -
  note old = ok [unfolded sys_ok_def]
  have f: "futures_ok v (sy_tasks s)" using old v(1) by blast
  have "count_ok (fs_count (af_waiters af)) ((sy_tasks s)[t := ph])"
    using count_ok_update [OF _ t, of "fs_count (af_waiters (sy_arena s))" ph] old count by simp
  moreover have "wakes_ok v' (free_slots s) ((sy_tasks s)[t := ph]) (sy_wakes s + sy_notifies s)"
    using old wk [OF f] v(1) by (intro wakes_ok_update [OF _ t]) auto
  ultimately show ?thesis
    using old fut [OF f] unfolding sys_ok_def v(2) by (simp add: inner gain free_slots_def del: arena_ok.simps)
qed

lemma quiet_step:
  assumes ok: "sys_ok view E s" and t: "t < length (sy_tasks s)" and af: "af_inner af = af_inner (sy_arena s)"
      "fs_notify (af_waiters af) = fs_notify (af_waiters (sy_arena s))"
    and count: "fs_count (af_waiters af) =
      fs_count (af_waiters (sy_arena s)) + of_bool (counted ph) - of_bool (counted (sy_tasks s ! t))"
      "flag_ok ph"
    and ph: "future_of ph = future_of (sy_tasks s ! t)" "\<And>r. ph \<noteq> Registered r" "\<And>r. ph \<noteq> Parked r"
      "retrying ph = retrying (sy_tasks s ! t)" "gained ph = {}"
      "armed ph \<Longrightarrow> armed (sy_tasks s ! t)"
  shows "sys_ok view E (s\<lparr>sy_arena := af, sy_tasks := (sy_tasks s)[t := ph], sy_live := sy_live s \<union> gained ph\<rparr>)"
proof (rule task_frame [OF ok t af(1) refl _ count(1)])
  show "notify_state view s = view (fs_notify (af_waiters af))" by (simp add: af(2))
  show "futures_ok (notify_state view s) ((sy_tasks s)[t := ph])" if "futures_ok (notify_state view s) (sy_tasks s)"
    by (rule futures_ok_update [OF that t]) (use that t ph(1-3,6) in \<open>simp_all add: futures_ok_def\<close>)
  show "parked_waiting (notify_state view s) (sy_tasks s) \<and> length (nv_notified (notify_state view s)) + of_bool (retrying (sy_tasks s ! t))
      \<le> length (nv_notified (notify_state view s)) + of_bool (retrying ph)"
    if "parked_waiting (notify_state view s) ((sy_tasks s)[t := ph])"
    using parked_waiting_update [OF that ph(3)] ph(4) by simp
qed (use count(2) ph(5) in auto)

text \<open>The steps that touch the queue: creating, enabling, polling, notifying and dropping a future.\<close>

lemma register_step:
  assumes N: "notify_ok N view" and ok: "sys_ok view E s" and t: "t < length (sy_tasks s)" "sy_tasks s ! t = Begin"
    and r: "register N (af_waiters (sy_arena s)) = (r, w)"
  shows "sys_ok view E (s\<lparr>sy_arena := (sy_arena s)\<lparr>af_waiters := w\<rparr>, sy_tasks := (sy_tasks s)[t := Registered r],
    sy_live := sy_live s \<union> gained (Registered r)\<rparr>)"
proof -
  let ?v = "notify_state view s"
  have w: "view (fs_notify w) = ?v\<lparr>nv_next := nv_next ?v + 1\<rparr>" "fs_count w = fs_count (af_waiters (sy_arena s))"
    "nr_future r = nv_next ?v" "\<not> nr_registered r"
    using r view_ops(1,2) [OF N] by (auto simp: register_def split_beta)
  show ?thesis
  proof (rule task_frame [OF ok t(1) _ refl])
    show "view (fs_notify w) = view (fs_notify (af_waiters (sy_arena s\<lparr>af_waiters := w\<rparr>)))" by simp
    show "futures_ok (view (fs_notify w)) ((sy_tasks s)[t := Registered r])" if "futures_ok ?v (sy_tasks s)"
      by (rule futures_ok_update [OF that t(1)]) (use that w t(2) in \<open>auto simp: futures_ok_def future_of_def\<close>)
    show "parked_waiting ?v (sy_tasks s) \<and> length (nv_notified ?v) + of_bool (retrying (sy_tasks s ! t))
        \<le> length (nv_notified (view (fs_notify w))) + of_bool (retrying (Registered r))"
      if "parked_waiting (view (fs_notify w)) ((sy_tasks s)[t := Registered r])"
      using parked_waiting_update [OF that, of ?v] w(1) t(2) by simp
  qed (use w t(2) in \<open>simp_all add: counted_def\<close>)
qed

lemma enable_step:
  assumes N: "notify_ok N view" and ok: "sys_ok view E s" and t: "t < length (sy_tasks s)" "sy_tasks s ! t = Registered r"
  shows "sys_ok view E (s\<lparr>sy_arena := (sy_arena s)\<lparr>af_waiters := enable_future N r (af_waiters (sy_arena s))\<rparr>,
    sy_tasks := (sy_tasks s)[t := Enabled r], sy_live := sy_live s \<union> gained (Enabled r)\<rparr>)"
proof -
  let ?v = "notify_state view s" and ?f = "nr_future r" and ?ts = "sy_tasks s"
  let ?w = "enable_future N r (af_waiters (sy_arena s))"
  obtain b v' where p: "view_poll ?f ?v = (b, v')" by fastforce
  have w: "view (fs_notify ?w) = v'" "fs_count ?w = fs_count (af_waiters (sy_arena s))"
    using view_ops(3) [OF N] p by (simp_all add: enable_future_def)
  have fr: "?f \<notin> set (nv_waiting ?v)" "?f \<notin> set (nv_notified ?v)" if "futures_ok ?v ?ts"
    using that t nth_mem [OF t(1)] unfolding futures_ok_def by auto
  show ?thesis
  proof (rule task_frame [OF ok t(1) _ refl, where v' = v'])
    show "futures_ok v' (?ts[t := Enabled r])" if "futures_ok ?v ?ts"
      using p
    proof (cases rule: view_poll_effect)
    qed (use fr [OF that] in simp_all, (rule futures_ok_update [OF that t(1)];
        use that t(2) in \<open>auto simp: futures_ok_def future_of_def\<close>)+)
    show "parked_waiting ?v ?ts \<and> length (nv_notified ?v) + of_bool (retrying (?ts ! t))
        \<le> length (nv_notified v') + of_bool (retrying (Enabled r))"
      if f: "futures_ok ?v ?ts" and pw: "parked_waiting v' (?ts[t := Enabled r])"
    proof -
      obtain q where q: "Parked q \<in> set (?ts[t := Enabled r])" "nr_future q \<in> set (nv_waiting v')"
        using pw unfolding parked_waiting_def by blast
      then obtain u where u: "u < length ?ts" "u \<noteq> t" "?ts ! u = Parked q"
        using t(1) by (auto elim: in_update)
      have ne: "nr_future q \<noteq> ?f"
        using f u t unfolding futures_ok_def future_of_def by (metis map_option_eq_Some reg_of.simps(1,4))
      have Q: "Parked q \<in> set ?ts" using u by (metis nth_mem)
      show ?thesis
        using p Q ne q(2) fr [OF f] t(2) by (cases rule: view_poll_effect) (auto simp: parked_waiting_def)
    qed
  qed (use w t(2) in \<open>simp_all add: counted_def\<close>)
qed

lemma poll_step:
  assumes N: "notify_ok N view" and ok: "sys_ok view E s" and t: "t < length (sy_tasks s)" "sy_tasks s ! t = Parked r"
    and w: "poll_future N r (af_waiters (sy_arena s)) = (ready, w)" and ph: "ph = (if ready then Ready r else Parked r)"
  shows "sys_ok view E (s\<lparr>sy_arena := (sy_arena s)\<lparr>af_waiters := w\<rparr>, sy_tasks := (sy_tasks s)[t := ph],
    sy_live := sy_live s \<union> gained ph\<rparr>)"
proof -
  let ?v = "notify_state view s" and ?f = "nr_future r" and ?ts = "sy_tasks s"
  obtain v' where p: "view_poll ?f ?v = (ready, v')" and v': "view (fs_notify w) = v'"
    and c: "fs_count w = fs_count (af_waiters (sy_arena s))"
    using w view_ops(4,5) [OF N, of ?f "fs_notify (af_waiters (sy_arena s))"]
    by (auto simp: poll_future_def split_beta prod_eq_iff)
  have reg: "nr_registered r" and fo: "futures_ok ?v ?ts"
    using ok t nth_mem [OF t(1)] unfolding sys_ok_def count_ok_def by auto
  then have known: "?f \<in> queued ?v \<union> set (nv_done ?v)" using t unfolding futures_ok_def by (simp add: future_of_def)
  have "v' = ?v \<and> (\<not> ready \<longrightarrow> ?f \<in> set (nv_waiting ?v)) \<or>
      ready \<and> ?f \<in> set (nv_notified ?v) \<and> v' = ?v\<lparr>nv_notified := remove1 ?f (nv_notified ?v), nv_done := ?f # nv_done ?v\<rparr>"
    using p known by (auto simp: view_poll_def split: if_splits)
  then have e: "nv_permit v' = nv_permit ?v" "nv_waiting v' = nv_waiting ?v" "nv_next v' = nv_next ?v"
    "queued v' \<subseteq> queued ?v" "queued ?v \<union> set (nv_done ?v) \<subseteq> queued v' \<union> set (nv_done v')"
    "length (nv_notified ?v) \<le> length (nv_notified v') + of_bool ready" "distinct (nv_waiting v' @ nv_notified v')"
    using set_remove1_subset [of ?f "nv_notified ?v"] in_set_remove1 [of _ ?f "nv_notified ?v"] fo [unfolded futures_ok_def]
    by (auto simp: length_remove1)
  show ?thesis
  proof (rule task_frame [OF ok t(1) _ refl, where v' = v'])
    show "futures_ok v' (?ts[t := ph])"
      by (rule futures_ok_update [OF fo t(1)])
        (use fo e t(2) ph known in \<open>auto simp: futures_ok_def future_of_def split: if_splits\<close>)
    show "parked_waiting ?v ?ts \<and> length (nv_notified ?v) + of_bool (retrying (?ts ! t))
        \<le> length (nv_notified v') + of_bool (retrying ph)"
      if pw: "parked_waiting v' (?ts[t := ph])"
    proof -
      have "set (?ts[t := ph]) \<subseteq> insert (Ready r) (set ?ts)"
        using set_update_subset_insert [of ?ts t ph] nth_mem [OF t(1)] t(2) ph by auto
      then have "parked_waiting ?v ?ts" using pw e(2) unfolding parked_waiting_def by auto
      then show ?thesis using e(6) ph t(2) by auto
    qed
  qed (use v' c t(2) reg ph in \<open>auto simp: counted_def split: if_splits\<close>)
qed

lemma drop_step:
  assumes N: "notify_ok N view" and ok: "sys_ok view E s" and t: "t < length (sy_tasks s)" "sy_tasks s ! t = Leaving c r"
  shows "sys_ok view E (s\<lparr>sy_arena := (sy_arena s)\<lparr>af_waiters := drop_future N r (af_waiters (sy_arena s))\<rparr>,
    sy_tasks := (sy_tasks s)[t := resume c], sy_live := sy_live s \<union> gained (resume c)\<rparr>)"
proof -
  let ?v = "notify_state view s" and ?f = "nr_future r" and ?ts = "sy_tasks s"
  let ?w = "drop_future N r (af_waiters (sy_arena s))" and ?v' = "view_drop (nr_future r) (notify_state view s)"
  have w: "view (fs_notify ?w) = ?v'" "fs_count ?w = fs_count (af_waiters (sy_arena s))"
    using view_ops(7) [OF N] by (simp_all add: drop_future_def)
  note d = view_drop_facts [where f = ?f and v = ?v]
  have c: "future_of (resume c) = None" "\<not> armed (resume c)" "\<not> counted (resume c)" "\<And>q. resume c \<noteq> Parked q"
    "\<And>q. resume c \<noteq> Registered q" "flag_ok (resume c)" "retrying (resume c) \<longleftrightarrow> c = Again" "gained (resume c) = {}"
    by (cases c; simp add: future_of_def counted_def)+
  have fo: "futures_ok ?v ?ts" and reg: "\<not> nr_registered r"
    using ok t nth_mem [OF t(1)] unfolding sys_ok_def count_ok_def by auto
  show ?thesis
  proof (rule task_frame [OF ok t(1) _ refl, where v' = ?v'])
    show "futures_ok ?v' (?ts[t := resume c])"
      by (rule futures_ok_update [OF fo t(1)]) (use fo d(2-5,7,8) t(2) c in \<open>auto simp: futures_ok_def future_of_def\<close>)
    show "parked_waiting ?v ?ts \<and> length (nv_notified ?v) + of_bool (retrying (?ts ! t))
        \<le> length (nv_notified ?v') + of_bool (retrying (resume c))"
      if pw: "parked_waiting ?v' (?ts[t := resume c])"
    proof -
      have "nv_waiting ?v' \<noteq> []" using pw by (auto simp: parked_waiting_def)
      then show ?thesis using parked_waiting_update [OF pw c(4) d(1)] d(6) t(2) c(7) by simp
    qed
  qed (use w t(2) c reg in \<open>simp_all add: counted_def\<close>)
qed

text \<open>A notification, by a task or by a release: it only helps, and uses at most what it was given.\<close>

lemma notified_ok:
  assumes N: "notify_ok N view" and ok: "sys_ok view E s"
  shows "futures_ok (view_notify_one (notify_state view s)) (sy_tasks s)"
    "sy_notifies s = Suc n \<Longrightarrow>
       wakes_ok (view_notify_one (notify_state view s)) (free_slots s) (sy_tasks s) (sy_wakes s + n)"
    "parked_waiting (view_notify_one (notify_state view s)) ts \<Longrightarrow> parked_waiting (notify_state view s) ts"
    "parked_waiting (view_notify_one (notify_state view s)) ts \<Longrightarrow>
       length (nv_notified (view_notify_one (notify_state view s))) = Suc (length (nv_notified (notify_state view s)))"
proof -
  let ?v = "notify_state view s"
  note n = view_notify_one_facts [of ?v]
  have fo: "futures_ok ?v (sy_tasks s)" and wo: "wakes_ok ?v (free_slots s) (sy_tasks s) (sy_wakes s + sy_notifies s)"
    using ok unfolding sys_ok_def by blast+
  show "futures_ok (view_notify_one ?v) (sy_tasks s)"
    using fo n(7,8) unfolding futures_ok_def n(2-4) by blast
  show pw: "parked_waiting ?v ts" if "parked_waiting (view_notify_one ?v) ts" for ts
    using that n(1) unfolding parked_waiting_def by blast
  show len: "length (nv_notified (view_notify_one ?v)) = Suc (length (nv_notified ?v))"
    if "parked_waiting (view_notify_one ?v) ts" for ts
    using pw [OF that] n(5) unfolding parked_waiting_def by (metis empty_iff list.set(1))
  show "wakes_ok (view_notify_one ?v) (free_slots s) (sy_tasks s) (sy_wakes s + n)" if "sy_notifies s = Suc n"
    using wo pw len that unfolding wakes_ok_def by auto
qed

lemma fixed_try:
  fixes a :: "'d ArenaInner"
  assumes ok: "arena_ok E (Fixed a) L"
    and eq: "(allocate_fixed E p a :: (unit, 'd) fixed_result) = Ret (res, a')"
  shows "ai_wake_handle a' = ai_wake_handle a \<and>
    (case res of
       Inl e \<Rightarrow> arena_ok E (Fixed a') L \<and> ai_slot_count a' - card L = 0
     | Inr buf \<Rightarrow> arena_ok E (Fixed a') (insert (buf_allocation buf) L) \<and>
         Suc (ai_slot_count a' - card (insert (buf_allocation buf) L)) = ai_slot_count a - card L)"
proof -
  obtain S where S: "zeroize_ok E" "L = FixedSlot ` S" "fixed_inv a S" "fixed_scrubbed a S" using ok by auto
  have card: "card (FixedSlot ` T) = card T" for T by (simp add: card_image inj_on_def)
  have same: "same_fixed a a'" and post: "case res of
       Inl e \<Rightarrow> e = ArenaFull \<and> S = {..<ai_slot_count a} \<and> fixed_inv a' S \<and> fixed_scrubbed a' S \<and> ai_mem a' = ai_mem a
     | Inr buf \<Rightarrow> \<exists>i. i < ai_slot_count a \<and> i \<notin> S \<and> fixed_inv a' (insert i S) \<and> fixed_scrubbed a' (insert i S) \<and>
         buf = new_fixed (ai_ptr a) (ai_auto_spill a) i (i * ai_slot_capacity a) (ai_slot_capacity a) \<and>
         (\<forall>x. x \<notin> slot_region a i \<longrightarrow> ai_mem a' x = ai_mem a x) \<and>
         (ai_init_policy a = Zero \<longrightarrow> (\<forall>x \<in> slot_region a i. ai_mem a' x = 0))"
    using ref_allocate_fixed [OF S(3,4,1), of p, where ?'h = unit] eq by auto
  have cnt: "ai_slot_count a' = ai_slot_count a" "ai_wake_handle a' = ai_wake_handle a" using same by (simp_all add: same_fixed_def)
  show ?thesis
  proof (cases res)
    case (Inl e)
    then show ?thesis using post S cnt card by auto
  next
    case (Inr buf)
    with post obtain i where i: "i \<notin> S" "fixed_inv a' (insert i S)" "fixed_scrubbed a' (insert i S)" "buf_allocation buf = FixedSlot i"
      by auto
    have ins: "insert (FixedSlot i) L = FixedSlot ` insert i S" using S(2) by auto
    have fin: "finite S" using S(3) by (rule fixed_inv_finite)
    have "insert i S \<subseteq> {..<ai_slot_count a}" using i(2) cnt(1) by (auto simp: fixed_inv_def)
    then have "card (insert i S) \<le> ai_slot_count a" using card_mono [of "{..<ai_slot_count a}"] by fastforce
    moreover have "card (insert (FixedSlot i) L) = Suc (card S)" "card L = card S"
      using card [of "insert i S"] card [of S] fin i(1) unfolding ins S(2) by simp_all
    ultimately have "Suc (ai_slot_count a' - card (insert (FixedSlot i) L)) = ai_slot_count a - card L"
      using cnt(1) fin i(1) by simp
    moreover have "arena_ok E (Fixed a') (insert (FixedSlot i) L)" unfolding ins arena_ok.simps using S(1) i(2,3) by blast
    ultimately show ?thesis using Inr i(4) cnt(2) by (simp del: arena_ok.simps)
  qed
qed

lemma fixed_released:
  assumes ok: "arena_ok E (Fixed a) L" and k: "k \<in> L" and wh: "ai_wake_handle a"
    and eq: "release E p (Fixed a) k = Ret (w, Fixed a')"
  shows "arena_ok E (Fixed a') (L - {k}) \<and> ai_wake_handle a' \<and> w = Some WakeSlot \<and>
    ai_slot_count a' - card (L - {k}) \<le> Suc (ai_slot_count a - card L)"
proof -
  obtain S where S: "zeroize_ok E" "L = FixedSlot ` S" "fixed_inv a S" "fixed_scrubbed a S" using ok by auto
  then obtain i where i: "i \<in> S" "k = FixedSlot i" using k by blast
  obtain b where "release_slot E p a i = Ret (ai_wake_handle a, b)" "same_fixed a b"
    by (rule release_slot_Ret [OF S(3) i(1), of E p])
  then have w: "w = Some WakeSlot" "same_fixed a a'" using eq i(2) wh by simp_all
  have "arena_ok E (Fixed a') (L - {k})" using release_Ret [OF ok k, of p] unfolding eq by (metis outcome.inject(1) prod.inject)
  moreover have "finite L" using fixed_inv_finite [OF S(3)] S(2) by simp
  ultimately show ?thesis using w k wh by (simp add: same_fixed_def card_Diff_singleton del: arena_ok.simps)
qed

lemma try_step:
  fixes s :: "('d, 'n) async_system"
  assumes ok: "sys_ok view E s" and t: "t < length (sy_tasks s)" "sy_tasks s ! t = Prepared r"
    and eq: "(allocate_fixed E p (af_inner (sy_arena s)) :: (unit, 'd) fixed_result) = Ret (res, a)"
    and ph: "ph = (case res of Inl e \<Rightarrow> Parked r | Inr buf \<Rightarrow> Got buf r)"
  shows "sys_ok view E (s\<lparr>sy_arena := (sy_arena s)\<lparr>af_inner := a\<rparr>, sy_tasks := (sy_tasks s)[t := ph],
    sy_live := sy_live s \<union> gained ph\<rparr>)"
proof -
  let ?v = "notify_state view s" and ?ts = "sy_tasks s"
  note old = ok [unfolded sys_ok_def]
  have reg: "nr_registered r" using old t nth_mem [OF t(1)] unfolding count_ok_def by fastforce
  have c: "counted ph" "counted (?ts ! t)" "flag_ok ph" "future_of ph = future_of (?ts ! t)" "armed (?ts ! t)"
    "\<And>q. ph \<noteq> Registered q"
    using reg ph t(2) by (auto simp: counted_def future_of_def split: sum.splits)
  have cnt: "count_ok (fs_count (af_waiters (sy_arena s))) (?ts[t := ph])"
    using count_ok_update [OF _ t(1) c(3)] old c(1,2) by fastforce
  have fo: "futures_ok ?v ?ts" using old by blast
  have fut: "futures_ok ?v (?ts[t := ph])"
    by (rule futures_ok_update [OF fo t(1)]) (use fo t c in \<open>simp_all add: futures_ok_def\<close>)
  have tr: "ai_wake_handle a = ai_wake_handle (af_inner (sy_arena s)) \<and>
    (case res of
       Inl e \<Rightarrow> arena_ok E (Fixed a) (sy_live s) \<and> ai_slot_count a - card (sy_live s) = 0
     | Inr buf \<Rightarrow> arena_ok E (Fixed a) (insert (buf_allocation buf) (sy_live s)) \<and>
         Suc (ai_slot_count a - card (insert (buf_allocation buf) (sy_live s))) = free_slots s)"
    using fixed_try [OF _ eq] old unfolding free_slots_def by blast
  show ?thesis
  proof (cases res)
    case (Inl e)
    then show ?thesis
      using tr old cnt fut ph by (simp add: sys_ok_def free_slots_def wakes_ok_def del: arena_ok.simps)
  next
    case (Inr buf)
    have rt: "Suc (length (filter retrying (?ts[t := ph]))) = length (filter retrying ?ts)"
      using filter_update [OF t(1), of retrying ph] t(2) ph Inr by simp
    have pw: "parked_waiting ?v ?ts" if "parked_waiting ?v (?ts[t := ph])"
      using parked_waiting_update [OF that, of ?v] ph Inr by simp
    show ?thesis
      using tr old cnt fut rt pw ph Inr
      by (auto simp: sys_ok_def free_slots_def wakes_ok_def simp del: arena_ok.simps)
  qed
qed

lemma notify_step:
  assumes N: "notify_ok N view" and ok: "sys_ok view E s" and t: "t < length (sy_tasks s)" "sy_tasks s ! t = Notifying c r"
  shows "sys_ok view E (s\<lparr>sy_arena := (sy_arena s)\<lparr>af_waiters := notify_one N (af_waiters (sy_arena s))\<rparr>,
    sy_tasks := (sy_tasks s)[t := Leaving c r], sy_live := sy_live s \<union> gained (Leaving c r)\<rparr>)"
proof -
  let ?v = "view_notify_one (notify_state view s)" and ?ts = "sy_tasks s"
  let ?w = "notify_one N (af_waiters (sy_arena s))"
  have w: "view (fs_notify ?w) = ?v" "fs_count ?w = fs_count (af_waiters (sy_arena s))"
    using view_ops(6) [OF N] by (simp_all add: notify_one_def)
  have fo: "futures_ok ?v ?ts" using notified_ok(1) [OF N ok] .
  have flag: "\<not> nr_registered r" using ok t nth_mem [OF t(1)] unfolding sys_ok_def count_ok_def by fastforce
  show ?thesis
  proof (rule task_frame [OF ok t(1) _ refl, where v' = ?v])
    show "futures_ok ?v (?ts[t := Leaving c r])"
      by (rule futures_ok_update [OF fo t(1)]) (use fo t(2) in \<open>simp_all add: futures_ok_def future_of_def\<close>)
    show "parked_waiting (notify_state view s) ?ts \<and> length (nv_notified (notify_state view s)) + of_bool (retrying (?ts ! t))
        \<le> length (nv_notified ?v) + of_bool (retrying (Leaving c r))"
      if "parked_waiting ?v (?ts[t := Leaving c r])"
      using parked_waiting_update [OF that, of ?v] notified_ok(3,4) [OF N ok, of ?ts] t(2) by simp
  qed (use w t(2) flag in \<open>simp_all add: counted_def\<close>)
qed

lemma task_moves_ok:
  assumes N: "notify_ok N view" and ok: "sys_ok view E s" and st: "task_moves N E p s s'"
  shows "sys_ok view E s'"
  using st
proof cases
  case (move t ph af)
  note m = move(3) and q = quiet_step [OF ok move(2)]
  have flag: "flag_ok (sy_tasks s ! t)" using ok nth_mem [OF move(2)] unfolding sys_ok_def count_ok_def by blast
  show ?thesis
  proof (cases "sy_tasks s ! t")
    case Begin
    then show ?thesis using m register_step [OF N ok move(2)] unfolding move(1) by (auto simp: split_beta)
  next
    case (Registered r)
    then show ?thesis using m enable_step [OF N ok move(2)] unfolding move(1) by auto
  next
    case (Enabled r)
    then show ?thesis unfolding move(1) using m
      by (intro q) (auto simp: count_up_def counted_def future_of_def split: if_splits)
  next
    case (Prepared r)
    then show ?thesis unfolding move(1) using m try_step [OF ok move(2)] by (auto simp: obind_eq_Ret)
  next
    case (Parked r)
    then show ?thesis unfolding move(1) using m poll_step [OF N ok move(2)] by (auto simp: split_beta)
  next
    case (Ready r)
    then show ?thesis unfolding move(1) using m
      by (intro q) (auto simp: poll_ready_def count_down_def counted_def future_of_def split: if_splits)
  next
    case (Got buf r)
    then show ?thesis unfolding move(1) using m
      by (intro q) (auto simp: revoke_def count_down_def counted_def future_of_def split: if_splits)
  next
    case (Dropping c r)
    then show ?thesis unfolding move(1) using m
      by (intro q) (auto simp: count_down_def counted_def future_of_def split: if_splits)
  next
    case (Loading c r)
    then show ?thesis unfolding move(1) using m flag
      by (intro q) (auto simp: counted_def future_of_def split: if_splits)
  next
    case (Notifying c r)
    then show ?thesis unfolding move(1) using m notify_step [OF N ok move(2)] by auto
  next
    case (Leaving c r)
    then show ?thesis unfolding move(1) using m drop_step [OF N ok move(2)] by auto
  next
    case (Finished buf)
    then have "ph = Finished buf" "af = sy_arena s" using m by simp_all
    moreover from this Finished have "(sy_tasks s)[t := ph] = sy_tasks s" by (metis list_update_id)
    ultimately have "af = sy_arena s" "(sy_tasks s)[t := ph] = sy_tasks s" "gained ph = {}" by simp_all
    then show ?thesis unfolding move(1) using ok by simp
  next
    case Gone
    then have "ph = Gone" "af = sy_arena s" using m by simp_all
    moreover from this Gone have "(sy_tasks s)[t := ph] = sy_tasks s" by (metis list_update_id)
    ultimately have "af = sy_arena s" "(sy_tasks s)[t := ph] = sy_tasks s" "gained ph = {}" by simp_all
    then show ?thesis unfolding move(1) using ok by simp
  qed
qed

lemma future_of_append:
  "u < Suc (length ts) \<Longrightarrow> future_of ((ts @ [Begin]) ! u) = (if u < length ts then future_of (ts ! u) else None)"
  by (auto simp: nth_append future_of_def less_Suc_eq)

lemma armed_append: "u < Suc (length ts) \<Longrightarrow> armed ((ts @ [Begin]) ! u) \<longleftrightarrow> u < length ts \<and> armed (ts ! u)"
  by (auto simp: nth_append less_Suc_eq)

lemma futures_okD:
  assumes "futures_ok v ts"
  shows "nv_permit v \<longrightarrow> nv_waiting v = []" "distinct (nv_waiting v @ nv_notified v)"
    "f \<in> queued v \<Longrightarrow> \<exists>t < length ts. future_of (ts ! t) = Some f"
    "t < length ts \<Longrightarrow> future_of (ts ! t) = Some f \<Longrightarrow> f < nv_next v"
    "t < length ts \<Longrightarrow> u < length ts \<Longrightarrow> future_of (ts ! t) = Some f \<Longrightarrow> future_of (ts ! u) = Some f \<Longrightarrow> u = t"
    "t < length ts \<Longrightarrow> future_of (ts ! t) = Some f \<Longrightarrow> armed (ts ! t) \<Longrightarrow> f \<in> queued v \<union> set (nv_done v)"
    "Registered r \<in> set ts \<Longrightarrow> nr_future r \<notin> queued v"
  using assms unfolding futures_ok_def by blast+

lemma futures_ok_spawn:
  assumes "futures_ok v ts"
  shows "futures_ok v (ts @ [Begin])"
proof -
  note d = futures_okD [OF assms]
  have own: "\<exists>u < Suc (length ts). future_of ((ts @ [Begin]) ! u) = Some f" if "f \<in> queued v" for f
    using d(3) [OF that] by (metis future_of_append less_SucI)
  have each: "f < nv_next v \<and> (\<forall>w < Suc (length ts). future_of ((ts @ [Begin]) ! w) = Some f \<longrightarrow> w = u) \<and>
      (armed ((ts @ [Begin]) ! u) \<longrightarrow> f \<in> queued v \<union> set (nv_done v))"
    if "u < Suc (length ts)" "future_of ((ts @ [Begin]) ! u) = Some f" for u f
  proof -
    have u: "u < length ts" "future_of (ts ! u) = Some f"
      using that by (simp_all add: future_of_append split: if_splits)
    have "w = u" if "w < Suc (length ts)" "future_of ((ts @ [Begin]) ! w) = Some f" for w
      using that d(5) [OF u(1) _ u(2), of w] by (simp add: future_of_append split: if_splits)
    then show ?thesis using d(4,6) [OF u] armed_append [OF that(1)] by simp
  qed
  have reg: "nr_future r \<notin> queued v" if "Registered r \<in> set (ts @ [Begin])" for r using that d(7) by simp
  show ?thesis
    unfolding futures_ok_def length_append_singleton
    using d(1,2) own each reg by blast
qed

lemma spawn_ok:
  assumes ok: "sys_ok view E s"
  shows "sys_ok view E (s\<lparr>sy_tasks := sy_tasks s @ [Begin]\<rparr>)"
proof -
  let ?v = "notify_state view s" and ?ts = "sy_tasks s"
  note old = ok [unfolded sys_ok_def]
  have "count_ok (fs_count (af_waiters (sy_arena s))) (?ts @ [Begin])" using old by (simp add: count_ok_def counted_def)
  moreover have "futures_ok ?v (?ts @ [Begin])" using old futures_ok_spawn by blast
  moreover have "wakes_ok ?v (free_slots s) (?ts @ [Begin]) (sy_wakes s + sy_notifies s)"
    using old unfolding wakes_ok_def parked_waiting_def by auto
  ultimately show ?thesis using old by (simp add: sys_ok_def free_slots_def del: arena_ok.simps)
qed

lemma cancel_ok:
  assumes ok: "sys_ok view E s" and t: "t < length (sy_tasks s)" "sy_tasks s ! t = Parked r"
  shows "sys_ok view E (s\<lparr>sy_tasks := (sy_tasks s)[t := Dropping Cancelled r]\<rparr>)"
  using quiet_step [OF ok t(1), of "sy_arena s" "Dropping Cancelled r"] t(2)
  by (simp add: counted_def future_of_def)

lemma arena_change_ok:
  assumes ok: "sys_ok view E s" and ar: "arena_ok E (Fixed a) L" "ai_wake_handle a"
    and fr: "ai_slot_count a - card L \<le> free_slots s + k"
  shows "sys_ok view E (s\<lparr>sy_arena := (sy_arena s)\<lparr>af_inner := a\<rparr>, sy_live := L, sy_wakes := sy_wakes s + k\<rparr>)"
  using ok ar fr unfolding sys_ok_def by (auto simp: free_slots_def wakes_ok_def simp del: arena_ok.simps)

lemma load_ok:
  assumes ok: "sys_ok view E s" and w: "sy_wakes s = Suc n" and len: "length (sy_tasks s) < 2 ^ 64"
  shows "sys_ok view E (s\<lparr>sy_wakes := n,
    sy_notifies := sy_notifies s + (if anyone_waiting (af_waiters (sy_arena s)) then 1 else 0)\<rparr>)"
proof (cases "anyone_waiting (af_waiters (sy_arena s))")
  case True
  then show ?thesis using ok w unfolding sys_ok_def by (simp add: free_slots_def del: arena_ok.simps)
next
  case False
  let ?n = "length (filter counted (sy_tasks s))"
  have "word_of_nat ?n = (0 :: usize)" using False ok by (simp add: anyone_waiting_def sys_ok_def count_ok_def)
  moreover have "?n < 2 ^ 64" using len length_filter_le [of counted "sy_tasks s"] by linarith
  then have "unat (word_of_nat ?n :: usize) = ?n" by (simp add: unat_of_nat)
  ultimately have "?n = 0" by simp
  then have "\<not> counted ph" if "ph \<in> set (sy_tasks s)" for ph using that by (simp add: filter_empty_conv)
  moreover have "counted (Parked r)" if "Parked r \<in> set (sy_tasks s)" for r
    using that ok unfolding sys_ok_def count_ok_def by (force simp: counted_def)
  ultimately have "\<not> parked_waiting v (sy_tasks s)" for v by (auto simp: parked_waiting_def)
  then show ?thesis using ok False unfolding sys_ok_def by (simp add: free_slots_def wakes_ok_def del: arena_ok.simps)
qed

lemma sys_step_ok:
  assumes N: "notify_ok N view" and ok: "sys_ok view E s" and len: "length (sy_tasks s) < 2 ^ 64" and st: "sys_step N E p s s'"
  shows "sys_ok view E s'"
  using st
proof cases
  case spawn
  then show ?thesis using spawn_ok [OF ok] by simp
next
  case task
  then show ?thesis by (rule task_moves_ok [OF N ok])
next
  case (cancel t r)
  then show ?thesis using cancel_ok [OF ok] by simp
next
  case (allocate res a)
  have tr: "ai_wake_handle a = ai_wake_handle (af_inner (sy_arena s)) \<and>
    (case res of
       Inl e \<Rightarrow> arena_ok E (Fixed a) (sy_live s) \<and> ai_slot_count a - card (sy_live s) = 0
     | Inr buf \<Rightarrow> arena_ok E (Fixed a) (insert (buf_allocation buf) (sy_live s)) \<and>
         Suc (ai_slot_count a - card (insert (buf_allocation buf) (sy_live s))) = free_slots s)"
    using fixed_try allocate(2) ok unfolding sys_ok_def free_slots_def deref_async_fixed_def by blast
  have wh: "ai_wake_handle (af_inner (sy_arena s))" using ok unfolding sys_ok_def by blast
  show ?thesis
  proof (cases res)
    case (Inl e)
    then show ?thesis unfolding allocate(1) using tr wh arena_change_ok [OF ok, of a "sy_live s" 0] by simp
  next
    case (Inr buf)
    then show ?thesis unfolding allocate(1)
      using tr wh arena_change_ok [OF ok, of a "insert (buf_allocation buf) (sy_live s)" 0] by (simp del: arena_ok.simps)
  qed
next
  case (release k w a)
  have "arena_ok E (Fixed a) (sy_live s - {k}) \<and> ai_wake_handle a \<and> w = Some WakeSlot \<and>
    ai_slot_count a - card (sy_live s - {k}) \<le> Suc (free_slots s)"
    using fixed_released [OF _ release(2) _ release(3)] ok unfolding sys_ok_def free_slots_def by blast
  then show ?thesis unfolding release(1) using arena_change_ok [OF ok, of a "sy_live s - {k}" 1] by simp
next
  case (load n)
  then show ?thesis using load_ok [OF ok _ len] by simp
next
  case (notify n)
  have "notify_state view s' = view_notify_one (notify_state view s)"
    using view_ops(6) [OF N] unfolding notify(1) by (simp add: notify_one_def)
  then show ?thesis using ok notified_ok(1,2) [OF N ok] notify
    unfolding sys_ok_def by (simp add: notify_one_def free_slots_def del: arena_ok.simps)
qed

lemma sys_step_tasks: "sys_step N E p s s' \<Longrightarrow> length (sy_tasks s) \<le> length (sy_tasks s')"
  by (induction rule: sys_step.induct) (auto elim: task_moves.cases)

lemma sys_reachable_ok:
  assumes "notify_ok N view" "(sys_step N E p)\<^sup>*\<^sup>* s s'" "sys_ok view E s" "length (sy_tasks s') < 2 ^ 64"
  shows "sys_ok view E s'"
  using assms(2,4)
proof (induction rule: rtranclp_induct)
  case base
  then show ?case using assms(3) by simp
next
  case (step s1 s2)
  then show ?case using sys_step_tasks [OF step(2)] sys_step_ok [OF assms(1) _ _ step(2)] by simp
qed

lemma start_ok:
  assumes "notify_ok N view" "arena_ok E (Fixed a) L" "ai_wake_handle a"
  shows "sys_ok view E (start_system \<lparr>af_inner = a, af_waiters = new_fixed_slot N\<rparr> L)"
proof -
  have "view (nt_new N) = view_new" using assms(1) unfolding notify_ok_def by blast
  then show ?thesis
    using assms(2,3)
    by (simp add: sys_ok_def start_system_def new_fixed_slot_def view_new_def count_ok_def futures_ok_def wakes_ok_def
        parked_waiting_def del: arena_ok.simps)
qed

text \<open>Nothing is under way: no release is about to notify, and every task has ended or awaits a future that is pending.\<close>

definition settled :: "'n Notify \<Rightarrow> ('d, 'n) async_system \<Rightarrow> bool" where
  "settled N s \<longleftrightarrow> sy_wakes s = 0 \<and> sy_notifies s = 0 \<and>
     (\<forall>ph \<in> set (sy_tasks s).
        case ph of
          Parked r \<Rightarrow> \<not> fst (poll_future N r (af_waiters (sy_arena s)))
        | Finished buf \<Rightarrow> True
        | Gone \<Rightarrow> True
        | _ \<Rightarrow> False)"

lemma settled_phases:
  assumes "settled N s" "ph \<in> set (sy_tasks s)"
  obtains (parked) r where "ph = Parked r" "\<not> fst (poll_future N r (af_waiters (sy_arena s)))"
  | (ended) "future_of ph = None"
proof -
  have "case ph of
          Parked r \<Rightarrow> \<not> fst (poll_future N r (af_waiters (sy_arena s)))
        | Finished buf \<Rightarrow> True
        | Gone \<Rightarrow> True
        | _ \<Rightarrow> False" using assms unfolding settled_def by blast
  then show ?thesis using that by (cases ph) (simp_all add: future_of_def)
qed

lemma pending_waits:
  assumes N: "notify_ok N view" and ok: "sys_ok view E s" and r: "Parked r \<in> set (sy_tasks s)"
    and p: "\<not> fst (poll_future N r (af_waiters (sy_arena s)))"
  shows "nr_future r \<in> set (nv_waiting (notify_state view s))" "nr_future r \<notin> set (nv_notified (notify_state view s))"
proof -
  let ?v = "notify_state view s"
  have fo: "futures_ok ?v (sy_tasks s)" using ok unfolding sys_ok_def by blast
  obtain t where t: "t < length (sy_tasks s)" "sy_tasks s ! t = Parked r" using r by (auto simp: in_set_conv_nth)
  have "nr_future r \<in> queued ?v \<union> set (nv_done ?v)" using futures_okD(6) [OF fo t(1)] t(2) by (simp add: future_of_def)
  moreover have "\<not> fst (view_poll (nr_future r) ?v)" using p view_ops(4) [OF N] by (simp add: poll_future_def split_beta)
  ultimately show "nr_future r \<in> set (nv_waiting ?v)" "nr_future r \<notin> set (nv_notified ?v)"
    by (auto simp: view_poll_def split: if_splits)
qed

lemma settled_quiet:
  assumes N: "notify_ok N view" and ok: "sys_ok view E s" and st: "settled N s"
  shows "nv_notified (notify_state view s) = []" "filter retrying (sy_tasks s) = []"
proof -
  let ?v = "notify_state view s"
  have fo: "futures_ok ?v (sy_tasks s)" using ok unfolding sys_ok_def by blast
  have "f \<notin> set (nv_notified ?v)" for f
  proof
    assume f: "f \<in> set (nv_notified ?v)"
    then obtain t where t: "t < length (sy_tasks s)" "future_of (sy_tasks s ! t) = Some f"
      using futures_okD(3) [OF fo, of f] by blast
    from st nth_mem [OF t(1)] show False
    proof (cases rule: settled_phases)
      case (parked r)
      then show False using pending_waits(2) [OF N ok _ parked(2)] f t nth_mem [OF t(1)] by (simp add: future_of_def)
    qed (simp add: t(2))
  qed
  then show "nv_notified ?v = []" by (metis list.set_intros(1) neq_Nil_conv)
  have "\<not> retrying ph" if "ph \<in> set (sy_tasks s)" for ph
    using st that by (cases ph) (auto simp: settled_def)
  then show "filter retrying (sy_tasks s) = []" by (simp add: filter_empty_conv)
qed

text \<open>C11. No wakeup is lost. However tasks, cancellations, synchronous allocations and releases interleave, access by
  access: once nothing is under way any more, a task is left waiting only if every slot of the arena is
  in use.\<close>

theorem no_lost_wakeup:
  assumes "notify_ok N view" "arena_ok E (Fixed a) L" "ai_wake_handle a"
    "(sys_step N E p)\<^sup>*\<^sup>* (start_system \<lparr>af_inner = a, af_waiters = new_fixed_slot N\<rparr> L) s"
    "length (sy_tasks s) < 2 ^ 64" "settled N s" "Parked r \<in> set (sy_tasks s)"
  shows "sy_live s = FixedSlot ` {..<ai_slot_count (af_inner (sy_arena s))}"
proof -
  let ?v = "notify_state view s" and ?n = "ai_slot_count (af_inner (sy_arena s))"
  have ok: "sys_ok view E s" using sys_reachable_ok [OF assms(1,4) start_ok [OF assms(1-3)] assms(5)] .
  have "\<not> fst (poll_future N r (af_waiters (sy_arena s)))" using assms(6,7) unfolding settled_def by auto
  then have "parked_waiting ?v (sy_tasks s)"
    using pending_waits(1) [OF assms(1) ok assms(7)] assms(7) unfolding parked_waiting_def by blast
  then have "free_slots s = 0"
    using ok settled_quiet [OF assms(1) ok assms(6)] assms(6) unfolding sys_ok_def wakes_ok_def settled_def by simp
  moreover obtain S where S: "sy_live s = FixedSlot ` S" "fixed_inv (af_inner (sy_arena s)) S"
    using ok unfolding sys_ok_def by auto
  moreover have "S \<subseteq> {..<?n}" using S(2) by (simp add: fixed_inv_def)
  moreover have "card (FixedSlot ` S) = card S" by (simp add: card_image inj_on_def)
  ultimately have "S = {..<?n}" by (intro card_seteq) (simp_all add: free_slots_def)
  then show ?thesis using S(1) by simp
qed

end
