(* ===== verification/Fixed_Tasks.thy ===== *)
theory Fixed_Tasks
  imports Fixed_Waiters
begin

text \<open>
  Runs of the tasks of \<open>Fixed_Waiters\<close>. A task that is not interrupted performs the operations of the loop
  \<^verbatim>\<open>allocate_with_waiter\<close> of \<^verbatim>\<open>src/src/async_alloc.rs\<close> one after the other. And what happens to the
  notification of one release when its slot is gone again: the drop of a registration at the end of an
  iteration passes the notification on, so that two waiting tasks keep waking each other.
\<close>

text \<open>Several steps of one task, with what it gained.\<close>

fun drive ::
    "'n Notify \<Rightarrow> externals \<Rightarrow> profile \<Rightarrow> nat \<Rightarrow> phase \<Rightarrow> ('d, 'n) AsyncFixedArena \<Rightarrow>
     (phase \<times> ('d, 'n) AsyncFixedArena \<times> AllocationKind set) outcome" where
  "drive N E p 0 ph af = Ret (ph, af, {})"
| "drive N E p (Suc n) ph af =
     obind (task_step N E p ph af) (\<lambda>(ph', af').
     obind (drive N E p n ph' af') (\<lambda>(ph'', af'', G). Ret (ph'', af'', gained ph' \<union> G)))"

lemma drive_moves:
  assumes "drive N E p n (sy_tasks s ! t) (sy_arena s) = Ret (ph, af, G)" "t < length (sy_tasks s)"
  shows "(task_moves N E p ^^ n) s (s\<lparr>sy_arena := af, sy_tasks := (sy_tasks s)[t := ph], sy_live := sy_live s \<union> G\<rparr>)"
  using assms
proof (induction n arbitrary: s G)
  case 0
  then have "ph = sy_tasks s ! t" "af = sy_arena s" "G = {}" by simp_all
  then show ?case by simp
next
  case (Suc n)
  then obtain ph' af' G' where st: "task_step N E p (sy_tasks s ! t) (sy_arena s) = Ret (ph', af')"
    "drive N E p n ph' af' = Ret (ph, af, G')" "G = gained ph' \<union> G'"
    by (auto simp: obind_eq_Ret)
  define s1 where "s1 = s\<lparr>sy_arena := af', sy_tasks := (sy_tasks s)[t := ph'], sy_live := sy_live s \<union> gained ph'\<rparr>"
  have "task_moves N E p s s1" unfolding s1_def using Suc.prems(2) st(1) by (rule task_moves.move)
  moreover have "(task_moves N E p ^^ n) s1 (s1\<lparr>sy_arena := af, sy_tasks := (sy_tasks s1)[t := ph], sy_live := sy_live s1 \<union> G'\<rparr>)"
    by (rule Suc.IH) (use st(2) Suc.prems(2) in \<open>simp_all add: s1_def\<close>)
  moreover have "s1\<lparr>sy_arena := af, sy_tasks := (sy_tasks s1)[t := ph], sy_live := sy_live s1 \<union> G'\<rparr> =
      s\<lparr>sy_arena := af, sy_tasks := (sy_tasks s)[t := ph], sy_live := sy_live s \<union> G\<rparr>"
    by (simp add: s1_def st(3) Un_assoc)
  ultimately show ?case using relpowp_Suc_I2 [of "task_moves N E p" s s1] by simp
qed

text \<open>The loop as written: an iteration up to its await, and the await with the end of the iteration.\<close>

definition iteration ::
    "'n Notify \<Rightarrow> externals \<Rightarrow> profile \<Rightarrow> ('d, 'n) AsyncFixedArena \<Rightarrow>
     ((unit Buffer + NotifyRegistration) \<times> ('d, 'n) AsyncFixedArena) outcome" where
  "iteration N E p af =
     (let (registration, s) = register N (af_waiters af);
          (registration, s) = prepare N registration s
      in obind (allocate_fixed E p (af_inner af) :: (unit, 'd) fixed_result) (\<lambda>(res, a).
           case res of
             Inr buf \<Rightarrow>
               (let (registration, s) = revoke registration s
                in Ret (Inl buf, \<lparr>af_inner = a, af_waiters = drop_registration N registration s\<rparr>))
           | Inl e \<Rightarrow> Ret (Inr registration, \<lparr>af_inner = a, af_waiters = s\<rparr>)))"

definition awaken ::
    "'n Notify \<Rightarrow> NotifyRegistration \<Rightarrow> ('d, 'n) AsyncFixedArena \<Rightarrow> bool \<times> ('d, 'n) AsyncFixedArena" where
  "awaken N registration af =
     (let (ready, registration, s) = poll N registration (af_waiters af)
      in (ready, af\<lparr>af_waiters := (if ready then drop_registration N registration s else s)\<rparr>))"

lemmas loop_defs = register_def prepare_def enable_future_def count_up_def count_down_def revoke_def drop_registration_def
  poll_future_def poll_ready_def drop_future_def anyone_waiting_def notify_one_def Let_def


text \<open>Two tasks await, one of them notified, and no slot is free.\<close>

definition spinning :: "('n \<Rightarrow> notify_view) \<Rightarrow> externals \<Rightarrow> ('d, 'n) async_system \<Rightarrow> nat \<Rightarrow> nat \<Rightarrow> bool" where
  "spinning view E s t u \<longleftrightarrow>
     (\<exists>r q. length (sy_tasks s) = 2 \<and> {t, u} = {0, 1} \<and> sy_tasks s ! t = Parked r \<and> sy_tasks s ! u = Parked q \<and>
        nv_notified (notify_state view s) = [nr_future r] \<and> nv_waiting (notify_state view s) = [nr_future q] \<and>
        (\<forall>f \<in> set (nv_done (notify_state view s)). f < nv_next (notify_state view s) \<and> f \<noteq> nr_future r \<and> f \<noteq> nr_future q)) \<and>
     sys_ok view E s \<and> sy_wakes s = 0 \<and> sy_notifies s = 0 \<and> free_slots s = 0"

lemma task_moves_pow_ok:
  assumes "notify_ok N view" "sys_ok view E s" "(task_moves N E p ^^ n) s s'"
  shows "sys_ok view E s'"
  using assms(3)
proof (induction n arbitrary: s')
  case 0
  then show ?case using assms(2) by simp
next
  case (Suc n)
  then obtain b where "(task_moves N E p ^^ n) s b" "task_moves N E p b s'" by auto
  then show ?case using task_moves_ok [OF assms(1) Suc.IH] by blast
qed

text \<open>The queue after one round of the notified task: poll, notification, drop, new future, enabling.\<close>

definition view_round :: "nat \<Rightarrow> notify_view \<Rightarrow> notify_view" where
  "view_round f v = snd (view_poll (nv_next v) (snd (view_notified (view_drop f (view_notify_one (snd (view_poll f v)))))))"

lemma view_round_swaps:
  assumes "nv_notified v = [f]" "nv_waiting v = [g]" "\<not> nv_permit v" "f \<noteq> g" "f < nv_next v" "g < nv_next v"
    "\<forall>x \<in> set (nv_done v). x < nv_next v \<and> x \<noteq> f \<and> x \<noteq> g"
  shows "view_round f v = v\<lparr>nv_notified := [g], nv_waiting := [nv_next v], nv_done := f # nv_done v, nv_next := nv_next v + 1\<rparr>"
proof -
  have nd: "f \<notin> set (nv_done v)" "nv_next v \<notin> set (nv_done v)" using assms(7) by blast+
  define v1 where "v1 = v\<lparr>nv_notified := [], nv_done := f # nv_done v\<rparr>"
  define v2 where "v2 = v1\<lparr>nv_waiting := [], nv_notified := [g]\<rparr>"
  have "snd (view_poll f v) = v1" using nd(1) by (simp add: view_poll_def assms(1) v1_def)
  moreover have "view_notify_one v1 = v2" by (simp add: view_notify_one_def v1_def v2_def assms(2))
  moreover have "view_drop f v2 = v2" using assms(4) by (simp add: view_drop_def v2_def)
  moreover have "snd (view_notified v2) = v2\<lparr>nv_next := nv_next v + 1\<rparr>" by (simp add: view_notified_def v2_def v1_def)
  moreover have "snd (view_poll (nv_next v) (v2\<lparr>nv_next := nv_next v + 1\<rparr>)) =
      v2\<lparr>nv_next := nv_next v + 1, nv_waiting := [nv_next v]\<rparr>"
    using nd(2) assms(3,5,6) by (simp add: view_poll_def v2_def v1_def)
  ultimately show ?thesis by (simp add: view_round_def v2_def v1_def)
qed

lemma round_drive:
  fixes af :: "('d, 'n) AsyncFixedArena"
  assumes N: "notify_ok N view" and v: "v = view (fs_notify (af_waiters af))"
    and r: "nr_registered r" "nr_future r \<in> set (nv_notified v)" "fs_count (af_waiters af) = 2"
    and full: "(allocate_fixed E p (af_inner af) :: (unit, 'd) fixed_result) = Ret (Inl e, a)"
  obtains r' af' where "drive N E p 10 (Parked r) af = Ret (Parked r', af', {})" "af_inner af' = a"
    "nr_future r' = nv_next v" "view (fs_notify (af_waiters af')) = view_round (nr_future r) v"
proof -
  let ?n0 = "fs_notify (af_waiters af)" and ?f = "nr_future r"
  have ready: "fst (nt_poll N ?f ?n0)" using view_ops(4) [OF N] r(2) v by (simp add: view_poll_def)
  let ?n3 = "nt_drop N ?f (nt_notify_one N (snd (nt_poll N ?f ?n0)))"
  let ?r = "\<lparr>nr_future = fst (nt_notified_owned N ?n3), nr_registered = True, nr_woken = False\<rparr>"
  let ?af = "\<lparr>af_inner = a, af_waiters = \<lparr>fs_notify = snd (nt_enable N (nr_future ?r) (snd (nt_notified_owned N ?n3))), fs_count = 2\<rparr>\<rparr>"
  have d: "drive N E p 10 (Parked r) af = Ret (Parked ?r, ?af, {})"
    using ready r(1,3) full
    by (simp add: numeral_eq_Suc split_beta poll_future_def poll_ready_def count_down_def count_up_def anyone_waiting_def
        notify_one_def drop_future_def register_def enable_future_def Let_def)
  have "nv_next (view_drop ?f (view_notify_one (snd (view_poll ?f v)))) = nv_next v"
    by (simp add: view_drop_facts(2) view_notify_one_facts(2) view_poll_def)
  then show ?thesis
    by (intro that [OF d]) (simp_all add: view_ops [OF N] v [symmetric] view_round_def view_notified_def)
qed

lemma spinning_round:
  fixes s :: "('d, 'n) async_system"
  assumes N: "notify_ok N view" and sp: "spinning view E s t u"
  shows "\<exists>s'. (task_moves N E p ^^ 10) s s' \<and> spinning view E s' u t \<and> sy_live s' = sy_live s"
proof -
  let ?v = "notify_state view s"
  obtain r q where ts: "length (sy_tasks s) = 2" "{t, u} = {0, 1}" "sy_tasks s ! t = Parked r" "sy_tasks s ! u = Parked q"
    and v: "nv_notified ?v = [nr_future r]" "nv_waiting ?v = [nr_future q]"
      "\<forall>f \<in> set (nv_done ?v). f < nv_next ?v \<and> f \<noteq> nr_future r \<and> f \<noteq> nr_future q"
    and ok: "sys_ok view E s" and s: "sy_wakes s = 0" "sy_notifies s = 0" "free_slots s = 0"
    using sp unfolding spinning_def by blast
  have tu: "t < length (sy_tasks s)" "u < length (sy_tasks s)" "t \<noteq> u" using ts(1,2) by (auto simp: doubleton_eq_iff)
  have fo: "futures_ok ?v (sy_tasks s)" and co: "count_ok (fs_count (af_waiters (sy_arena s))) (sy_tasks s)"
    and ao: "arena_ok E (Fixed (af_inner (sy_arena s))) (sy_live s)"
    using ok unfolding sys_ok_def by blast+
  have fut: "nr_future r < nv_next ?v" "nr_future q < nv_next ?v" "nr_future r \<noteq> nr_future q" "\<not> nv_permit ?v"
    using futures_okD(1,2) [OF fo] futures_okD(4) [OF fo tu(1)] futures_okD(4) [OF fo tu(2)] ts v by (auto simp: future_of_def)
  have "counted ph" if asm: "ph \<in> set (sy_tasks s)" for ph
  proof -
    obtain w where "w < 2" "ph = sy_tasks s ! w" using asm ts(1) by (auto simp: in_set_conv_nth)
    then have "ph = Parked r \<or> ph = Parked q" using ts(2-4) by (auto simp: doubleton_eq_iff less_2_cases_iff)
    then show ?thesis using co asm unfolding count_ok_def by (auto simp: counted_def)
  qed
  then have cnt: "fs_count (af_waiters (sy_arena s)) = 2" "nr_registered r"
    using co ts(1,3) nth_mem [OF tu(1)] by (auto simp: count_ok_def filter_id_conv [THEN iffD2] counted_def)
  obtain res a where al: "(allocate_fixed E p (af_inner (sy_arena s)) :: (unit, 'd) fixed_result) = Ret (res, a)"
    using ao ref_allocate_fixed [where ?'h = unit] by fastforce
  note tr = fixed_try [OF ao al]
  have "Suc x \<noteq> free_slots s" for x using s(3) by simp
  then obtain e where e: "res = Inl e" using tr unfolding free_slots_def by (cases res) auto
  obtain r' af' where d: "drive N E p 10 (Parked r) (sy_arena s) = Ret (Parked r', af', {})" "af_inner af' = a"
    and r': "nr_future r' = nv_next ?v" and v': "view (fs_notify (af_waiters af')) = view_round (nr_future r) ?v"
    by (rule round_drive [OF N refl cnt(2) _ cnt(1) al [unfolded e]]) (simp_all add: v(1))
  define s' where "s' = s\<lparr>sy_arena := af', sy_tasks := (sy_tasks s)[t := Parked r'], sy_live := sy_live s \<union> {}\<rparr>"
  have mv: "(task_moves N E p ^^ 10) s s'" unfolding s'_def by (rule drive_moves [OF _ tu(1)]) (simp add: ts(3) d(1))
  have "free_slots s' = 0" using tr e d(2) by (simp add: s'_def free_slots_def)
  moreover have "notify_state view s' = ?v\<lparr>nv_notified := [nr_future q], nv_waiting := [nr_future r'],
      nv_done := nr_future r # nv_done ?v, nv_next := nv_next ?v + 1\<rparr>"
    using view_round_swaps [OF v(1,2) fut(4,3,1,2) v(3)] v' r' by (simp add: s'_def)
  moreover have "{u, t} = {0, 1}" by (subst insert_commute) (rule ts(2))
  moreover have "length (sy_tasks s') = 2" "sy_tasks s' ! u = Parked q" "sy_tasks s' ! t = Parked r'"
    "sy_wakes s' = 0" "sy_notifies s' = 0"
    using ts(1,4) tu s by (simp_all add: s'_def)
  moreover have "\<forall>f \<in> set (nr_future r # nv_done ?v). f < nv_next ?v + 1 \<and> f \<noteq> nr_future q \<and> f \<noteq> nr_future r'"
    using v(3) fut(1,3) r' by auto
  ultimately have "spinning view E s' u t"
    unfolding spinning_def using task_moves_pow_ok [OF N ok mv] by simp
  then show ?thesis using mv by (intro exI [of _ s']) (simp add: s'_def)
qed

lemma drive_steps:
  assumes "drive N E p n (sy_tasks s ! t) (sy_arena s) = Ret (ph, af, G)" "t < length (sy_tasks s)"
  shows "(sys_step N E p)\<^sup>*\<^sup>* s (s\<lparr>sy_arena := af, sy_tasks := (sy_tasks s)[t := ph], sy_live := sy_live s \<union> G\<rparr>)"
proof -
  have "(task_moves N E p)\<^sup>*\<^sup>* s (s\<lparr>sy_arena := af, sy_tasks := (sy_tasks s)[t := ph], sy_live := sy_live s \<union> G\<rparr>)"
    using drive_moves [OF assms] by (rule relpowp_imp_rtranclp)
  then show ?thesis by (rule rtranclp_mono [THEN predicate2D, rotated]) (auto intro: sys_step.task)
qed

text \<open>A new task finds the arena full and parks.\<close>

lemma park_steps:
  fixes s :: "('d, 'n) async_system"
  assumes N: "notify_ok N view" and v: "v = notify_state view s" "\<not> nv_permit v" "nv_next v \<notin> queued v \<union> set (nv_done v)"
    and ao: "arena_ok E (Fixed (af_inner (sy_arena s))) (sy_live s)" "free_slots s = 0"
  obtains r a w where "(sys_step N E p)\<^sup>*\<^sup>* s (s\<lparr>sy_arena := \<lparr>af_inner = a, af_waiters = w\<rparr>, sy_tasks := sy_tasks s @ [Parked r]\<rparr>)"
    "nr_future r = nv_next v" "view (fs_notify w) = v\<lparr>nv_waiting := nv_waiting v @ [nv_next v], nv_next := nv_next v + 1\<rparr>"
    "fs_count w = fs_count (af_waiters (sy_arena s)) + 1" "arena_ok E (Fixed a) (sy_live s)" "ai_slot_count a - card (sy_live s) = 0"
    "ai_wake_handle a = ai_wake_handle (af_inner (sy_arena s))"
proof -
  let ?n = "fs_notify (af_waiters (sy_arena s))" and ?c = "fs_count (af_waiters (sy_arena s))"
  obtain res a where al: "(allocate_fixed E p (af_inner (sy_arena s)) :: (unit, 'd) fixed_result) = Ret (res, a)"
    using ao ref_allocate_fixed [where ?'h = unit] by fastforce
  note tr = fixed_try [OF ao(1) al]
  obtain e where e: "res = Inl e" using tr ao(2) unfolding free_slots_def by (cases res) auto
  let ?f = "fst (nt_notified_owned N ?n)"
  let ?w = "\<lparr>fs_notify = snd (nt_enable N ?f (snd (nt_notified_owned N ?n))), fs_count = ?c + 1\<rparr>"
  let ?r = "\<lparr>nr_future = ?f, nr_registered = True, nr_woken = False\<rparr>"
  let ?s = "s\<lparr>sy_tasks := sy_tasks s @ [Begin]\<rparr>"
  have d: "drive N E p 4 Begin (sy_arena s) = Ret (Parked ?r, \<lparr>af_inner = a, af_waiters = ?w\<rparr>, {})"
    using al e by (simp add: numeral_eq_Suc split_beta register_def enable_future_def count_up_def)
  have "(sys_step N E p)\<^sup>*\<^sup>* ?s (s\<lparr>sy_arena := \<lparr>af_inner = a, af_waiters = ?w\<rparr>, sy_tasks := sy_tasks s @ [Parked ?r]\<rparr>)"
    using drive_steps [of N E p 4 ?s "length (sy_tasks s)"] d by simp
  then have st: "(sys_step N E p)\<^sup>*\<^sup>* s (s\<lparr>sy_arena := \<lparr>af_inner = a, af_waiters = ?w\<rparr>, sy_tasks := sy_tasks s @ [Parked ?r]\<rparr>)"
    using sys_step.spawn [of N E p s] by (rule converse_rtranclp_into_rtranclp [rotated])
  show ?thesis
    by (rule that [OF st]) (use tr e v view_ops(1-3) [OF N] in \<open>simp_all add: view_poll_def\<close>)
qed

lemma spinning_reachable:
  fixes a :: "'d ArenaInner"
  assumes N: "notify_ok N view" and ao: "arena_ok E (Fixed a) L" "ai_wake_handle a" "card L = ai_slot_count a" "L \<noteq> {}"
  shows "\<exists>s. (sys_step N E p)\<^sup>*\<^sup>* (start_system \<lparr>af_inner = a, af_waiters = new_fixed_slot N\<rparr> L) s \<and> spinning view E s 0 1"
proof -
  let ?s0 = "start_system \<lparr>af_inner = a, af_waiters = new_fixed_slot N\<rparr> L"
  have v0: "notify_state view ?s0 = view_new"
    using N unfolding notify_ok_def by (simp add: start_system_def new_fixed_slot_def)
  obtain r a1 w1 where s1: "(sys_step N E p)\<^sup>*\<^sup>* ?s0 (?s0\<lparr>sy_arena := \<lparr>af_inner = a1, af_waiters = w1\<rparr>, sy_tasks := sy_tasks ?s0 @ [Parked r]\<rparr>)"
    and r: "nr_future r = 0" and w1: "view (fs_notify w1) = view_new\<lparr>nv_waiting := [0], nv_next := 1\<rparr>" "fs_count w1 = 1"
    and a1: "arena_ok E (Fixed a1) L" "ai_slot_count a1 - card L = 0" "ai_wake_handle a1"
    by (rule park_steps [OF N v0 [symmetric], of E p])
      (use ao in \<open>simp_all add: view_new_def start_system_def free_slots_def new_fixed_slot_def del: arena_ok.simps\<close>)
  define s1 where "s1 = \<lparr>sy_arena = \<lparr>af_inner = a1, af_waiters = w1\<rparr>, sy_tasks = [Parked r], sy_live = L, sy_wakes = 0, sy_notifies = 0\<rparr>"
  have r1: "(sys_step N E p)\<^sup>*\<^sup>* ?s0 s1" using s1 by (simp add: s1_def start_system_def)
  obtain q a2 w2 where s2: "(sys_step N E p)\<^sup>*\<^sup>* s1 (s1\<lparr>sy_arena := \<lparr>af_inner = a2, af_waiters = w2\<rparr>, sy_tasks := sy_tasks s1 @ [Parked q]\<rparr>)"
    and q: "nr_future q = 1" and w2: "view (fs_notify w2) = view_new\<lparr>nv_waiting := [0, 1], nv_next := 2\<rparr>" "fs_count w2 = 2"
    and a2: "arena_ok E (Fixed a2) L" "ai_slot_count a2 - card L = 0" "ai_wake_handle a2"
    by (rule park_steps [OF N refl, of s1 E p])
      (use a1 w1 in \<open>simp_all add: view_new_def s1_def free_slots_def del: arena_ok.simps\<close>)
  define s2 where "s2 = \<lparr>sy_arena = \<lparr>af_inner = a2, af_waiters = w2\<rparr>, sy_tasks = [Parked r, Parked q], sy_live = L, sy_wakes = 0, sy_notifies = 0\<rparr>"
  have r2: "(sys_step N E p)\<^sup>*\<^sup>* s1 s2" using s2 by (simp add: s2_def s1_def)
  obtain k where k: "k \<in> L" using ao(4) by blast
  obtain w x where x: "release E p (Fixed a2) k = Ret (w, x)" "same_ref (Fixed a2) x" using release_Ret [OF a2(1) k, of p] by blast
  then obtain a3 where rel: "release E p (Fixed a2) k = Ret (w, Fixed a3)" by (cases x) simp_all
  have a3: "arena_ok E (Fixed a3) (L - {k})" "ai_wake_handle a3" "w = Some WakeSlot" "ai_slot_count a3 - card (L - {k}) \<le> 1"
    using fixed_released [OF a2(1) k a2(3) rel] a2(2) by (simp_all del: arena_ok.simps)
  obtain res a4 where al: "(allocate_fixed E p a3 :: (unit, 'd) fixed_result) = Ret (res, a4)"
    using a3(1) ref_allocate_fixed [where ?'h = unit] by fastforce
  note tr = fixed_try [OF a3(1) al]
  let ?G = "case res of Inl e \<Rightarrow> {} | Inr buf \<Rightarrow> {buf_allocation buf}"
  have full: "ai_slot_count a4 - card (L - {k} \<union> ?G) = 0" using tr a3(4) by (cases res) auto
  define s3 where "s3 = \<lparr>sy_arena = \<lparr>af_inner = a3, af_waiters = w2\<rparr>, sy_tasks = [Parked r, Parked q], sy_live = L - {k},
    sy_wakes = 1, sy_notifies = 0\<rparr>"
  define s4 where "s4 = s3\<lparr>sy_wakes := 0, sy_notifies := 1\<rparr>"
  define s5 where "s5 = s4\<lparr>sy_arena := \<lparr>af_inner = a3, af_waiters = notify_one N w2\<rparr>, sy_notifies := 0\<rparr>"
  define s6 where "s6 = s5\<lparr>sy_arena := \<lparr>af_inner = a4, af_waiters = notify_one N w2\<rparr>, sy_live := sy_live s5 \<union> ?G\<rparr>"
  have "sys_step N E p s2 s3"
    using sys_step.release [of k s2 E p w a3 N] k rel a3(3) by (simp add: s2_def s3_def)
  moreover have "sys_step N E p s3 s4"
    using sys_step.load [of s3 0 N E p] w2(2) by (simp add: s3_def s4_def anyone_waiting_def)
  moreover have "sys_step N E p s4 s5"
    using sys_step.notify [of s4 0 N E p] by (simp add: s3_def s4_def s5_def)
  moreover have "sys_step N E p s5 s6"
    using sys_step.allocate [of E p s5 res a4 N] al by (simp add: s3_def s4_def s5_def s6_def deref_async_fixed_def)
  ultimately have "(sys_step N E p)\<^sup>*\<^sup>* s2 s6" by (meson rtranclp.rtrancl_into_rtrancl rtranclp.rtrancl_refl)
  with r1 r2 have r6: "(sys_step N E p)\<^sup>*\<^sup>* ?s0 s6" by (meson rtranclp_trans)
  have s6: "length (sy_tasks s6) = 2" "sy_tasks s6 = [Parked r, Parked q]" "sy_wakes s6 = 0" "sy_notifies s6 = 0" "free_slots s6 = 0"
    "notify_state view s6 = view_new\<lparr>nv_waiting := [1], nv_notified := [0], nv_next := 2\<rparr>"
    using full view_ops(6) [OF N] w2(1)
    by (simp_all add: s6_def s5_def s4_def s3_def free_slots_def notify_one_def view_notify_one_def view_new_def)
  have "sys_ok view E s6" using sys_reachable_ok [OF N r6 start_ok [OF N ao(1,2)]] s6(1) by simp
  then have "spinning view E s6 0 1" using s6 r q by (simp add: spinning_def view_new_def)
  then show ?thesis using r6 by blast
qed

subsection \<open>A sample arena\<close>

text \<open>One slot, in use, with a wake handle.\<close>

definition sample_full :: "unit ArenaInner" where
  "sample_full =
    \<lparr>ai_ptr = 4096, ai_total_size = 8, ai_slot_capacity = 8, ai_slot_count = 1, ai_bitmap = new_empty 1,
     ai_auto_spill = False, ai_init_policy = Zero, ai_metrics = record_alloc_success 8 (new_metrics 8),
     ai_zeroed_bitmap = Some (new_empty 1), ai_dealloc = new_erased NoDealloc, ai_wake_handle = True, ai_mem = (\<lambda>i. 7)\<rparr>"

lemma sample_full_ok: "arena_ok sample_externals (Fixed sample_full) {FixedSlot 0}" "ai_wake_handle sample_full"
proof -
  have "ledger (record_alloc_success 8 (new_metrics 8)) 1 8"
    using ledger_alloc [OF ledger_new, of 8 8] by simp
  then have "fixed_inv sample_full {0}"
    by (auto simp: fixed_inv_def sample_full_def scrub_wf_def)
  moreover have "fixed_scrubbed sample_full {0}" by (simp add: fixed_scrubbed_def sample_full_def)
  ultimately show "arena_ok sample_externals (Fixed sample_full) {FixedSlot 0}"
    using sample_externals_ok by (auto intro!: exI [of _ "{0}"])
qed (simp add: sample_full_def)

abbreviation sample_start :: "(unit, notify_view) async_system" where
  "sample_start \<equiv> start_system \<lparr>af_inner = sample_full, af_waiters = new_fixed_slot list_notify\<rparr> {FixedSlot 0}"

theorem no_lost_wakeup_witness:
  "\<exists>s r. (sys_step list_notify sample_externals Debug)\<^sup>*\<^sup>* sample_start s \<and> settled list_notify s \<and> Parked r \<in> set (sy_tasks s) \<and>
     sy_live s = FixedSlot ` {..<ai_slot_count (af_inner (sy_arena s))}"
proof -
  have v0: "view_new = notify_state id sample_start" by (simp add: start_system_def new_fixed_slot_def list_notify_def)
  have ao: "arena_ok sample_externals (Fixed (af_inner (sy_arena sample_start))) (sy_live sample_start)" "free_slots sample_start = 0"
    using sample_full_ok(1) by (simp_all add: start_system_def free_slots_def sample_full_def del: arena_ok.simps)
  obtain r a w where s: "(sys_step list_notify sample_externals Debug)\<^sup>*\<^sup>* sample_start
      (sample_start\<lparr>sy_arena := \<lparr>af_inner = a, af_waiters = w\<rparr>, sy_tasks := sy_tasks sample_start @ [Parked r]\<rparr>)"
    and r: "nr_future r = 0" and w: "fs_notify w = view_new\<lparr>nv_waiting := [0], nv_next := 1\<rparr>"
    by (rule park_steps [OF list_notify_ok v0 _ _ ao, of Debug]) (simp_all add: view_new_def)
  let ?s = "sample_start\<lparr>sy_arena := \<lparr>af_inner = a, af_waiters = w\<rparr>, sy_tasks := sy_tasks sample_start @ [Parked r]\<rparr>"
  have ts: "sy_tasks ?s = [Parked r]" by (simp add: start_system_def)
  have "settled list_notify ?s"
    using r w by (simp add: settled_def start_system_def poll_future_def list_notify_def view_poll_def view_new_def)
  then show ?thesis
    using no_lost_wakeup [OF list_notify_ok sample_full_ok s, of r] s ts by (intro exI [of _ ?s] exI [of _ r]) simp
qed

text \<open>C12. A wakeup does not settle either. With every slot in use, a reachable state has two waiting tasks of which one
  has been notified for a slot that is gone again; from any such state ten steps of that task alone lead
  back to such a state with the roles exchanged: the task passes its notification on when it drops its
  registration, before it tries and parks again. The two tasks wake each other for as long as no slot is
  released, although nothing was.\<close>

theorem wake_storm:
  fixes a :: "'d ArenaInner"
  assumes "notify_ok N view" "arena_ok E (Fixed a) L" "ai_wake_handle a" "card L = ai_slot_count a" "L \<noteq> {}"
  shows "(\<exists>s. (sys_step N E p)\<^sup>*\<^sup>* (start_system \<lparr>af_inner = a, af_waiters = new_fixed_slot N\<rparr> L) s \<and> spinning view E s 0 1) \<and>
    (\<forall>s t u. spinning view E (s :: ('d, 'n) async_system) t u \<longrightarrow>
       (\<exists>s'. (task_moves N E p ^^ 10) s s' \<and> spinning view E s' u t \<and> sy_live s' = sy_live s))"
  using spinning_reachable [OF assms] spinning_round [OF assms(1)] by blast

theorem wake_storm_witness:
  "\<exists>s s'. (sys_step list_notify sample_externals Debug)\<^sup>*\<^sup>* sample_start s \<and> spinning id sample_externals s 0 1 \<and>
     (task_moves list_notify sample_externals Debug ^^ 10) s s' \<and> spinning id sample_externals s' 1 0"
proof -
  have "card {FixedSlot 0} = ai_slot_count sample_full" "{FixedSlot 0} \<noteq> {}" by (simp_all add: sample_full_def)
  from wake_storm [OF list_notify_ok sample_full_ok this, of Debug] show ?thesis by blast
qed

end
