(* ===== verification/Async_Buddy.thy ===== *)
theory Async_Buddy
  imports Waiters Allocation
begin

text \<open>
  Asynchronous allocation from a buddy arena: the loop \<^verbatim>\<open>allocate_with_buddy_waiter\<close> and \<^verbatim>\<open>AsyncBuddyArena\<close>
  of \<^verbatim>\<open>src/src/async_alloc.rs\<close>, with the release of a block followed by the wake it causes. Each definition is
  what a task does between two awaits; the clock is an argument.
\<close>

record 'd AsyncBuddyArena =
  ab_inner :: "'d BuddyArenaInner"
  ab_waiters :: NotifyWaitersInner

definition build_async_buddy ::
    "externals \<Rightarrow> profile \<Rightarrow> BuddyArenaBuilder \<Rightarrow> (BuildError + 'd AsyncBuddyArena) outcome" where
  "build_async_buddy E p b =
     obind (new_waiters (bg_max_order (bb_geometry b) + 1)) (\<lambda>waiters.
     obind (build_buddy_async_with E p b) (\<lambda>r.
       Ret (map_sum id (\<lambda>a. \<lparr>ab_inner = a, ab_waiters = waiters\<rparr>) r)))"

definition deref_async_buddy :: "'d AsyncBuddyArena \<Rightarrow> 'd BuddyArenaInner" where
  "deref_async_buddy ab = ab_inner ab"

text \<open>An iteration of the loop ends with a buffer or at its await.\<close>

datatype buddy_progress = Done "AllocError + unit Buffer" | Awaits BuddyRegistration

definition buddy_iteration ::
    "externals \<Rightarrow> profile \<Rightarrow> nat \<Rightarrow> 'd AsyncBuddyArena \<Rightarrow> nat \<Rightarrow> nat \<Rightarrow> (buddy_progress \<times> 'd AsyncBuddyArena) outcome" where
  "buddy_iteration E p now_ns ab order len =
     (let (registration, w) = buddy_register (ab_waiters ab) order now_ns;
          (registration, w) = buddy_prepare registration w
      in obind (allocate_buddy E p (ab_inner ab) len :: (unit, 'd) buddy_result) (\<lambda>(res, a).
           case res of
             Inr buf \<Rightarrow>
               (let (registration, w) = buddy_revoke registration w
                in Ret (Done (Inr buf), \<lparr>ab_inner = a, ab_waiters = buddy_drop registration w\<rparr>))
           | Inl e \<Rightarrow> Ret (Awaits registration, \<lparr>ab_inner = a, ab_waiters = w\<rparr>)))"

definition allocate_async_buddy ::
    "externals \<Rightarrow> profile \<Rightarrow> nat \<Rightarrow> 'd AsyncBuddyArena \<Rightarrow> nat \<Rightarrow> (buddy_progress \<times> 'd AsyncBuddyArena) outcome" where
  "allocate_async_buddy E p now_ns ab len =
     obind (order_for_request p (deref_async_buddy ab) len) (\<lambda>order.
       case order of
         Some order \<Rightarrow> buddy_iteration E p now_ns ab order len
       | None \<Rightarrow>
           obind (allocate_buddy E p (ab_inner ab) len :: (unit, 'd) buddy_result) (\<lambda>(res, a).
             Ret (Done res, ab\<lparr>ab_inner := a\<rparr>)))"

text \<open>The await: while the receiver is pending nothing happens, then the registration is dropped and the loop
  goes on.\<close>

definition buddy_awaken ::
    "externals \<Rightarrow> profile \<Rightarrow> nat \<Rightarrow> bool \<Rightarrow> BuddyRegistration \<Rightarrow> 'd AsyncBuddyArena \<Rightarrow> nat \<Rightarrow> nat \<Rightarrow>
     (buddy_progress \<times> 'd AsyncBuddyArena) outcome" where
  "buddy_awaken E p now_ns rx_ready registration ab order len =
     (let (ready, registration) = buddy_poll rx_ready registration
      in if ready
         then buddy_iteration E p now_ns (ab\<lparr>ab_waiters := buddy_drop registration (ab_waiters ab)\<rparr>) order len
         else Ret (Awaits registration, ab))"

text \<open>The release of a block, with the wake at its end.\<close>

definition release_and_wake ::
    "externals \<Rightarrow> profile \<Rightarrow> (nat \<Rightarrow> bool) \<Rightarrow> 'd AsyncBuddyArena \<Rightarrow> AllocationKind \<Rightarrow> 'd AsyncBuddyArena outcome" where
  "release_and_wake E p alive ab k =
     obind (release E p (Buddy (ab_inner ab)) k) (\<lambda>(wake, s).
       case s of
         Buddy a \<Rightarrow> Ret \<lparr>ab_inner = a, ab_waiters =
           (case wake of Some (WakeOrder freed_order) \<Rightarrow> buddy_wake alive (ab_waiters ab) freed_order | _ \<Rightarrow> ab_waiters ab)\<rparr>
       | Fixed a \<Rightarrow> Panic ''unreachable'')"

lemma register_prepare_ok:
  assumes "waiters_ok (w, R)" "now < NO_WAITERS_TIMESTAMP" "ord < length (nw_buddy_orders w)"
    "buddy_register w ord now = (r1, w1)" "buddy_prepare r1 w1 = (r2, w2)"
  shows "waiters_ok (w2, R(length (nw_entries w) \<mapsto> r2))" "br_registered r2" "br_order r2 = ord" "live w2 (length (nw_entries w))"
proof -
  have "waiters_ok (w1, R(length (nw_entries w) \<mapsto> r1))" using register_ok [OF assms(1,4,2)] .
  from prepare_ok [OF this _ assms(5), of "length (nw_entries w)"]
  show "waiters_ok (w2, R(length (nw_entries w) \<mapsto> r2))" by simp
  have "min ord (length (nw_buddy_orders w) - Suc 0) = ord" using assms(3) by linarith
  then show "br_registered r2" "br_order r2 = ord" "live w2 (length (nw_entries w))"
    using assms(4,5) by (auto simp: buddy_register_def buddy_prepare_def Let_def new_entry_def)
qed

lemma revoked_at_once:
  assumes "waiters_ok (w, R)" "now < NO_WAITERS_TIMESTAMP"
    "buddy_register w ord now = (r1, w1)" "buddy_prepare r1 w1 = (r2, w2)" "buddy_revoke r2 w2 = (r3, w3)"
  shows "waiters_ok (buddy_drop r3 w3, R)"
proof -
  let ?i = "length (nw_entries w)"
  have "bw_step (w, R) (w1, R(?i \<mapsto> r1))" using assms(2,3) by (rule bw_step.register)
  moreover have "bw_step (w1, R(?i \<mapsto> r1)) (w2, (R(?i \<mapsto> r1))(?i \<mapsto> r2))" using assms(4) by (intro bw_step.prepare) simp
  moreover have "bw_step (w2, (R(?i \<mapsto> r1))(?i \<mapsto> r2)) (w3, (R(?i \<mapsto> r1, ?i \<mapsto> r2))(?i \<mapsto> r3))"
    using assms(5) by (intro bw_step.revoke) simp
  moreover have "bw_step (w3, (R(?i \<mapsto> r1, ?i \<mapsto> r2))(?i \<mapsto> r3)) (buddy_drop r3 w3, (R(?i \<mapsto> r1, ?i \<mapsto> r2, ?i \<mapsto> r3))(?i := None))"
    by (rule bw_step.drop) simp
  ultimately have "waiters_ok (buddy_drop r3 w3, (R(?i \<mapsto> r1, ?i \<mapsto> r2, ?i \<mapsto> r3))(?i := None))"
    using assms(1) bw_step_ok by meson
  moreover have "R ?i = None" using assms(1) by (cases "R ?i") (auto simp: waiters_ok_def reg_ok_def)
  ultimately show ?thesis by (simp add: fun_upd_idem)
qed

text \<open>C15. An asynchronous request of up to 2^63 bytes waits only when it has to. It fails at once with \<open>RequestTooLarge\<close>
  exactly when it exceeds the arena; it is served at once when a block is free for it; it waits only when
  every free block is smaller than the order it needs, and then it is registered and live at that order. The
  books of the arena and of the waiters stay in order.\<close>

theorem allocate_async_buddy_correct:
  fixes ab :: "'d AsyncBuddyArena"
  assumes "buddy_inv (ab_inner ab) L" "waiters_ok (ab_waiters ab, R)" "len \<le> 2 ^ 63" "now < NO_WAITERS_TIMESTAMP"
    "length (nw_buddy_orders (ab_waiters ab)) = Suc (bi_max_order (ab_inner ab))"
  shows "\<exists>r ab'. allocate_async_buddy E p now ab len = Ret (r, ab') \<and>
    (case r of
       Done (Inl e) \<Rightarrow> e = RequestTooLarge \<and> bi_total_size (ab_inner ab) < len \<and> buddy_inv (ab_inner ab') L
     | Done (Inr buf) \<Rightarrow> len \<le> bi_total_size (ab_inner ab) \<and> waiters_ok (ab_waiters ab', R) \<and>
         (\<exists>t j. buf_allocation buf = BuddyBlock t j \<and> (t, j) \<notin> L \<and> buddy_inv (ab_inner ab') (insert (t, j) L))
     | Awaits reg \<Rightarrow> len \<le> bi_total_size (ab_inner ab) \<and> buddy_inv (ab_inner ab') L \<and>
         (\<exists>t i. order_for_request p (ab_inner ab) len = Ret (Some t) \<and> br_order reg = t \<and> br_registered reg \<and>
            waiters_ok (ab_waiters ab', R(i \<mapsto> reg)) \<and> live (ab_waiters ab') i \<and>
            (\<forall>b \<in> free_blocks (ab_inner ab). fst b < t)))"
proof -
  let ?a = "ab_inner ab" and ?w = "ab_waiters ab"
  have geo: "geo_ok ?a" using assms(1) by (simp add: buddy_inv_def buddy_core_def)
  from assms(1,3) show ?thesis
  proof (cases rule: allocate_buddy_cases [where E = E and p = p and ?'h = unit])
    case (too_large a')
    then have "order_for_request p ?a len = Ret None" using order_for_request_ok [OF geo assms(3), of p] by auto
    then show ?thesis using too_large by (simp add: allocate_async_buddy_def deref_async_buddy_def)
  next
    case (full t a')
    have t: "t < length (nw_buddy_orders ?w)" using order_for_request_ok [OF geo assms(3), of p] full(1,2) assms(5) by auto
    obtain r1 w1 r2 w2 where rw: "buddy_register ?w t now = (r1, w1)" "buddy_prepare r1 w1 = (r2, w2)" by fastforce
    have "allocate_async_buddy E p now ab len = Ret (Awaits r2, \<lparr>ab_inner = a', ab_waiters = w2\<rparr>)"
      using full rw by (simp add: allocate_async_buddy_def buddy_iteration_def deref_async_buddy_def)
    then show ?thesis using full register_prepare_ok [OF assms(2,4) t rw] by auto
  next
    case (ok t j a')
    obtain r1 w1 r2 w2 r3 w3 where rw: "buddy_register ?w t now = (r1, w1)" "buddy_prepare r1 w1 = (r2, w2)" "buddy_revoke r2 w2 = (r3, w3)"
      by (metis surj_pair)
    then show ?thesis using ok revoked_at_once [OF assms(2,4) rw]
      by (simp add: allocate_async_buddy_def buddy_iteration_def deref_async_buddy_def)
  qed
qed

text \<open>The sample buddy arena with an empty waiter set for its orders.\<close>

definition sample_async :: "unit AsyncBuddyArena" where
  "sample_async = \<lparr>ab_inner = sample_buddy,
     ab_waiters = \<lparr>nw_buddy_orders = replicate (Suc (bi_max_order sample_buddy)) new_order_slot, nw_streak_state = 0,
       nw_entries = [], nw_sent = []\<rparr>\<rparr>"

lemma sample_async_ok: "waiters_ok (ab_waiters sample_async, Map.empty)"
  by (rule new_waiters_ok [of "Suc (bi_max_order sample_buddy)"]) (simp add: new_waiters_def sample_async_def)

theorem allocate_async_buddy_correct_witness:
  "\<exists>buf ab'. allocate_async_buddy sample_externals Debug 7 sample_async 600 = Ret (Done (Inr buf), ab')"
proof -
  have geo: "geo_ok sample_buddy" using sample_buddy_ok(1) by (simp add: buddy_inv_def buddy_core_def)
  have fits: "\<not> (\<forall>b \<in> free_blocks sample_buddy. fst b < t)" if "order_for_request Debug sample_buddy 600 = Ret (Some t)" for t
    using order_for_request_ok [OF geo, of 600 Debug] that by (auto simp: sample_buddy_ok(2))
  have inner: "ab_inner sample_async = sample_buddy" by (simp add: sample_async_def)
  have "length (nw_buddy_orders (ab_waiters sample_async)) = Suc (bi_max_order (ab_inner sample_async))"
    by (simp add: sample_async_def)
  then obtain r ab' where r: "allocate_async_buddy sample_externals Debug 7 sample_async 600 = Ret (r, ab')"
    and c: "case r of
       Done (Inl e) \<Rightarrow> e = RequestTooLarge \<and> bi_total_size sample_buddy < 600 \<and> buddy_inv (ab_inner ab') {}
     | Done (Inr buf) \<Rightarrow> 600 \<le> bi_total_size sample_buddy \<and> waiters_ok (ab_waiters ab', Map.empty) \<and>
         (\<exists>t j. buf_allocation buf = BuddyBlock t j \<and> (t, j) \<notin> {} \<and> buddy_inv (ab_inner ab') (insert (t, j) {}))
     | Awaits reg \<Rightarrow> 600 \<le> bi_total_size sample_buddy \<and> buddy_inv (ab_inner ab') {} \<and>
         (\<exists>t i. order_for_request Debug sample_buddy 600 = Ret (Some t) \<and> br_order reg = t \<and> br_registered reg \<and>
            waiters_ok (ab_waiters ab', [i \<mapsto> reg]) \<and> live (ab_waiters ab') i \<and>
            (\<forall>b \<in> free_blocks sample_buddy. fst b < t))"
    using allocate_async_buddy_correct [OF _ sample_async_ok, of "{}" 600 7 sample_externals Debug] sample_buddy_ok(1)
    unfolding inner by (force simp: NO_WAITERS_TIMESTAMP_def)
  show ?thesis
  proof (cases r)
    case (Done x)
    then show ?thesis using r c by (cases x) (auto simp: sample_buddy_def)
  next
    case (Awaits reg)
    then show ?thesis using c fits by auto
  qed
qed

text \<open>C26. A request above 2^63 bytes should fail at once, says the documentation. It does not: debug builds panic, and in
  release builds the task is left waiting, whatever the state of the arena.\<close>

theorem async_overflow_waits:
  fixes ab :: "'d AsyncBuddyArena"
  assumes "buddy_inv (ab_inner ab) L" "2 ^ 63 < len"
  shows "(\<exists>msg. allocate_async_buddy E Debug now ab len = Panic msg) \<and>
    (\<exists>reg ab'. allocate_async_buddy E Release now ab len = Ret (Awaits reg, ab'))"
proof -
  obtain t where "order_for_request Release (ab_inner ab) len = Ret (Some t)" using overflowing_request(2) [OF assms] by blast
  then have "\<exists>reg ab'. allocate_async_buddy E Release now ab len = Ret (Awaits reg, ab')"
    using overflowing_request(4) [OF assms, where ?'h = unit and E = E] by (simp add: allocate_async_buddy_def deref_async_buddy_def buddy_iteration_def split_beta)
  moreover have "\<exists>msg. allocate_async_buddy E Debug now ab len = Panic msg"
    using overflowing_request(1) [OF assms] by (auto simp: allocate_async_buddy_def deref_async_buddy_def)
  ultimately show ?thesis by blast
qed

theorem async_overflow_waits_witness:
  "(\<exists>msg. allocate_async_buddy sample_externals Debug 7 sample_async (2 ^ 63 + 1) = Panic msg) \<and>
    (\<exists>reg ab'. allocate_async_buddy sample_externals Release 7 sample_async (2 ^ 63 + 1) = Ret (Awaits reg, ab'))"
  using async_overflow_waits [of sample_async "{}" "2 ^ 63 + 1" sample_externals 7] sample_buddy_ok(1)
  by (simp add: sample_async_def)

lemma buddy_release_frees:
  assumes ok: "arena_ok E (Buddy a) L" and k: "BuddyBlock ord i \<in> L" and wh: "bi_wake_handle a"
  obtains n j a' where "release E p (Buddy a) (BuddyBlock ord i) = Ret (Some (WakeOrder n), Buddy a')"
    "arena_ok E (Buddy a') (L - {BuddyBlock ord i})" "ord \<le> n" "(n, j) \<in> free_blocks a'"
proof -
  obtain S where S: "L = block_kind ` S" "buddy_inv a S" using ok by auto
  have b: "(ord, i) \<in> S" and core: "buddy_core a S" using k S by (auto simp: buddy_inv_def)
  have sz: "block_size p a ord = Ret (block_bytes a (ord, i))"
    using core_validD [OF core, of "(ord, i)"] b core by (simp add: block_size_Ret buddy_core_def)
  let ?a = "a\<lparr>bi_metrics := record_free (block_bytes a (ord, i)) (bi_metrics a)\<rparr>"
  have core': "buddy_core ?a S" using core by simp
  obtain w a' where r: "release_block E p ?a ord i = Ret (w, a')" "w = None \<longleftrightarrow> \<not> bi_wake_handle ?a"
      "\<And>n. w = Some n \<Longrightarrow> ord \<le> n \<and> n \<le> bi_max_order ?a"
      "\<exists>b \<in> free_blocks a'. cover (ord, i) \<subseteq> cover b \<and> (\<forall>n. w = Some n \<longrightarrow> n = fst b)"
    by (rule release_block_ok [OF core' b, of E p]) blast
  obtain n where n: "w = Some n" using r(2) wh by auto
  have rel: "release E p (Buddy a) (BuddyBlock ord i) = Ret (Some (WakeOrder n), Buddy a')" using r(1) sz n by simp
  then have "arena_ok E (Buddy a') (L - {BuddyBlock ord i})"
    using release_Ret [OF ok k, of p] by (metis outcome.inject(1) prod.inject)
  then show ?thesis using that [OF rel] r(3,4) n by auto
qed


text \<open>The sample arena with a wake handle, all of it in use.\<close>

definition sample_waking :: "unit BuddyArenaInner" where
  "sample_waking = sample_buddy\<lparr>bi_wake_handle := True\<rparr>"

lemma sample_waking_ok: "arena_ok sample_externals (Buddy sample_waking) {}"
proof -
  have g: "geo_ok sample_waking"
    using sample_buddy_ok(1) by (simp add: sample_waking_def geo_ok_def buddy_inv_def buddy_core_def)
  have z: "bi_zeroed_bitmap sample_waking =
      zeroed_bitmap_for (bi_init_policy sample_waking) (blocks_at_order (bi_max_order sample_waking) 0)"
    by (simp add: sample_waking_def sample_buddy_def zeroed_bitmap_for_def blocks_at_order_def)
  have "buddy_inv sample_waking {}" "buddy_scrubbed sample_waking {}"
    using buddy_fresh [OF g _ _ _ z, of Debug 4096] by (simp_all add: sample_waking_def sample_buddy_def initial_bitmaps_Ret)
  then show ?thesis using sample_externals_ok by auto
qed

lemma sample_in_use: "\<exists>(a :: unit BuddyArenaInner) i. arena_ok sample_externals (Buddy a) {BuddyBlock 3 i} \<and> bi_wake_handle a"
proof -
  obtain S where S: "S = {}" "buddy_inv sample_waking S" "buddy_scrubbed sample_waking S" using sample_waking_ok by auto
  have geo: "geo_ok sample_waking" using S(2) by (simp add: buddy_inv_def buddy_core_def)
  have sz: "bi_total_size sample_waking = 4096" "bi_min_block_size sample_waking = 512" "bi_max_order sample_waking = 3"
    "bi_wake_handle sample_waking" by (simp_all add: sample_waking_def sample_buddy_def)
  have three: "t = 3" if "order_for_request Debug sample_waking 4096 = Ret (Some t)" for t
  proof -
    have "t \<le> 3" "4096 \<le> (512 :: nat) * 2 ^ t" using order_for_request_ok [OF geo, of 4096 Debug] that sz by auto
    moreover have "(512 :: nat) * 2 ^ t \<le> 512 * 2 ^ 2" if "t \<le> 2" using that by (intro mult_left_mono power_increasing) auto
    ultimately show ?thesis by (cases "t \<le> 2") auto
  qed
  have "(4096 :: nat) \<le> 2 ^ 63" by simp
  from S(2) this show ?thesis
  proof (cases rule: allocate_buddy_cases [where E = sample_externals and p = Debug and ?'h = unit])
    case (full t a')
    have "free_blocks sample_waking = free_blocks sample_buddy" by (simp add: free_blocks_def sample_waking_def)
    then show ?thesis using full(3) three [OF full(2)] sample_buddy_ok(2) by simp
  next
    case (ok t j a')
    then have "arena_ok sample_externals (Buddy a') {BuddyBlock 3 j}"
      using S sample_externals_ok three [OF ok(2)] by (auto intro!: exI [of _ "{(3, j)}"])
    then show ?thesis using ok(6) sz(4) by (auto simp: same_arena_def)
  qed (simp add: sz)
qed


end
