(* ===== verification/Treiber.thy ===== *)
theory Treiber
  imports Prelude
begin

text \<open>
  The custom waiter of \<^verbatim>\<open>src/examples/treiber_waker.rs\<close>. The first part is its stack, a linked list whose head
  is changed by compare-exchange, with any number of threads interleaved access by access: it implements a
  stack. Nodes live in a store; epoch-based reclamation is that no address is used twice. The second part is
  the waiter and its registrations on top of the stack, call by call.
\<close>

subsection \<open>The stack\<close>

record Node =
  nd_entry :: nat
  nd_next :: "nat option"

record TreiberStack =
  ts_nodes :: "Node list"
  ts_head :: "nat option"

definition new_stack :: TreiberStack where
  "new_stack = \<lparr>ts_nodes = [], ts_head = None\<rparr>"

text \<open>A thread between two accesses: in the loop of \<^verbatim>\<open>push\<close> with the address of its node, or in the loop of
  \<^verbatim>\<open>pop_and_wake\<close> with what it has loaded.\<close>

datatype thread =
    Idle
  | Push nat
  | PushLoaded nat "nat option"
  | PushStored nat "nat option"
  | Pop
  | PopLoaded nat
  | PopNext nat "nat option"

text \<open>What a step does to the stack: it pushes an entry, pops one, finds the stack empty, or none of these.\<close>

datatype event = Pushed nat | Popped nat | Empty | Tau

definition compare_exchange :: "TreiberStack \<Rightarrow> nat option \<Rightarrow> nat option \<Rightarrow> (bool \<times> TreiberStack)" where
  "compare_exchange s current new = (if ts_head s = current then (True, s\<lparr>ts_head := new\<rparr>) else (False, s))"

inductive thread_step :: "thread \<Rightarrow> TreiberStack \<Rightarrow> event \<Rightarrow> thread \<Rightarrow> TreiberStack \<Rightarrow> bool" where
  push_new: "thread_step Idle s Tau (Push (length (ts_nodes s))) (s\<lparr>ts_nodes := ts_nodes s @ [\<lparr>nd_entry = entry, nd_next = None\<rparr>]\<rparr>)"
| push_load: "thread_step (Push node) s Tau (PushLoaded node (ts_head s)) s"
| push_store: "thread_step (PushLoaded node head) s Tau (PushStored node head)
    (s\<lparr>ts_nodes := (ts_nodes s)[node := (ts_nodes s ! node)\<lparr>nd_next := head\<rparr>]\<rparr>)"
| push_ok: "compare_exchange s head (Some node) = (True, s') \<Longrightarrow>
    thread_step (PushStored node head) s (Pushed (nd_entry (ts_nodes s ! node))) Idle s'"
| push_err: "compare_exchange s head (Some node) = (False, s') \<Longrightarrow> thread_step (PushStored node head) s Tau (Push node) s'"
| pop_start: "thread_step Idle s Tau Pop s"
| pop_load: "ts_head s = Some head \<Longrightarrow> thread_step Pop s Tau (PopLoaded head) s"
| pop_empty: "ts_head s = None \<Longrightarrow> thread_step Pop s Empty Idle s"
| pop_next: "thread_step (PopLoaded head) s Tau (PopNext head (nd_next (ts_nodes s ! head))) s"
| pop_ok: "compare_exchange s (Some head) next = (True, s') \<Longrightarrow>
    thread_step (PopNext head next) s (Popped (nd_entry (ts_nodes s ! head))) Idle s'"
| pop_err: "compare_exchange s (Some head) next = (False, s') \<Longrightarrow> thread_step (PopNext head next) s Tau Pop s'"

inductive stack_step :: "thread list \<times> TreiberStack \<Rightarrow> event \<Rightarrow> thread list \<times> TreiberStack \<Rightarrow> bool" where
  run: "t < length ts \<Longrightarrow> thread_step (ts ! t) s e th s' \<Longrightarrow> stack_step (ts, s) e (ts[t := th], s')"
| spawn: "stack_step (ts, s) Tau (ts @ [Idle], s)"

inductive stack_run :: "thread list \<times> TreiberStack \<Rightarrow> event list \<Rightarrow> thread list \<times> TreiberStack \<Rightarrow> bool" where
  start: "stack_run c [] c"
| more: "stack_run c es c' \<Longrightarrow> stack_step c' e c'' \<Longrightarrow> stack_run c (es @ [e]) c''"

text \<open>The specification: events on a list of entries.\<close>

fun apply_event :: "event \<Rightarrow> nat list \<Rightarrow> nat list option" where
  "apply_event (Pushed x) xs = Some (x # xs)"
| "apply_event (Popped x) xs = (case xs of [] \<Rightarrow> None | y # ys \<Rightarrow> if x = y then Some ys else None)"
| "apply_event Empty xs = (if xs = [] then Some [] else None)"
| "apply_event Tau xs = Some xs"

fun apply_events :: "event list \<Rightarrow> nat list \<Rightarrow> nat list option" where
  "apply_events [] xs = Some xs"
| "apply_events (e # es) xs = Option.bind (apply_event e xs) (apply_events es)"

lemma apply_events_snoc: "apply_events (es @ [e]) xs = Option.bind (apply_events es xs) (apply_event e)"
proof (induction es arbitrary: xs)
  case (Cons a es)
  then show ?case by (cases "apply_event a xs") simp_all
next
  case Nil
  then show ?case by (cases "apply_event e xs") simp_all
qed

text \<open>The list of addresses from the head on.\<close>

fun linked :: "Node list \<Rightarrow> nat option \<Rightarrow> nat list \<Rightarrow> bool" where
  "linked nodes h [] \<longleftrightarrow> h = None"
| "linked nodes h (a # as) \<longleftrightarrow> h = Some a \<and> a < length nodes \<and> linked nodes (nd_next (nodes ! a)) as"

text \<open>The node a thread has not published yet.\<close>

fun owned :: "thread \<Rightarrow> nat option" where
  "owned (Push node) = Some node" | "owned (PushLoaded node head) = Some node" | "owned (PushStored node head) = Some node"
| "owned _ = None"

fun thread_ok :: "Node list \<Rightarrow> nat set \<Rightarrow> thread \<Rightarrow> bool" where
  "thread_ok nodes unpublished (PushStored node head) \<longleftrightarrow> nd_next (nodes ! node) = head"
| "thread_ok nodes unpublished (PopLoaded head) \<longleftrightarrow> head < length nodes \<and> head \<notin> unpublished"
| "thread_ok nodes unpublished (PopNext head next) \<longleftrightarrow> head < length nodes \<and> head \<notin> unpublished \<and> nd_next (nodes ! head) = next"
| "thread_ok nodes unpublished _ \<longleftrightarrow> True"

definition unpublished :: "thread list \<Rightarrow> nat set" where
  "unpublished ts = {a. \<exists>t < length ts. owned (ts ! t) = Some a}"

definition stack_ok :: "thread list \<times> TreiberStack \<Rightarrow> nat list \<Rightarrow> bool" where
  "stack_ok = (\<lambda>(ts, s) as.
     linked (ts_nodes s) (ts_head s) as \<and> distinct as \<and> set as \<inter> unpublished ts = {} \<and>
     (\<forall>t < length ts. \<forall>a. owned (ts ! t) = Some a \<longrightarrow> a < length (ts_nodes s) \<and>
        (\<forall>u < length ts. owned (ts ! u) = Some a \<longrightarrow> t = u)) \<and>
     (\<forall>t < length ts. thread_ok (ts_nodes s) (unpublished ts) (ts ! t)))"

abbreviation entries :: "TreiberStack \<Rightarrow> nat list \<Rightarrow> nat list" where
  "entries s as \<equiv> map (\<lambda>a. nd_entry (ts_nodes s ! a)) as"


lemma linked_cong:
  "linked nodes h as \<Longrightarrow> (\<And>a. a \<in> set as \<Longrightarrow> a < length nodes' \<and> nodes' ! a = nodes ! a) \<Longrightarrow> linked nodes' h as"
  by (induction as arbitrary: h) auto

lemma linked_bound: "linked nodes h as \<Longrightarrow> a \<in> set as \<Longrightarrow> a < length nodes"
  by (induction as arbitrary: h) auto

lemma linked_head: "linked nodes (Some a) as \<Longrightarrow> \<exists>bs. as = a # bs"
  by (cases as) auto

lemma unpublished_update:
  assumes "t < length ts"
  shows "unpublished (ts[t := th]) \<subseteq> unpublished ts \<union> set_option (owned th)"
proof
  fix a assume "a \<in> unpublished (ts[t := th])"
  then obtain u where u: "u < length ts" "owned (ts[t := th] ! u) = Some a"
    by (auto simp: unpublished_def)
  show "a \<in> unpublished ts \<union> set_option (owned th)"
  proof (cases "u = t")
    case True
    then show ?thesis using u assms by simp
  next
    case False
    then show ?thesis using u by (auto simp: unpublished_def)
  qed
qed

lemma unpublished_member: "t < length ts \<Longrightarrow> owned (ts ! t) = Some a \<Longrightarrow> a \<in> unpublished ts"
  by (auto simp: unpublished_def)

lemma stack_okD:
  assumes "stack_ok (ts, s) as"
  shows "linked (ts_nodes s) (ts_head s) as" "distinct as" "set as \<inter> unpublished ts = {}"
    "\<And>t a. t < length ts \<Longrightarrow> owned (ts ! t) = Some a \<Longrightarrow> a < length (ts_nodes s)"
    "\<And>t u a. t < length ts \<Longrightarrow> owned (ts ! t) = Some a \<Longrightarrow> u < length ts \<Longrightarrow> owned (ts ! u) = Some a \<Longrightarrow> t = u"
    "\<And>t. t < length ts \<Longrightarrow> thread_ok (ts_nodes s) (unpublished ts) (ts ! t)"
  using assms unfolding stack_ok_def by blast+

text \<open>A thread that only writes to its own node, or to a new one, does not disturb the others.\<close>

lemma thread_ok_frame:
  assumes ok: "stack_ok (ts, s) as" and t: "t < length ts" and u: "u < length ts" "u \<noteq> t"
    and own: "\<And>a. owned th = Some a \<Longrightarrow> owned (ts ! t) = Some a \<or> a = length (ts_nodes s)"
    and keep: "\<And>a. a < length (ts_nodes s) \<Longrightarrow> owned (ts ! t) \<noteq> Some a \<Longrightarrow> nodes' ! a = ts_nodes s ! a"
    and len: "length (ts_nodes s) \<le> length nodes'"
  shows "thread_ok nodes' (unpublished (ts[t := th])) (ts ! u)"
proof -
  note D = stack_okD [OF ok]
  have public: "a \<notin> unpublished (ts[t := th])" "owned (ts ! t) \<noteq> Some a"
    if a: "a < length (ts_nodes s)" "a \<notin> unpublished ts" for a
  proof -
    show no: "owned (ts ! t) \<noteq> Some a" using a unpublished_member [OF t] by blast
    have "owned th \<noteq> Some a" using own [of a] no a by auto
    then show "a \<notin> unpublished (ts[t := th])" using unpublished_update [OF t, of th] a by auto
  qed
  show ?thesis
  proof (cases "ts ! u")
    case (PushStored node head)
    then have o: "owned (ts ! u) = Some node" by simp
    have "owned (ts ! t) \<noteq> Some node" using D(5) [OF u(1) o t] u(2) by blast
    then show ?thesis using keep [OF D(4) [OF u(1) o]] D(6) [OF u(1)] PushStored by simp
  next
    case (PopLoaded head)
    then show ?thesis using D(6) [OF u(1)] public [of head] len by simp
  next
    case (PopNext head nxt)
    then show ?thesis using D(6) [OF u(1)] public [of head] len keep [of head] by simp
  qed simp_all
qed

lemma stack_ok_thread:
  assumes ok: "stack_ok (ts, s) as" and t: "t < length ts"
    and own: "\<And>a. owned th = Some a \<Longrightarrow> owned (ts ! t) = Some a \<or> a = length (ts_nodes s) \<and> a < length (ts_nodes s')"
    and keep: "\<And>a. a < length (ts_nodes s) \<Longrightarrow> owned (ts ! t) \<noteq> Some a \<Longrightarrow> ts_nodes s' ! a = ts_nodes s ! a"
    and len: "length (ts_nodes s) \<le> length (ts_nodes s')"
    and list: "linked (ts_nodes s') (ts_head s') as'" "distinct as'" "set as' \<inter> unpublished (ts[t := th]) = {}"
    and th: "thread_ok (ts_nodes s') (unpublished (ts[t := th])) th"
  shows "stack_ok (ts[t := th], s') as'"
proof -
  note D = stack_okD [OF ok]
  have bound: "a < length (ts_nodes s')" if "u < length ts" "owned (ts[t := th] ! u) = Some a" for u a
  proof (cases "u = t")
    case True
    then show ?thesis using that own [of a] D(4) [OF t, of a] len by auto
  next
    case False
    then show ?thesis using that D(4) [of u a] len by simp
  qed
  have fresh: False if "u < length ts" "u \<noteq> t" "owned (ts ! u) = Some a" "owned th = Some a" for u a
    using own [OF that(4)] D(4) [OF that(1,3)] D(5) [OF that(1,3) t] that(2) by auto
  have uniq: "u = v" if "u < length ts" "owned (ts[t := th] ! u) = Some a" "v < length ts" "owned (ts[t := th] ! v) = Some a" for u v a
    using that fresh [of u a] fresh [of v a] D(5) [of u a v] t by (cases "u = t"; cases "v = t") auto
  have others: "thread_ok (ts_nodes s') (unpublished (ts[t := th])) (ts[t := th] ! u)" if "u < length ts" for u
    using th thread_ok_frame [OF ok t that _ _ keep len, of th] own t by (cases "u = t") auto
  show ?thesis
    unfolding stack_ok_def using list bound uniq others by auto
qed

text \<open>The abstract state reached by a step: the entries from the head on, after the event.\<close>

definition simulates :: "thread list \<times> TreiberStack \<Rightarrow> event \<Rightarrow> nat list \<Rightarrow> bool" where
  "simulates c e xs \<longleftrightarrow> (\<exists>as. stack_ok c as \<and> apply_event e xs = Some (entries (snd c) as))"

lemma simulatesI:
  "stack_ok (ts, s) as \<Longrightarrow> apply_event e xs = Some (entries s as) \<Longrightarrow> simulates (ts, s) e xs"
  by (auto simp: simulates_def)

lemma unpublished_mono:
  "t < length ts \<Longrightarrow> set_option (owned th) \<subseteq> set_option (owned (ts ! t)) \<Longrightarrow> unpublished (ts[t := th]) \<subseteq> unpublished ts"
  using unpublished_update [of t ts th] unpublished_member [of t ts] by (auto simp: subset_iff)

lemma silent_thread:
  assumes ok: "stack_ok (ts, s) as" and t: "t < length ts"
    and own: "set_option (owned th) \<subseteq> set_option (owned (ts ! t))"
    and th: "thread_ok (ts_nodes s) (unpublished (ts[t := th])) th"
  shows "stack_ok (ts[t := th], s) as"
proof (rule stack_ok_thread [OF ok t])
  show "set as \<inter> unpublished (ts[t := th]) = {}"
    using stack_okD(3) [OF ok] unpublished_mono [OF t own] by auto
qed (use own th stack_okD [OF ok] in \<open>auto simp: subset_iff\<close>)

lemma push_new_ok:
  assumes ok: "stack_ok (ts, s) as" and t: "t < length ts" "ts ! t = Idle"
    and s'_def: "s' = s\<lparr>ts_nodes := ts_nodes s @ [\<lparr>nd_entry = x, nd_next = None\<rparr>]\<rparr>"
  shows "stack_ok (ts[t := Push (length (ts_nodes s))], s') as" "entries s' as = entries s as"
proof -
  note D = stack_okD [OF ok]
  have b: "a < length (ts_nodes s)" if "a \<in> set as" for a by (rule linked_bound [OF D(1) that])
  show "entries s' as = entries s as" using b by (simp add: s'_def nth_append)
  have l: "linked (ts_nodes s') (ts_head s') as"
    unfolding s'_def by simp (rule linked_cong [OF D(1)], use b in \<open>auto simp: nth_append less_Suc_eq\<close>)
  have u: "set as \<inter> unpublished (ts[t := Push (length (ts_nodes s))]) = {}"
    using D(3) b unpublished_update [OF t(1), of "Push (length (ts_nodes s))"] by auto
  show "stack_ok (ts[t := Push (length (ts_nodes s))], s') as"
    by (rule stack_ok_thread [OF ok t(1) _ _ _ l D(2) u]) (auto simp: s'_def nth_append)
qed

lemma push_store_ok:
  assumes ok: "stack_ok (ts, s) as" and t: "t < length ts" "ts ! t = PushLoaded node head"
    and s'_def: "s' = s\<lparr>ts_nodes := (ts_nodes s)[node := (ts_nodes s ! node)\<lparr>nd_next := head\<rparr>]\<rparr>"
  shows "stack_ok (ts[t := PushStored node head], s') as" "entries s' as = entries s as"
proof -
  note D = stack_okD [OF ok]
  have o: "owned (ts ! t) = Some node" using t by simp
  have n: "node < length (ts_nodes s)" "node \<notin> set as"
    using D(4) [OF t(1) o] D(3) unpublished_member [OF t(1) o] by auto
  then have other: "ts_nodes s' ! a = ts_nodes s ! a" if "a \<in> set as" for a
    using that by (auto simp: s'_def nth_list_update)
  then show "entries s' as = entries s as" by simp
  have l: "linked (ts_nodes s') (ts_head s') as"
    using linked_cong [OF D(1), of "ts_nodes s'"] other linked_bound [OF D(1)] by (simp add: s'_def)
  have u: "set as \<inter> unpublished (ts[t := PushStored node head]) = {}"
    using D(3) unpublished_mono [OF t(1), of "PushStored node head"] o by auto
  show "stack_ok (ts[t := PushStored node head], s') as"
    by (rule stack_ok_thread [OF ok t(1) _ _ _ l D(2) u]) (use o n in \<open>auto simp: s'_def nth_list_update\<close>)
qed

lemma not_unpublished_idle:
  assumes ok: "stack_ok (ts, s) as" and t: "t < length ts" "owned (ts ! t) = Some a"
  shows "a \<notin> unpublished (ts[t := Idle])"
proof
  assume "a \<in> unpublished (ts[t := Idle])"
  then obtain u where u: "u < length ts" "owned (ts[t := Idle] ! u) = Some a" by (auto simp: unpublished_def)
  then have "u \<noteq> t" using t by auto
  then show False using u stack_okD(5) [OF ok t u(1)] by simp
qed

lemma push_ok_ok:
  assumes ok: "stack_ok (ts, s) as" and t: "t < length ts" "ts ! t = PushStored node (ts_head s)"
  shows "stack_ok (ts[t := Idle], s\<lparr>ts_head := Some node\<rparr>) (node # as)"
proof -
  note D = stack_okD [OF ok]
  have o: "owned (ts ! t) = Some node" using t by simp
  have n: "node < length (ts_nodes s)" "node \<notin> set as"
    using D(4) [OF t(1) o] D(3) unpublished_member [OF t(1) o] by auto
  have l: "linked (ts_nodes s) (Some node) (node # as)" using D(1) D(6) [OF t(1)] t(2) n by simp
  have u: "set (node # as) \<inter> unpublished (ts[t := Idle]) = {}"
    using D(3) unpublished_mono [OF t(1), of Idle] not_unpublished_idle [OF ok t(1) o] by auto
  show ?thesis
    by (rule stack_ok_thread [OF ok t(1)]) (use l u n D(2) in auto)
qed

lemma pop_ok_ok:
  assumes ok: "stack_ok (ts, s) as" and t: "t < length ts" "ts ! t = PopNext head nxt" and h: "ts_head s = Some head"
  obtains bs where "as = head # bs" "stack_ok (ts[t := Idle], s\<lparr>ts_head := nxt\<rparr>) bs"
proof -
  note D = stack_okD [OF ok]
  obtain bs where as: "as = head # bs" using linked_head D(1) h by metis
  have l: "linked (ts_nodes s) nxt bs" using D(1) D(6) [OF t(1)] t(2) as by simp
  have u: "set bs \<inter> unpublished (ts[t := Idle]) = {}"
    using D(3) unpublished_mono [OF t(1), of Idle] as by auto
  have "stack_ok (ts[t := Idle], s\<lparr>ts_head := nxt\<rparr>) bs"
    by (rule stack_ok_thread [OF ok t(1)]) (use l u D(2) as in auto)
  then show ?thesis using that as by blast
qed

lemma silent_simulates:
  assumes "stack_ok (ts, s) as" "t < length ts" "set_option (owned th) \<subseteq> set_option (owned (ts ! t))"
    and "thread_ok (ts_nodes s) (unpublished (ts[t := th])) th"
  shows "simulates (ts[t := th], s) Tau (entries s as)"
  by (rule simulatesI [OF silent_thread [OF assms]]) simp

lemma compare_exchange_True: "compare_exchange s c n = (True, s') \<longleftrightarrow> ts_head s = c \<and> s' = s\<lparr>ts_head := n\<rparr>"
  by (auto simp: compare_exchange_def)

lemma compare_exchange_False: "compare_exchange s c n = (False, s') \<longleftrightarrow> ts_head s \<noteq> c \<and> s' = s"
  by (auto simp: compare_exchange_def)

lemmas compare_exchange_simps = compare_exchange_True compare_exchange_False

lemma head_published:
  assumes ok: "stack_ok (ts, s) as" and h: "ts_head s = Some head"
  shows "head < length (ts_nodes s)" "head \<notin> unpublished ts"
proof -
  obtain bs where "as = head # bs" using linked_head stack_okD(1) [OF ok] h by metis
  then have "head \<in> set as" by simp
  then show "head < length (ts_nodes s)" "head \<notin> unpublished ts"
    using linked_bound [OF stack_okD(1) [OF ok]] stack_okD(3) [OF ok] by blast+
qed

lemma thread_simulates:
  assumes ok: "stack_ok (ts, s) as" and t: "t < length ts" and step: "thread_step (ts ! t) s e th s'"
  shows "simulates (ts[t := th], s') e (entries s as)"
  using step
proof (cases rule: thread_step.cases)
  case (push_new x)
  note new = push_new_ok [OF ok t push_new(1) push_new(4)]
  show ?thesis unfolding push_new(2,3) by (rule simulatesI [OF new(1)]) (simp only: new(2) apply_event.simps)
next
  case (push_store node head)
  note stored = push_store_ok [OF ok t push_store(1) push_store(4)]
  show ?thesis unfolding push_store(2,3) by (rule simulatesI [OF stored(1)]) (simp only: stored(2) apply_event.simps)
next
  case (push_ok head node)
  then have h: "ts ! t = PushStored node (ts_head s)" and s': "s' = s\<lparr>ts_head := Some node\<rparr>"
    by (simp_all add: compare_exchange_simps)
  show ?thesis unfolding push_ok(2,3) s' by (rule simulatesI [OF push_ok_ok [OF ok t h]]) simp
next
  case (pop_load head)
  show ?thesis unfolding pop_load(2,3,4)
    by (rule silent_simulates [OF ok t])
      (use head_published [OF ok pop_load(5)] unpublished_mono [OF t, of "PopLoaded head"] in auto)
next
  case pop_empty
  then have "as = []" using stack_okD(1) [OF ok] by (cases as) simp_all
  then show ?thesis unfolding pop_empty(2,3,4) by (intro simulatesI [OF silent_thread [OF ok t]]) simp_all
next
  case (pop_next head)
  show ?thesis unfolding pop_next(2,3,4)
    by (rule silent_simulates [OF ok t])
      (use stack_okD(6) [OF ok t] pop_next(1) unpublished_mono [OF t, of "PopNext head (nd_next (ts_nodes s ! head))"] in auto)
next
  case (pop_ok head nxt)
  then have h: "ts_head s = Some head" and s': "s' = s\<lparr>ts_head := nxt\<rparr>"
    by (simp_all add: compare_exchange_simps)
  obtain bs where bs: "as = head # bs" "stack_ok (ts[t := Idle], s\<lparr>ts_head := nxt\<rparr>) bs"
    by (rule pop_ok_ok [OF ok t pop_ok(1) h])
  show ?thesis unfolding pop_ok(2,3) s' by (rule simulatesI [OF bs(2)]) (simp add: bs(1))
next
  case (push_err head node)
  then show ?thesis using silent_simulates [OF ok t, of "Push node"] by (simp add: compare_exchange_simps)
next
  case (pop_err head nxt)
  then show ?thesis using silent_simulates [OF ok t, of Pop] by (simp add: compare_exchange_simps)
next
  case (push_load node)
  then show ?thesis using silent_simulates [OF ok t, of th] by simp
next
  case pop_start
  then show ?thesis using silent_simulates [OF ok t, of th] by simp
qed

lemma unpublished_spawn: "unpublished (ts @ [Idle]) = unpublished ts"
  by (auto simp: unpublished_def nth_append less_Suc_eq)

lemma spawned_ok:
  assumes ok: "stack_ok (ts, s) as"
  shows "stack_ok (ts @ [Idle], s) as"
proof -
  note D = stack_okD [OF ok]
  have own: "t < length ts \<and> owned (ts ! t) = Some a" if "t < Suc (length ts)" "owned ((ts @ [Idle]) ! t) = Some a" for t a
    using that by (cases "t < length ts") (auto simp: nth_append less_Suc_eq)
  have th: "thread_ok (ts_nodes s) (unpublished ts) ((ts @ [Idle]) ! t)" if "t < Suc (length ts)" for t
    using that D(6) [of t] by (cases "t < length ts") (auto simp: nth_append less_Suc_eq)
  have "a < length (ts_nodes s) \<and> (\<forall>u < Suc (length ts). owned ((ts @ [Idle]) ! u) = Some a \<longrightarrow> t = u)"
    if asm: "t < Suc (length ts)" "owned ((ts @ [Idle]) ! t) = Some a" for t a
    using own [OF asm] own D(4) [of t a] D(5) [of t a] by blast
  then show ?thesis unfolding stack_ok_def using D(1-3) th by (simp add: unpublished_spawn)
qed

lemma step_simulates:
  assumes "stack_step c e c'" "stack_ok c as"
  shows "simulates c' e (entries (snd c) as)"
  using assms
proof (cases rule: stack_step.cases)
  case (run t ts s th s')
  then show ?thesis using thread_simulates [of ts s as t e th s'] assms(2) by simp
next
  case (spawn ts s)
  then show ?thesis using spawned_ok [of ts s as] assms(2) by (simp add: simulates_def) blast
qed

lemma run_simulates:
  assumes "stack_run c es c'" "stack_ok c as"
  shows "\<exists>as'. stack_ok c' as' \<and> apply_events es (entries (snd c) as) = Some (entries (snd c') as')"
  using assms
proof (induction rule: stack_run.induct)
  case (start c)
  then show ?case by auto
next
  case (more c es c' e c'')
  then obtain as' where as': "stack_ok c' as'" "apply_events es (entries (snd c) as) = Some (entries (snd c') as')"
    by blast
  then show ?case using step_simulates [OF more.hyps(2) as'(1)] by (auto simp: apply_events_snoc simulates_def)
qed

lemma new_stack_ok: "stack_ok ([], new_stack) []"
  by (simp add: stack_ok_def new_stack_def)

text \<open>Dropping the stack: the walk from the head, freeing each node. No chain is longer than the store.\<close>

fun drop_nodes :: "nat \<Rightarrow> Node list \<Rightarrow> nat option \<Rightarrow> nat list option" where
  "drop_nodes 0 nodes current = None"
| "drop_nodes (Suc fuel) nodes current = (case current of
     None \<Rightarrow> Some []
   | Some a \<Rightarrow> map_option (Cons a) (drop_nodes fuel nodes (nd_next (nodes ! a))))"

definition drop_stack :: "TreiberStack \<Rightarrow> nat list option" where
  "drop_stack s = drop_nodes (Suc (length (ts_nodes s))) (ts_nodes s) (ts_head s)"

lemma drop_nodes_linked: "linked nodes h as \<Longrightarrow> length as < fuel \<Longrightarrow> drop_nodes fuel nodes h = Some as"
proof (induction as arbitrary: h fuel)
  case Nil
  then show ?case by (cases fuel) auto
next
  case (Cons a as)
  then show ?case by (cases fuel) auto
qed

lemma drop_stack_linked:
  assumes "linked (ts_nodes s) (ts_head s) as" "distinct as"
  shows "drop_stack s = Some as"
proof -
  have "set as \<subseteq> {..<length (ts_nodes s)}" using linked_bound [OF assms(1)] by auto
  then have "length as \<le> length (ts_nodes s)"
    using card_mono [of "{..<length (ts_nodes s)}" "set as"] distinct_card [OF assms(2)] by simp
  then show ?thesis unfolding drop_stack_def by (intro drop_nodes_linked [OF assms(1)]) simp
qed

text \<open>C14. The lock-free stack implements a stack. However the accesses of any number of threads running
  \<open>push\<close> and \<open>pop_and_wake\<close> are interleaved, starting from the new stack, the events of the run (a successful
  compare-exchange of \<open>push\<close>, a successful one of \<open>pop_and_wake\<close> with the entry it takes, and a load that finds
  the stack empty) are, in their order, a history of a sequential last-in first-out stack: no entry is lost,
  duplicated or taken out of order, and nobody finds the stack empty when it is not. The content of that
  stack at the end is what the links from the head spell, and dropping the stack ends and frees exactly these
  nodes, each once.\<close>

theorem treiber_refines_stack:
  assumes "stack_run ([], new_stack) es (ts, s)"
  shows "\<exists>as. drop_stack s = Some as \<and> distinct as \<and> apply_events es [] = Some (entries s as)"
proof -
  obtain as where as: "stack_ok (ts, s) as" "apply_events es (entries new_stack []) = Some (entries s as)"
    using run_simulates [OF assms new_stack_ok] by auto
  then show ?thesis using stack_okD(1,2) [OF as(1)] drop_stack_linked [of s as] by auto
qed

text \<open>Two threads push at the same time: the first has loaded the head when the second publishes its node, so its
  compare-exchange fails and it goes around again. A pop then takes the entry pushed last.\<close>

definition sample_events :: "event list" where
  "sample_events = [Tau, Tau, Tau, Tau, Tau, Tau, Tau, Tau, Pushed 8, Tau, Tau, Tau, Pushed 7, Tau, Tau, Tau, Popped 7]"

definition sample_nodes :: "Node list" where
  "sample_nodes = [\<lparr>nd_entry = 7, nd_next = Some 1\<rparr>, \<lparr>nd_entry = 8, nd_next = None\<rparr>]"

lemma run_step:
  "stack_run c es (ts, s) \<Longrightarrow> t < length ts \<Longrightarrow> thread_step (ts ! t) s e th s' \<Longrightarrow> ts[t := th] = ts' \<Longrightarrow> es @ [e] = es' \<Longrightarrow>
   stack_run c es' (ts', s')"
  using stack_run.more stack_step.run by blast

lemma sample_spawned: "stack_run ([], new_stack) [Tau, Tau] ([Idle, Idle], new_stack)"
  using stack_run.more [OF stack_run.more [OF stack_run.start stack_step.spawn] stack_step.spawn, of "[]" new_stack] by simp

abbreviation sample_node :: "nat \<Rightarrow> nat option \<Rightarrow> Node" where
  "sample_node x n \<equiv> \<lparr>nd_entry = x, nd_next = n\<rparr>"

lemma sample_contended:
  "stack_run ([], new_stack) [Tau, Tau, Tau, Tau, Tau, Tau, Tau, Tau, Pushed 8]
     ([PushStored 0 None, Idle], \<lparr>ts_nodes = [sample_node 7 None, sample_node 8 None], ts_head = Some 1\<rparr>)"
proof -
  have "stack_run ([], new_stack) [Tau, Tau, Tau]
     ([Push 0, Idle], \<lparr>ts_nodes = [sample_node 7 None], ts_head = None\<rparr>)"
    by (rule run_step [OF sample_spawned, of 0 Tau "Push 0"])
      (use thread_step.push_new [of new_stack 7] in \<open>simp_all add: new_stack_def\<close>)
  then have "stack_run ([], new_stack) [Tau, Tau, Tau, Tau]
     ([PushLoaded 0 None, Idle], \<lparr>ts_nodes = [sample_node 7 None], ts_head = None\<rparr>)"
    by (rule run_step [of _ _ _ _ 0 Tau "PushLoaded 0 None"])
      (use thread_step.push_load [of 0 "\<lparr>ts_nodes = [sample_node 7 None], ts_head = None\<rparr>"] in simp_all)
  then have "stack_run ([], new_stack) [Tau, Tau, Tau, Tau, Tau]
     ([PushStored 0 None, Idle], \<lparr>ts_nodes = [sample_node 7 None], ts_head = None\<rparr>)"
    by (rule run_step [of _ _ _ _ 0 Tau "PushStored 0 None"])
      (use thread_step.push_store [of 0 None "\<lparr>ts_nodes = [sample_node 7 None], ts_head = None\<rparr>"] in simp_all)
  then have "stack_run ([], new_stack) [Tau, Tau, Tau, Tau, Tau, Tau]
     ([PushStored 0 None, Push 1], \<lparr>ts_nodes = [sample_node 7 None, sample_node 8 None], ts_head = None\<rparr>)"
    by (rule run_step [of _ _ _ _ 1 Tau "Push 1"])
      (use thread_step.push_new [of "\<lparr>ts_nodes = [sample_node 7 None], ts_head = None\<rparr>" 8] in simp_all)
  then have "stack_run ([], new_stack) [Tau, Tau, Tau, Tau, Tau, Tau, Tau]
     ([PushStored 0 None, PushLoaded 1 None], \<lparr>ts_nodes = [sample_node 7 None, sample_node 8 None], ts_head = None\<rparr>)"
    by (rule run_step [of _ _ _ _ 1 Tau "PushLoaded 1 None"])
      (use thread_step.push_load [of 1 "\<lparr>ts_nodes = [sample_node 7 None, sample_node 8 None], ts_head = None\<rparr>"] in simp_all)
  then have "stack_run ([], new_stack) [Tau, Tau, Tau, Tau, Tau, Tau, Tau, Tau]
     ([PushStored 0 None, PushStored 1 None], \<lparr>ts_nodes = [sample_node 7 None, sample_node 8 None], ts_head = None\<rparr>)"
    by (rule run_step [of _ _ _ _ 1 Tau "PushStored 1 None"])
      (use thread_step.push_store [of 1 None "\<lparr>ts_nodes = [sample_node 7 None, sample_node 8 None], ts_head = None\<rparr>"] in simp_all)
  then show ?thesis
    by (rule run_step [of _ _ _ _ 1 "Pushed 8" Idle])
      (use thread_step.push_ok [of "\<lparr>ts_nodes = [sample_node 7 None, sample_node 8 None], ts_head = None\<rparr>" None 1] in
        \<open>simp_all add: compare_exchange_simps\<close>)
qed

lemma sample_run:
  "stack_run ([], new_stack) sample_events ([Idle, Idle], \<lparr>ts_nodes = sample_nodes, ts_head = Some 1\<rparr>)"
proof -
  let ?s = "\<lparr>ts_nodes = [sample_node 7 None, sample_node 8 None], ts_head = Some 1\<rparr>"
  let ?s' = "\<lparr>ts_nodes = sample_nodes, ts_head = Some 1\<rparr>"
  let ?es = "[Tau, Tau, Tau, Tau, Tau, Tau, Tau, Tau, Pushed 8]"
  have "stack_run ([], new_stack) (?es @ [Tau]) ([Push 0, Idle], ?s)"
    by (rule run_step [OF sample_contended, of 0 Tau "Push 0"])
      (use thread_step.push_err [of ?s None 0] in \<open>simp_all add: compare_exchange_simps\<close>)
  then have "stack_run ([], new_stack) (?es @ [Tau, Tau]) ([PushLoaded 0 (Some 1), Idle], ?s)"
    by (rule run_step [of _ _ _ _ 0 Tau "PushLoaded 0 (Some 1)"]) (use thread_step.push_load [of 0 ?s] in simp_all)
  then have "stack_run ([], new_stack) (?es @ [Tau, Tau, Tau]) ([PushStored 0 (Some 1), Idle], ?s')"
    by (rule run_step [of _ _ _ _ 0 Tau "PushStored 0 (Some 1)"])
      (use thread_step.push_store [of 0 "Some 1" ?s] in \<open>simp_all add: sample_nodes_def\<close>)
  then have "stack_run ([], new_stack) (?es @ [Tau, Tau, Tau, Pushed 7]) ([Idle, Idle], ?s'\<lparr>ts_head := Some 0\<rparr>)"
    by (rule run_step [of _ _ _ _ 0 "Pushed 7" Idle])
      (use thread_step.push_ok [of ?s' "Some 1" 0] in \<open>simp_all add: compare_exchange_simps sample_nodes_def\<close>)
  then have "stack_run ([], new_stack) (?es @ [Tau, Tau, Tau, Pushed 7, Tau]) ([Idle, Pop], ?s'\<lparr>ts_head := Some 0\<rparr>)"
    by (rule run_step [of _ _ _ _ 1 Tau Pop]) (use thread_step.pop_start in simp_all)
  then have "stack_run ([], new_stack) (?es @ [Tau, Tau, Tau, Pushed 7, Tau, Tau]) ([Idle, PopLoaded 0], ?s'\<lparr>ts_head := Some 0\<rparr>)"
    by (rule run_step [of _ _ _ _ 1 Tau "PopLoaded 0"]) (use thread_step.pop_load [of "?s'\<lparr>ts_head := Some 0\<rparr>" 0] in simp_all)
  then have "stack_run ([], new_stack) (?es @ [Tau, Tau, Tau, Pushed 7, Tau, Tau, Tau])
     ([Idle, PopNext 0 (Some 1)], ?s'\<lparr>ts_head := Some 0\<rparr>)"
    by (rule run_step [of _ _ _ _ 1 Tau "PopNext 0 (Some 1)"])
      (use thread_step.pop_next [of 0 "?s'\<lparr>ts_head := Some 0\<rparr>"] in \<open>simp_all add: sample_nodes_def\<close>)
  then show ?thesis
    by (rule run_step [of _ _ _ _ 1 "Popped 7" Idle])
      (use thread_step.pop_ok [of "?s'\<lparr>ts_head := Some 0\<rparr>" 0 "Some 1"] in
        \<open>simp_all add: compare_exchange_simps sample_nodes_def sample_events_def\<close>)
qed

theorem treiber_refines_stack_witness:
  "\<exists>as. drop_stack \<lparr>ts_nodes = sample_nodes, ts_head = Some 1\<rparr> = Some as \<and> distinct as \<and>
     apply_events sample_events [] = Some (entries \<lparr>ts_nodes = sample_nodes, ts_head = Some 1\<rparr> as)"
  by (rule treiber_refines_stack [OF sample_run])

subsection \<open>The waiter\<close>

datatype EntryStatus = Live | Woken | Revoked

record Entry =
  en_status :: EntryStatus
  en_waker :: "nat option"

text \<open>The waiter with its stack as the list of entries it holds, the entries by index, and the wakers called.\<close>

record TreiberWaiter =
  tw_stack :: "nat list"
  tw_entries :: "Entry list"
  tw_called :: "nat list"

record TreiberRegistration =
  tr_entry :: "nat option"
  tr_armed :: bool

definition new_waiter :: TreiberWaiter where
  "new_waiter = \<lparr>tw_stack = [], tw_entries = [], tw_called = []\<rparr>"

definition treiber_register :: TreiberRegistration where
  "treiber_register = \<lparr>tr_entry = None, tr_armed = False\<rparr>"

definition push_entry :: "TreiberWaiter \<Rightarrow> nat \<Rightarrow> TreiberWaiter" where
  "push_entry w i = w\<lparr>tw_stack := i # tw_stack w\<rparr>"

text \<open>The status is exchanged from live; a taken waker is called.\<close>

definition swap_status :: "TreiberWaiter \<Rightarrow> nat \<Rightarrow> EntryStatus \<Rightarrow> bool \<times> TreiberWaiter" where
  "swap_status w i st = (if en_status (tw_entries w ! i) = Live
     then (True, w\<lparr>tw_entries := (tw_entries w)[i := (tw_entries w ! i)\<lparr>en_status := st\<rparr>]\<rparr>) else (False, w))"

definition take_waker :: "TreiberWaiter \<Rightarrow> nat \<Rightarrow> TreiberWaiter" where
  "take_waker w i = (case en_waker (tw_entries w ! i) of
     None \<Rightarrow> w
   | Some k \<Rightarrow> w\<lparr>tw_entries := (tw_entries w)[i := (tw_entries w ! i)\<lparr>en_waker := None\<rparr>], tw_called := tw_called w @ [k]\<rparr>)"

fun pop_entries :: "nat list \<Rightarrow> TreiberWaiter \<Rightarrow> TreiberWaiter" where
  "pop_entries [] w = w\<lparr>tw_stack := []\<rparr>"
| "pop_entries (i # is) w = (let (ok, w') = swap_status (w\<lparr>tw_stack := is\<rparr>) i Woken in
     if ok then take_waker w' i else pop_entries is w')"

definition pop_and_wake :: "TreiberWaiter \<Rightarrow> TreiberWaiter" where
  "pop_and_wake w = pop_entries (tw_stack w) w"

definition treiber_wake :: "TreiberWaiter \<Rightarrow> TreiberWaiter" where
  "treiber_wake w = pop_and_wake w"

definition treiber_prepare :: "TreiberRegistration \<Rightarrow> TreiberRegistration" where
  "treiber_prepare r = r\<lparr>tr_armed := True\<rparr>"

definition do_revoke :: "TreiberRegistration \<Rightarrow> TreiberWaiter \<Rightarrow> TreiberRegistration \<times> TreiberWaiter" where
  "do_revoke r w = (\<lparr>tr_entry = None, tr_armed = False\<rparr>,
     case tr_entry r of None \<Rightarrow> w | Some i \<Rightarrow> snd (swap_status w i Revoked))"

definition treiber_revoke :: "TreiberRegistration \<Rightarrow> TreiberWaiter \<Rightarrow> TreiberRegistration \<times> TreiberWaiter" where
  "treiber_revoke r w = do_revoke r w"

definition treiber_drop :: "TreiberRegistration \<Rightarrow> TreiberWaiter \<Rightarrow> TreiberWaiter" where
  "treiber_drop r w = snd (do_revoke r w)"

text \<open>A poll of a parked registration loads the status, stores the waker and loads the status again; \<open>gap\<close> and \<open>gap'\<close>
  are what other threads do to the waiter before and after the store.\<close>

definition treiber_poll ::
    "(TreiberWaiter \<Rightarrow> TreiberWaiter) \<Rightarrow> (TreiberWaiter \<Rightarrow> TreiberWaiter) \<Rightarrow> nat \<Rightarrow> TreiberRegistration \<Rightarrow> TreiberWaiter \<Rightarrow>
     bool \<times> TreiberRegistration \<times> TreiberWaiter" where
  "treiber_poll gap gap' waker r w =
     (if \<not> tr_armed r then (True, r, w)
      else case tr_entry r of
        Some i \<Rightarrow>
          if en_status (tw_entries w ! i) = Woken then (True, \<lparr>tr_entry = None, tr_armed = False\<rparr>, w)
          else
            let w1 = gap w;
                w2 = gap' (w1\<lparr>tw_entries := (tw_entries w1)[i := (tw_entries w1 ! i)\<lparr>en_waker := Some waker\<rparr>]\<rparr>)
            in if en_status (tw_entries w2 ! i) = Woken then (True, \<lparr>tr_entry = None, tr_armed = False\<rparr>, w2)
               else (False, r, w2)
      | None \<Rightarrow>
          let i = length (tw_entries w) in
          (False, r\<lparr>tr_entry := Some i\<rparr>,
           push_entry (w\<lparr>tw_entries := tw_entries w @ [\<lparr>en_status = Live, en_waker = Some waker\<rparr>]\<rparr>) i))"

lemma pop_dead:
  "\<forall>i \<in> set is. en_status (tw_entries w ! i) \<noteq> Live \<Longrightarrow> pop_entries (is @ js) w = pop_entries js (w\<lparr>tw_stack := js\<rparr>)"
proof (induction "is" arbitrary: w)
  case Nil
  then show ?case by (cases js) (simp_all add: swap_status_def)
next
  case (Cons i "is")
  then show ?case by (simp add: swap_status_def)
qed

lemma wake_effect:
  assumes "tw_stack w = dead @ i # rest" "\<forall>j \<in> set dead. en_status (tw_entries w ! j) \<noteq> Live"
    and "i < length (tw_entries w)" "en_status (tw_entries w ! i) = Live" "en_waker (tw_entries w ! i) = Some k"
  shows "tw_stack (treiber_wake w) = rest \<and> tw_called (treiber_wake w) = tw_called w @ [k] \<and>
    length (tw_entries (treiber_wake w)) = length (tw_entries w) \<and> en_status (tw_entries (treiber_wake w) ! i) = Woken"
  using assms by (simp add: treiber_wake_def pop_and_wake_def pop_dead swap_status_def take_waker_def)

lemma wake_nobody:
  assumes "\<forall>i \<in> set (tw_stack w). en_status (tw_entries w ! i) \<noteq> Live"
  shows "treiber_wake w = w\<lparr>tw_stack := []\<rparr>"
  using pop_dead [of "tw_stack w" w "[]"] assms by (simp add: treiber_wake_def pop_and_wake_def)

text \<open>A wake of the custom waiter reaches the waiter that parked last: the entries above it on the stack, all
  revoked or already woken, are discarded, its waker is called, nobody else's is, the entries below it stay,
  and the next poll of its registration is ready. A wake that comes while that registration is being polled,
  before or after the poll has stored the task's new waker, makes that very poll ready.\<close>

theorem treiber_wake_reaches:
  assumes "tw_stack w = dead @ i # rest" "\<forall>j \<in> set dead. en_status (tw_entries w ! j) \<noteq> Live" "i \<notin> set dead"
    and "i < length (tw_entries w)" "en_status (tw_entries w ! i) = Live" "en_waker (tw_entries w ! i) = Some k"
    and "tr_entry r = Some i"
  shows "tw_stack (treiber_wake w) = rest \<and> tw_called (treiber_wake w) = tw_called w @ [k] \<and>
    fst (treiber_poll id id waker r (treiber_wake w)) \<and>
    fst (treiber_poll treiber_wake id waker r w) \<and> fst (treiber_poll id treiber_wake waker r w)"
proof -
  note eff = wake_effect [OF assms(1,2,4,5,6)]
  let ?w = "w\<lparr>tw_entries := (tw_entries w)[i := (tw_entries w ! i)\<lparr>en_waker := Some waker\<rparr>]\<rparr>"
  have "\<forall>j \<in> set dead. en_status (tw_entries ?w ! j) \<noteq> Live"
  proof
    fix j assume "j \<in> set dead"
    then show "en_status (tw_entries ?w ! j) \<noteq> Live" using assms(2,3) by (cases "j = i") simp_all
  qed
  then have "en_status (tw_entries (treiber_wake ?w) ! i) = Woken"
    using wake_effect [of ?w dead i rest waker] assms by simp
  then show ?thesis using eff assms by (simp add: treiber_poll_def Let_def)
qed

definition sample_parked :: TreiberWaiter where
  "sample_parked = \<lparr>tw_stack = [1, 0], tw_entries = [\<lparr>en_status = Live, en_waker = Some 5\<rparr>, \<lparr>en_status = Revoked, en_waker = Some 6\<rparr>],
     tw_called = []\<rparr>"

theorem treiber_wake_reaches_witness:
  "tw_called (treiber_wake sample_parked) = [5] \<and>
   fst (treiber_poll treiber_wake id 9 \<lparr>tr_entry = Some 0, tr_armed = True\<rparr> sample_parked)"
  using treiber_wake_reaches [of sample_parked "[1]" 0 "[]" 5 "\<lparr>tr_entry = Some 0, tr_armed = True\<rparr>" 9]
  by (simp add: sample_parked_def)

text \<open>C22. The custom waiter loses wake-ups. Its \<open>prepare\<close> only sets a flag: the entry is pushed by the first poll,
  after the second attempt to allocate. When nobody else is parked, a release that falls between that attempt
  and the poll wakes nobody, and the poll then parks the task: it is pending, its waker has not been called,
  and its entry waits on the stack for a later release. Had the release come after the poll, it would have
  called the waker.\<close>

theorem treiber_lost_wakeup:
  assumes "\<forall>i \<in> set (tw_stack w). en_status (tw_entries w ! i) \<noteq> Live"
  shows "\<exists>r w'. treiber_poll id id k (treiber_prepare treiber_register) (treiber_wake w) = (False, r, w') \<and>
    tw_called w' = tw_called w \<and> tw_stack w' = [length (tw_entries w)] \<and> tr_entry r = Some (length (tw_entries w)) \<and>
    en_status (tw_entries w' ! length (tw_entries w)) = Live \<and> tw_called (treiber_wake w') = tw_called w @ [k]"
  unfolding wake_nobody [OF assms]
  by (simp add: treiber_poll_def treiber_prepare_def treiber_register_def push_entry_def Let_def treiber_wake_def
      pop_and_wake_def swap_status_def take_waker_def)

theorem treiber_lost_wakeup_witness:
  "\<exists>r w'. treiber_poll id id 5 (treiber_prepare treiber_register) (treiber_wake new_waiter) = (False, r, w') \<and>
    tw_called w' = [] \<and> tw_stack w' = [0] \<and> tr_entry r = Some 0 \<and> tw_called (treiber_wake w') = [5]"
  using treiber_lost_wakeup [of new_waiter 5] by (simp add: new_waiter_def) blast

end
