(* ===== verification/Spec2Isabelle.thy ===== *)
theory Spec2Isabelle
  imports Bitmap_Concurrent Builders Waiters_Props Fixed_Tasks Async_Buddy Treiber
begin

text \<open>
  A verification development for the Rust crate \<^verbatim>\<open>arena-alligator\<close>, an arena allocator that hands out parts of
  one memory region and turns them into \<^verbatim>\<open>bytes::Bytes\<close> without copying the payload.

  \<^bold>\<open>The program.\<close> A \<^emph>\<open>fixed arena\<close> divides its region into slots of one size and keeps an atomic bitmap of the free
  ones; a \<^emph>\<open>buddy arena\<close> keeps one bitmap per power-of-two block size, splits blocks on allocation and merges them on
  release. An allocation is a \<^emph>\<open>buffer\<close>, which is written through \<^verbatim>\<open>BufMut\<close>, may move to the heap when it is full
  (a \<^emph>\<open>spill\<close>), and is frozen into a handle that \<^verbatim>\<open>Bytes\<close> owns; the last owner's drop releases the slot or block.
  \<^emph>\<open>Raw regions\<close> are allocations without the buffer. An \<^emph>\<open>asynchronous arena\<close> adds tasks that wait for a release, and a
  set of waiters that a release wakes from.

  \<^bold>\<open>Conventions.\<close> \<open>usize\<close> has 64 bits; masks and bitmap words are \<^typ>\<open>64 word\<close>, sizes and indices are \<^typ>\<open>nat\<close> with
  overflow written out. A computation has an \<^emph>\<open>outcome\<close>: a value, a panic with its message, or no end at all.
  \<open>profile\<close> tells debug builds, which check overflow and debug assertions, from release builds, which wrap. The
  record \<open>externals\<close> holds the code outside the crate that the arenas call (the allocator, \<open>sysconf\<close>, \<open>zeroize\<close>); its
  documented behaviour is \<open>alloc_succeeds\<close>, \<open>sysconf_ok\<close> and \<open>zeroize_ok\<close>, and \<open>sample_externals\<close> is an instance
  of it. The memory of an arena is part of its state.

  \<^bold>\<open>Theories.\<close>
  \<^item> \<open>Prelude\<close>: outcomes, machine arithmetic of the standard library, powers of two, shared lemmas.
  \<^item> \<open>Bitmap\<close> (\<^verbatim>\<open>src/src/bitmap.rs\<close>): \<open>AtomicBitmap\<close> and its operations, as a set of slots. Allocation claims a free slot
    whenever there is one, every slot is handed out once, misuse is detected in debug builds, and ranges are right
    across word boundaries.
  \<^item> \<open>Bitmap_Concurrent\<close> (\<^verbatim>\<open>bitmap.rs\<close>): threads in \<open>try_alloc\<close> interleaved access by access with each other, with exact
    claims and with releases. Claims and releases are a history of a sequential pool; a claim can be beaten to its bit
    any number of times.
  \<^item> \<open>Errors\<close> (\<^verbatim>\<open>error.rs\<close>), \<open>Metrics\<close> (\<^verbatim>\<open>metrics.rs\<close>), \<open>Dealloc\<close> (\<^verbatim>\<open>dealloc.rs\<close>): error values and their messages, the counters
    and their snapshots, deallocation strategies as the events they cause.
  \<^item> \<open>Geometry\<close> (\<^verbatim>\<open>geometry.rs\<close>) and \<open>Backing_Spec\<close> (\<^verbatim>\<open>spec.rs\<close>): which geometries are accepted, how requests and hints are
    rounded, that the hint loop ends, and where it does not.
  \<^item> \<open>Arena\<close> (\<^verbatim>\<open>arena.rs\<close>): configuration, page faulting, \<open>ArenaInner\<close>, \<open>allocate_fixed\<close> and the builders of a fixed
    arena; the invariant \<open>fixed_inv\<close> relates an arena to the set of slots in use.
  \<^item> \<open>Buddy_Tiling\<close>, \<open>Buddy\<close>, \<open>Buddy_Invariant\<close>, \<open>Buddy_Steps\<close>, \<open>Buddy_Correct\<close>, \<open>Buddy_Build\<close>, \<open>Buddy_Props\<close>
    (\<^verbatim>\<open>buddy.rs\<close>): blocks as a tiling of the region, the operations, the invariant \<open>buddy_inv\<close> with its preservation by
    splitting and merging, and the properties of allocation, of the builders and of \<open>largest_free_block\<close>.
  \<^item> \<open>Allocation\<close> (\<^verbatim>\<open>allocation.rs\<close>): both arenas behind one interface, its invariant \<open>arena_ok\<close>, and release.
  \<^item> \<open>Buffer_State\<close>, \<open>Buffer\<close> (\<^verbatim>\<open>buffer.rs\<close>, \<^verbatim>\<open>handle.rs\<close>, \<^verbatim>\<open>ext.rs\<close>): buffers, spilling, freezing, handles. What is written
    is what is read back, however the writes are cut and whether or not the buffer spilled.
  \<^item> \<open>Raw_Region\<close> (\<^verbatim>\<open>hazmat/raw_region.rs\<close>): raw allocation is the ordinary one, and freezing checks its range.
  \<^item> \<open>Builders\<close> (\<^verbatim>\<open>arena.rs\<close>, \<^verbatim>\<open>buddy.rs\<close>): the mode parameter of the builders as a type system, and faulting pages
    later as the same build.
  \<^item> \<open>Waiters\<close>, \<open>Waiters_Props\<close> (\<^verbatim>\<open>async_alloc.rs\<close>, \<open>NotifyWaiters\<close> on buddy arenas): entries, queues, counts and scores,
    with a step relation over the calls of any number of tasks. Waiters stay visible, wakes are bounded and well
    directed, streaks end; and dead entries can hide a waiter.
  \<^item> \<open>Fixed_Waiters\<close>, \<open>Fixed_Tasks\<close> (\<^verbatim>\<open>async_alloc.rs\<close>, \<open>NotifyWaiters\<close> on fixed arenas): tasks in
    \<open>allocate_with_waiter\<close> interleaved access by access with releases, cancellations and each other. No wake-up is lost;
    and two tasks can wake each other for nothing.
  \<^item> \<open>Async_Buddy\<close> (\<^verbatim>\<open>async_alloc.rs\<close>): the allocation loop of buddy arenas, from await to await, and the release with
    its wake.
  \<^item> \<open>Treiber\<close> (\<^verbatim>\<open>src/examples/treiber_waker.rs\<close>): the lock-free stack with interleaved threads implements a stack; the
    waiter on top of it reaches the task that parked last, but can lose a wake-up.

  \<^bold>\<open>Concurrency.\<close> The bitmap, the fixed waiters and the lock-free stack are interleaved at single atomic accesses,
  sequentially consistent except that the relaxed scanning load of the bitmap may return anything. The arenas, the
  buffers and the buddy waiters are modelled one call at a time, where a retry loop is its successful pass; the calls
  on the buddy waiters are atomic steps in any order.

  \<^bold>\<open>Parameters.\<close> \<open>BytesMut\<close> and the default \<open>put_slice\<close> of \<^verbatim>\<open>bytes\<close>, and \<open>Notify\<close> of \<^verbatim>\<open>tokio\<close>, are records of
  operations with their documented laws as hypotheses; each has an instance in the witnesses. The \<open>oneshot\<close> channel
  is the list of wakes sent and, per receiver, whether it is still there; the clock is an argument. Epoch-based
  reclamation is that node addresses are not reused.

  \<^bold>\<open>Fuel.\<close> Loops over words, orders, pops and pages recurse on what they count. The hint loop of \<open>Backing_Spec\<close> and page
  faulting with page size zero may run forever; there \<open>Diverge\<close> is a result. The walk that drops the lock-free stack
  has as fuel one more than the number of nodes ever made, and is shown to end within it. The instance of
  \<open>put_slice\<close> in the witnesses has the length of its data, since each round copies at least one byte.

  \<^bold>\<open>Not modelled.\<close> Other effects of weak memory orders; interleavings inside a buddy allocation or release; \<open>Debug\<close> and
  \<open>Clone\<close> implementations, plain getters and re-exports (\<^verbatim>\<open>lib.rs\<close>, \<^verbatim>\<open>sync.rs\<close>, \<^verbatim>\<open>hazmat/mod.rs\<close>), which hold no state;
  reference counts, which are the number of owners in the model of handles; the type-erased wake handles, which are
  the wake a release returns; the other example programs, which only call the interface; tests and benchmarks.
\<close>

end
